(* ===== verification/Prelude.thy ===== *)
theory Prelude
  imports Main "HOL-Library.Word" "HOL-Library.Multiset"
begin

unbundle bit_operations_syntax

text \<open>
  Shared vocabulary of the development: the machine integers of the kernel
  (\<open>usize\<close> is 64 bits wide on \<open>riscv64gc\<close>, and the kernel is built with
  \<^verbatim>\<open>--release\<close>, so \<open>+\<close>, \<open>-\<close> and \<open>*\<close> wrap), the ways a kernel
  function can panic, the state-and-panic monad in which the stateful code is
  written together with its weakest-precondition calculus, and generic facts on
  words, bytes and lists.
\<close>

named_theorems wp_rules \<open>weakest-precondition rewriting\<close>
named_theorems kdefs \<open>unfolding of the monad\<close>

section \<open>Machine integers\<close>

type_synonym u8 = "8 word"
type_synonym u16 = "16 word"
type_synonym u32 = "32 word"
type_synonym u64 = "64 word"
type_synonym usize = "64 word"
type_synonym isize = "64 word" \<comment> \<open>two's complement, read with \<open>sint\<close>\<close>

lemma unat_and_mask:
  "unat (w AND (push_bit n 1 - 1) :: 'a::len word) = unat w mod 2 ^ n" if "n < LENGTH('a)"
proof -
  have "w AND (push_bit n 1 - 1) = take_bit n w"
    by (simp add: take_bit_eq_mask mask_eq_exp_minus_1 push_bit_eq_mult)
  then have "unat (w AND (push_bit n 1 - 1)) = take_bit n (unat w)"
    using that by (simp only: unsigned_take_bit_eq)
  then show ?thesis
    by (simp only: take_bit_eq_mod)
qed

lemma unat_push_bit:
  "unat (push_bit n w :: 'a::len word) = unat w * 2 ^ n mod 2 ^ LENGTH('a)"
  unfolding unsigned_push_bit_eq by (simp add: take_bit_eq_mod push_bit_eq_mult)

lemma unat_push_bit_small:
  "unat w * 2 ^ n < 2 ^ LENGTH('a) \<Longrightarrow> unat (push_bit n w :: 'a::len word) = unat w * 2 ^ n"
  by (simp add: unat_push_bit)

lemma unat_drop_bit: "unat (drop_bit n w) = unat w div 2 ^ n"
  unfolding unat_drop_bit_eq by (simp add: drop_bit_eq_div)

lemma unat_less_power: "unat (w :: 'a::len word) < 2 ^ LENGTH('a)"
  by (rule unsigned_less)

lemma unat_lt_64 [simp]: "unat (w :: 64 word) < 18446744073709551616"
  using unat_less_power [of w] by simp

lemma unat_lt_32 [simp]: "unat (w :: 32 word) < 4294967296"
  using unat_less_power [of w] by simp

lemma unat_lt_16 [simp]: "unat (w :: 16 word) < 65536"
  using unat_less_power [of w] by simp

lemma unat_lt_8 [simp]: "unat (w :: 8 word) < 256"
  using unat_less_power [of w] by simp

lemma unat_add_small:
  "unat a + unat b < 2 ^ LENGTH('a) \<Longrightarrow> unat (a + b :: 'a::len word) = unat a + unat b"
  by (simp add: unat_word_ariths)

lemma unat_sub_small:
  "b \<le> a \<Longrightarrow> unat (a - b :: 'a::len word) = unat a - unat b"
  by (simp add: unat_sub)

lemma unat_of_nat_small: "n < 2 ^ LENGTH('a) \<Longrightarrow> unat (of_nat n :: 'a::len word) = n"
  by (simp add: unat_of_nat)

lemma unat_eqI: "unat a = unat b \<Longrightarrow> a = b"
  by (rule unsigned_word_eqI)

lemma unat_0_iff [simp]: "unat w = 0 \<longleftrightarrow> w = 0"
  by (metis unat_0 unat_eqI)

lemma bit_unat: "bit (unat w) k \<longleftrightarrow> bit w k"
  by (simp add: bit_unsigned_iff)

lemma take_bit_small: "unat w < 2 ^ n \<Longrightarrow> take_bit n (w :: 'a::len word) = w"
  by (rule unat_eqI) (simp only: unsigned_take_bit_eq take_bit_nat_eq_self)

lemma high_bit_small: "unat w < 2 ^ n \<Longrightarrow> n \<le> k \<Longrightarrow> \<not> bit (w :: 'a::len word) k"
  using take_bit_small [of w n] by (metis bit_take_bit_iff not_le)

lemma push_bit_mask: "push_bit n 1 - 1 = (mask n :: 'a::len word)"
  by (simp add: mask_eq_exp_minus_1 push_bit_eq_mult)

lemma and_mask_small:
  "unat w < 2 ^ n \<Longrightarrow> n < LENGTH('a) \<Longrightarrow> w AND (push_bit n 1 - 1) = (w :: 'a::len word)"
  by (rule unat_eqI) (simp only: unat_and_mask mod_less)

text \<open>Release-build arithmetic on \<open>usize\<close> values that are kept as natural numbers.\<close>

definition usub :: "nat \<Rightarrow> nat \<Rightarrow> nat" where
  "usub a b = unat (of_nat a - of_nat b :: usize)"

definition uadd :: "nat \<Rightarrow> nat \<Rightarrow> nat" where
  "uadd a b = unat (of_nat a + of_nat b :: usize)"

definition umul :: "nat \<Rightarrow> nat \<Rightarrow> nat" where
  "umul a b = unat (of_nat a * of_nat b :: usize)"

lemma usub_small: "b \<le> a \<Longrightarrow> a < 2 ^ 64 \<Longrightarrow> usub a b = a - b"
  unfolding usub_def of_nat_diff [symmetric] unat_of_nat by simp

lemma uadd_small: "a + b < 2 ^ 64 \<Longrightarrow> uadd a b = a + b"
  unfolding uadd_def of_nat_add [symmetric] unat_of_nat by simp

lemma umul_small: "a * b < 2 ^ 64 \<Longrightarrow> umul a b = a * b"
  unfolding umul_def of_nat_mult [symmetric] unat_of_nat by simp

section \<open>Little-endian byte strings\<close>

definition from_le_bytes :: "u8 list \<Rightarrow> 'a::len word" where
  "from_le_bytes bs = foldr (\<lambda>b acc. ucast b OR push_bit 8 acc) bs 0"

definition to_le_bytes :: "nat \<Rightarrow> 'a::len word \<Rightarrow> u8 list" where
  "to_le_bytes n w = map (\<lambda>i. ucast (drop_bit (8 * i) w)) [0..<n]"

lemma length_to_le_bytes [simp]: "length (to_le_bytes n w) = n"
  by (simp add: to_le_bytes_def)

lemma from_le_bytes_Nil [simp]: "from_le_bytes [] = 0"
  by (simp add: from_le_bytes_def)

lemma from_le_bytes_Cons [simp]:
  "from_le_bytes (b # bs) = ucast b OR push_bit 8 (from_le_bytes bs)"
  by (simp add: from_le_bytes_def)

lemma bit_from_le_bytes:
  "bit (from_le_bytes bs :: 'a::len word) k \<longleftrightarrow>
     k < LENGTH('a) \<and> k div 8 < length bs \<and> bit (bs ! (k div 8)) (k mod 8)"
proof (induction bs arbitrary: k)
  case Nil
  then show ?case by simp
next
  case (Cons b bs)
  show ?case
  proof (cases "k < 8")
    case True
    then show ?thesis
      by (auto simp: bit_or_iff bit_push_bit_iff bit_ucast_iff)
  next
    case False
    then obtain j where j: "k = 8 + j" by (metis le_add_diff_inverse not_le)
    then have d: "k - 8 = j" "k div 8 = Suc (j div 8)" "k mod 8 = j mod 8" by simp_all
    have "\<not> bit b k" using False bit_imp_le_length [of b k] by auto
    moreover have "k - 8 < LENGTH('a)" if "k < LENGTH('a)" using that by simp
    ultimately show ?thesis using False d
      by (auto simp: bit_or_iff bit_push_bit_iff bit_ucast_iff Cons.IH)
  qed
qed

lemma from_to_le_bytes:
  assumes "LENGTH('a) \<le> 8 * n"
  shows "from_le_bytes (to_le_bytes n (w :: 'a::len word)) = w"
proof (rule bit_word_eqI)
  fix k assume k: "k < LENGTH('a)"
  then have "k div 8 < n" using assms by auto
  moreover have "8 * (k div 8) + k mod 8 = k" by simp
  moreover have "bit (ucast (drop_bit (8 * (k div 8)) w) :: u8) (k mod 8)
      \<longleftrightarrow> bit w (8 * (k div 8) + k mod 8)"
    by (simp add: bit_ucast_iff bit_drop_bit_eq)
  ultimately show "bit (from_le_bytes (to_le_bytes n w) :: 'a word) k = bit w k"
    using k by (simp add: bit_from_le_bytes to_le_bytes_def)
qed

lemma to_from_le_bytes:
  assumes "8 * length bs \<le> LENGTH('a)"
  shows "to_le_bytes (length bs) (from_le_bytes bs :: 'a::len word) = bs"
proof (rule nth_equalityI)
  fix i assume "i < length (to_le_bytes (length bs) (from_le_bytes bs :: 'a word))"
  then have i: "i < length bs" by simp
  have "ucast (drop_bit (8 * i) (from_le_bytes bs :: 'a word)) = bs ! i"
  proof (rule bit_word_eqI)
    fix k assume k: "k < LENGTH(8)"
    then have "(8 * i + k) div 8 = i" "(8 * i + k) mod 8 = k" by auto
    moreover have "8 * i + k < LENGTH('a)" using k i assms by auto
    ultimately show "bit (ucast (drop_bit (8 * i) (from_le_bytes bs :: 'a word)) :: u8) k
        = bit (bs ! i) k"
      using i k by (simp add: bit_ucast_iff bit_drop_bit_eq bit_from_le_bytes)
  qed
  with i show "to_le_bytes (length bs) (from_le_bytes bs :: 'a word) ! i = bs ! i"
    by (simp add: to_le_bytes_def)
qed simp

text \<open>Bytes as characters and back, the cast \<^verbatim>\<open>u8 as char\<close> of the source.\<close>

definition char_of_u8 :: "u8 \<Rightarrow> char" where
  "char_of_u8 b = char_of (unat b)"

definition u8_of_char :: "char \<Rightarrow> u8" where
  "u8_of_char c = of_nat (of_char c)"

lemma char_of_u8_of_char [simp]: "char_of_u8 (u8_of_char c) = c"
  by (simp add: char_of_u8_def u8_of_char_def unat_of_nat)

lemma u8_of_char_of_u8 [simp]: "u8_of_char (char_of_u8 b) = b"
proof -
  have "unat b < 256" using unat_less_power [of b] by simp
  then show ?thesis by (simp add: char_of_u8_def u8_of_char_def)
qed

section \<open>Panics and the kernel monad\<close>

text \<open>
  A Rust panic in this kernel prints a message and shuts the machine down
  (\<^verbatim>\<open>lang_items.rs\<close>), so after a panic there is no state left to speak of: the
  result of a stateful function is either a panic or a value and a new state.
  \<open>Hang\<close> stands for a computation that never returns: an endless loop, or a spin lock taken twice
  by its own holder.
\<close>

datatype panic =
    UnwrapNone | UnwrapErr | AssertFailed | OutOfBounds | SliceLength
  | FrameNotAllocated usize | Explicit string | Hang

type_synonym 'a res = "panic + 'a"
type_synonym ('s, 'a) kernel = "'s \<Rightarrow> panic + ('a \<times> 's)"

definition kret :: "'a \<Rightarrow> ('s, 'a) kernel" where
  [kdefs]: "kret a = (\<lambda>s. Inr (a, s))"

definition kpanic :: "panic \<Rightarrow> ('s, 'a) kernel" where
  [kdefs]: "kpanic e = (\<lambda>s. Inl e)"

definition kbind :: "('s, 'a) kernel \<Rightarrow> ('a \<Rightarrow> ('s, 'b) kernel) \<Rightarrow> ('s, 'b) kernel" where
  [kdefs]: "kbind m f = (\<lambda>s. case m s of Inl e \<Rightarrow> Inl e | Inr (a, s') \<Rightarrow> f a s')"

definition kthen :: "('s, 'a) kernel \<Rightarrow> ('s, 'b) kernel \<Rightarrow> ('s, 'b) kernel" where
  [kdefs]: "kthen m n = kbind m (\<lambda>_. n)"

definition kget :: "('s \<Rightarrow> 'a) \<Rightarrow> ('s, 'a) kernel" where
  [kdefs]: "kget f = (\<lambda>s. Inr (f s, s))"

definition kmodify :: "('s \<Rightarrow> 's) \<Rightarrow> ('s, unit) kernel" where
  [kdefs]: "kmodify f = (\<lambda>s. Inr ((), f s))"

definition kassert :: "bool \<Rightarrow> ('s, unit) kernel" where
  [kdefs]: "kassert b = (if b then kret () else kpanic AssertFailed)"

definition kcheck :: "panic \<Rightarrow> bool \<Rightarrow> ('s, unit) kernel" where
  [kdefs]: "kcheck e b = (if b then kret () else kpanic e)"

definition kunwrap :: "'a option \<Rightarrow> ('s, 'a) kernel" where
  [kdefs]: "kunwrap x = (case x of None \<Rightarrow> kpanic UnwrapNone | Some a \<Rightarrow> kret a)"

definition kindex :: "'a list \<Rightarrow> nat \<Rightarrow> ('s, 'a) kernel" where
  [kdefs]: "kindex xs i = (if i < length xs then kret (xs ! i) else kpanic OutOfBounds)"

definition kres :: "'a res \<Rightarrow> ('s, 'a) kernel" where
  [kdefs]: "kres r = (case r of Inl e \<Rightarrow> kpanic e | Inr a \<Rightarrow> kret a)"

text \<open>A computation on a part of the state.\<close>

definition kzoom :: "('s \<Rightarrow> 't) \<Rightarrow> ('t \<Rightarrow> 's \<Rightarrow> 's) \<Rightarrow> ('t, 'a) kernel \<Rightarrow> ('s, 'a) kernel" where
  [kdefs]: "kzoom sel put m = (\<lambda>s. case m (sel s) of Inl e \<Rightarrow> Inl e | Inr (a, t) \<Rightarrow> Inr (a, put t s))"

lemma kbind_kret [simp]: "kbind (kret a) f = f a"
  by (simp add: kbind_def kret_def)

lemma kbind_kres_Inr [simp]: "kbind (kres (Inr a)) f = f a"
  by (simp add: kres_def)

lemma kbind_kunwrap_Some [simp]: "kbind (kunwrap (Some a)) f = f a"
  by (simp add: kunwrap_def)

fun kfold :: "('x \<Rightarrow> 'a \<Rightarrow> ('s, 'a) kernel) \<Rightarrow> 'x list \<Rightarrow> 'a \<Rightarrow> ('s, 'a) kernel" where
  "kfold f [] a = kret a"
| "kfold f (x # xs) a = kbind (f x a) (kfold f xs)"

lemma kfold_append: "kfold f (xs @ ys) a = kbind (kfold f xs a) (\<lambda>b. kfold f ys b)"
  by (induction xs arbitrary: a) (simp_all add: kdefs fun_eq_iff split: sum.split)

lemma kfold_map: "kfold f (map g xs) a = kfold (\<lambda>x. f (g x)) xs a"
  by (induction xs arbitrary: a) (simp_all add: kdefs fun_eq_iff split: sum.split)

subsection \<open>Weakest preconditions\<close>

text \<open>
  \<open>wpe m Q E s\<close>: run from \<open>s\<close>, either \<open>m\<close> returns and its result satisfies \<open>Q\<close>, or it
  panics and the panic satisfies \<open>E\<close>. With no panic allowed this is total correctness
  (\<open>wp\<close>), with every panic allowed it is partial correctness (\<open>wlp\<close>).
\<close>

definition wpe ::
  "('s, 'a) kernel \<Rightarrow> ('a \<Rightarrow> 's \<Rightarrow> bool) \<Rightarrow> (panic \<Rightarrow> bool) \<Rightarrow> 's \<Rightarrow> bool" where
  "wpe m Q E s = (case m s of Inl e \<Rightarrow> E e | Inr (a, s') \<Rightarrow> Q a s')"

abbreviation wp :: "('s, 'a) kernel \<Rightarrow> ('a \<Rightarrow> 's \<Rightarrow> bool) \<Rightarrow> 's \<Rightarrow> bool" where
  "wp m Q \<equiv> wpe m Q (\<lambda>_. False)"

abbreviation wlp :: "('s, 'a) kernel \<Rightarrow> ('a \<Rightarrow> 's \<Rightarrow> bool) \<Rightarrow> 's \<Rightarrow> bool" where
  "wlp m Q \<equiv> wpe m Q (\<lambda>_. True)"

lemma wpe_kret [simp, wp_rules]: "wpe (kret a) Q E = Q a"
  by (simp add: fun_eq_iff wpe_def kret_def)

lemma wpe_kpanic [simp, wp_rules]: "wpe (kpanic e) Q E s = E e"
  by (simp add: wpe_def kpanic_def)

lemma wpe_kbind [simp, wp_rules]: "wpe (kbind m f) Q E = wpe m (\<lambda>a. wpe (f a) Q E) E"
  by (simp add: fun_eq_iff wpe_def kbind_def split: sum.split prod.split)

lemma wpe_kthen [simp, wp_rules]: "wpe (kthen m n) Q E = wpe m (\<lambda>_. wpe n Q E) E"
  by (simp add: kthen_def)

lemma wpe_kget [simp, wp_rules]: "wpe (kget f) Q E s = Q (f s) s"
  by (simp add: wpe_def kget_def)

lemma wpe_kmodify [simp, wp_rules]: "wpe (kmodify f) Q E s = Q () (f s)"
  by (simp add: wpe_def kmodify_def)

lemma wpe_kassert [simp, wp_rules]:
  "wpe (kassert b) Q E s = ((b \<longrightarrow> Q () s) \<and> (\<not> b \<longrightarrow> E AssertFailed))"
  by (simp add: kassert_def)

lemma wpe_kcheck [simp, wp_rules]:
  "wpe (kcheck e b) Q E s = ((b \<longrightarrow> Q () s) \<and> (\<not> b \<longrightarrow> E e))"
  by (simp add: kcheck_def)

lemma wpe_kunwrap [simp, wp_rules]:
  "wpe (kunwrap x) Q E s = ((x = None \<longrightarrow> E UnwrapNone) \<and> (\<forall>a. x = Some a \<longrightarrow> Q a s))"
  by (simp add: kunwrap_def split: option.split)

lemma wpe_kindex [simp, wp_rules]:
  "wpe (kindex xs i) Q E s =
     ((i < length xs \<longrightarrow> Q (xs ! i) s) \<and> (length xs \<le> i \<longrightarrow> E OutOfBounds))"
  by (simp add: kindex_def)

lemma wpe_kres [simp, wp_rules]:
  "wpe (kres r) Q E s = ((\<forall>e. r = Inl e \<longrightarrow> E e) \<and> (\<forall>a. r = Inr a \<longrightarrow> Q a s))"
  by (simp add: kres_def split: sum.split)

lemma wpe_kzoom [simp, wp_rules]: "wpe (kzoom sel put m) Q E s = wpe m (\<lambda>a t. Q a (put t s)) E (sel s)"
  by (simp add: wpe_def kzoom_def split: sum.split prod.split)

lemma wpe_if [wp_rules]:
  "wpe (if b then m else n) Q E s = ((b \<longrightarrow> wpe m Q E s) \<and> (\<not> b \<longrightarrow> wpe n Q E s))"
  by simp

lemma wpe_mono:
  "wpe m Q E s \<Longrightarrow> (\<And>a t. Q a t \<Longrightarrow> R a t) \<Longrightarrow> (\<And>e. E e \<Longrightarrow> F e) \<Longrightarrow> wpe m R F s"
  by (auto simp: wpe_def split: sum.splits)

lemma wpe_post: "wpe m Q E s \<Longrightarrow> (\<And>a t. Q a t \<Longrightarrow> R a t) \<Longrightarrow> wpe m R E s"
  by (rule wpe_mono)

lemma wpe_bindI: "wpe m P E s \<Longrightarrow> (\<And>a t. P a t \<Longrightarrow> wpe (f a) Q E t) \<Longrightarrow> wpe (kbind m f) Q E s"
  unfolding wpe_kbind by (rule wpe_post)

lemma wpe_conj: "wpe m Q E s \<Longrightarrow> wlp m R s \<Longrightarrow> wpe m (\<lambda>a t. Q a t \<and> R a t) E s"
  by (auto simp: wpe_def split: sum.splits)

lemma wp_wpe: "wp m Q s \<Longrightarrow> wpe m Q E s"
  by (erule wpe_mono) auto

lemma wpD: "wp m Q s \<Longrightarrow> \<exists>a t. m s = Inr (a, t) \<and> Q a t"
  by (auto simp: wpe_def split: sum.splits)

lemma wpI: "m s = Inr (a, t) \<Longrightarrow> Q a t \<Longrightarrow> wpe m Q E s"
  by (simp add: wpe_def)

lemma wpeI:
  "(\<And>a t. m s = Inr (a, t) \<Longrightarrow> Q a t) \<Longrightarrow> (\<And>e. m s = Inl e \<Longrightarrow> E e) \<Longrightarrow> wpe m Q E s"
  by (auto simp: wpe_def split: sum.splits)

lemma wpeD: "wpe m Q E s \<Longrightarrow> m s = Inr (a, t) \<Longrightarrow> Q a t"
  by (simp add: wpe_def)

lemma wpe_panicD: "wpe m Q E s \<Longrightarrow> m s = Inl e \<Longrightarrow> E e"
  by (simp add: wpe_def)

text \<open>The loop rule: an invariant over the elements already done.\<close>

lemma wpe_kfold:
  assumes "I [] a s"
    and "\<And>xs x ys a s. zs = xs @ x # ys \<Longrightarrow> I xs a s \<Longrightarrow> wpe (f x a) (I (xs @ [x])) E s"
  shows "wpe (kfold f zs a) (I zs) E s"
proof -
  have "wpe (kfold f ys a) (I zs) E s" if "zs = xs @ ys" "I xs a s" for xs ys a s
    using that
  proof (induction ys arbitrary: xs a s)
    case Nil
    then show ?case by simp
  next
    case (Cons y ys)
    have "wpe (f y a) (I (xs @ [y])) E s" using Cons.prems assms(2) by blast
    then show ?case
      by (simp, elim wpe_post) (use Cons in simp)
  qed
  from this [of "[]" zs a s] assms(1) show ?thesis by simp
qed

subsection \<open>Unbounded loops\<close>

text \<open>
  A loop whose end the source does not bound is a least fixed point in the option type; one that never
  ends is seen by its caller as the panic \<open>Hang\<close>, so total correctness includes its termination.  The
  body of \<open>kloop\<close> either continues with a new loop state or leaves the loop with a result.
\<close>

definition kpartial :: "('s \<Rightarrow> ('a \<times> 's) res option) \<Rightarrow> ('s, 'a) kernel" where
  [kdefs]: "kpartial f = (\<lambda>s. case f s of None \<Rightarrow> Inl Hang | Some r \<Rightarrow> r)"

partial_function (option) kloop_opt ::
  "('a \<Rightarrow> ('s, 'a + 'b) kernel) \<Rightarrow> 'a \<Rightarrow> 's \<Rightarrow> ('b \<times> 's) res option" where
  "kloop_opt body a s =
     (case body a s of
        Inl e \<Rightarrow> Some (Inl e)
      | Inr (r, t) \<Rightarrow> (case r of Inl a' \<Rightarrow> kloop_opt body a' t | Inr b \<Rightarrow> Some (Inr (b, t))))"

definition kloop :: "('a \<Rightarrow> ('s, 'a + 'b) kernel) \<Rightarrow> 'a \<Rightarrow> ('s, 'b) kernel" where
  "kloop body a = kpartial (kloop_opt body a)"

lemma kloop_unfold:
  "kloop body a = kbind (body a) (\<lambda>r. case r of Inl a' \<Rightarrow> kloop body a' | Inr b \<Rightarrow> kret b)"
  by (rule ext)
    (simp add: kloop_def kpartial_def kbind_def kret_def kloop_opt.simps [of body a] split: sum.split prod.split)

lemma wpe_kloop:
  assumes "wf R" "I a s"
    and step: "\<And>a s. I a s \<Longrightarrow>
      wpe (body a) (\<lambda>r t. case r of Inl a' \<Rightarrow> I a' t \<and> ((a', t), (a, s)) \<in> R | Inr b \<Rightarrow> Q b t) E s"
  shows "wpe (kloop body a) Q E s"
  using assms(2)
proof (induction "(a, s)" arbitrary: a s rule: wf_induct_rule [OF assms(1)])
  case (1 a s)
  show ?case
    unfolding kloop_unfold [of body a] wpe_kbind
    by (rule wpe_post [OF step [OF 1(2)]]) (use 1(1) in \<open>auto split: sum.splits\<close>)
qed

lemma wpe_kloop_measure:
  assumes "I a s"
    and step: "\<And>a s. I a s \<Longrightarrow>
      wpe (body a) (\<lambda>r t. case r of Inl a' \<Rightarrow> I a' t \<and> m a' t < (m a s :: nat) | Inr b \<Rightarrow> Q b t) E s"
  shows "wpe (kloop body a) Q E s"
  by (rule wpe_kloop [OF wf_measure [of "\<lambda>(a, s). m a s"], of I, OF assms(1)])
    (rule wpe_post [OF step], auto split: sum.splits)

section \<open>Lists\<close>

definition slice :: "nat \<Rightarrow> nat \<Rightarrow> 'a list \<Rightarrow> 'a list" where
  "slice i j xs = take (j - i) (drop i xs)"

lemma length_slice [simp]: "length (slice i j xs) = min (j - i) (length xs - i)"
  by (simp add: slice_def min.commute)

lemma nth_slice: "i + k < j \<Longrightarrow> j \<le> length xs \<Longrightarrow> slice i j xs ! k = xs ! (i + k)"
  by (simp add: slice_def)

text \<open>\<open>overwrite i ys xs\<close> is \<^verbatim>\<open>xs[i..i+len].copy_from_slice(ys)\<close> inside the bounds of \<open>xs\<close>.\<close>

definition overwrite :: "nat \<Rightarrow> 'a list \<Rightarrow> 'a list \<Rightarrow> 'a list" where
  "overwrite i ys xs = take i xs @ ys @ drop (i + length ys) xs"

lemma length_overwrite: "i + length ys \<le> length xs \<Longrightarrow> length (overwrite i ys xs) = length xs"
  by (simp add: overwrite_def)

lemma nth_overwrite:
  "i + length ys \<le> length xs \<Longrightarrow> k < length xs \<Longrightarrow>
   overwrite i ys xs ! k = (if i \<le> k \<and> k < i + length ys then ys ! (k - i) else xs ! k)"
  by (auto simp: overwrite_def nth_append min_def)

lemma overwrite_whole: "length ys = length xs \<Longrightarrow> overwrite 0 ys xs = ys" for xs ys :: "'a list"
  by (simp add: overwrite_def)

lemma slice_overwrite_0: "j \<le> length ys \<Longrightarrow> slice i j (overwrite 0 ys xs) = slice i j ys" for xs ys :: "'a list"
  by (simp add: slice_def overwrite_def)

lemma overwrite_append:
  "i \<le> length zs \<Longrightarrow> overwrite (i + length xs) ys (overwrite i xs zs) = overwrite i (xs @ ys) zs"
  for xs ys zs :: "'a list"
  by (simp add: overwrite_def ac_simps min_def)

lemma overwrite_Nil [simp]: "overwrite i [] xs = xs" for xs :: "'a list"
  by (simp add: overwrite_def)

lemma slice_append:
  fixes xs :: "'a list"
  assumes "i \<le> j" "j \<le> k"
  shows "slice i j xs @ slice j k xs = slice i k xs"
proof -
  have "drop j xs = drop (j - i) (drop i xs)" "k - i = (j - i) + (k - j)" using assms by simp_all
  then show ?thesis by (simp only: slice_def take_add)
qed

lemma of_nat_unat_usize: "of_nat (unat w) = (w :: usize)"
  by simp

lemma slice_overwrite_same:
  "k + length ys \<le> length xs \<Longrightarrow> j = k + length ys \<Longrightarrow> slice k j (overwrite k ys xs) = ys"
  by (simp add: slice_def overwrite_def)

lemma slice_overwrite_other:
  assumes "k + length ys \<le> length xs" "j \<le> k \<or> k + length ys \<le> i" "j \<le> length xs"
  shows "slice i j (overwrite k ys xs) = slice i j xs"
  by (rule nth_equalityI) (use assms in \<open>auto simp: nth_slice nth_overwrite length_overwrite\<close>)

lemma slice_update_other: "k < i \<or> j \<le> k \<Longrightarrow> slice i j (xs[k := v]) = slice i j xs"
  by (rule nth_equalityI) (auto simp: slice_def nth_list_update)

text \<open>\<^verbatim>\<open>copy_from_slice\<close> panics unless both slices have the same length.\<close>

definition copy_from_slice :: "nat \<Rightarrow> nat \<Rightarrow> u8 list \<Rightarrow> u8 list \<Rightarrow> ('s, u8 list) kernel" where
  "copy_from_slice i j src dst =
     kthen (kcheck OutOfBounds (i \<le> j \<and> j \<le> length dst \<and> length src = j - i)) (kret (overwrite i src dst))"

definition checked_slice :: "nat \<Rightarrow> nat \<Rightarrow> u8 list \<Rightarrow> ('s, u8 list) kernel" where
  "checked_slice i j xs = kthen (kcheck OutOfBounds (i \<le> j \<and> j \<le> length xs)) (kret (slice i j xs))"

lemma find_append: "find P (xs @ ys) = (case find P xs of None \<Rightarrow> find P ys | Some x \<Rightarrow> Some x)"
  by (induction xs) auto

text \<open>\<^verbatim>\<open>Iterator::position\<close>: the first index that satisfies a predicate.\<close>

fun find_index :: "('a \<Rightarrow> bool) \<Rightarrow> 'a list \<Rightarrow> nat option" where
  "find_index P [] = None"
| "find_index P (x # xs) = (if P x then Some 0 else map_option Suc (find_index P xs))"

lemma find_index_Some:
  "find_index P xs = Some i \<longleftrightarrow> i < length xs \<and> P (xs ! i) \<and> (\<forall>j<i. \<not> P (xs ! j))"
proof (induction xs arbitrary: i)
  case (Cons x xs)
  then show ?case
    by (cases i) (auto simp: less_Suc_eq_0_disj)
qed simp

lemma find_index_None: "find_index P xs = None \<longleftrightarrow> (\<forall>x\<in>set xs. \<not> P x)"
  by (induction xs) auto

section \<open>Ordered maps\<close>

text \<open>
  A \<^verbatim>\<open>BTreeMap\<close> as the list of its entries in key order. The look-up is \<open>map_of\<close>;
  iteration, and the order in which the values are dropped, is the order of the list.
\<close>

fun bt_insert :: "'k::linorder \<Rightarrow> 'v \<Rightarrow> ('k \<times> 'v) list \<Rightarrow> ('k \<times> 'v) list" where
  "bt_insert k v [] = [(k, v)]"
| "bt_insert k v ((k', v') # xs) =
     (if k < k' then (k, v) # (k', v') # xs
      else if k = k' then (k, v) # xs
      else (k', v') # bt_insert k v xs)"

definition bt_remove :: "'k \<Rightarrow> ('k \<times> 'v) list \<Rightarrow> ('k \<times> 'v) list" where
  "bt_remove k xs = filter (\<lambda>(k', _). k' \<noteq> k) xs"

definition bt_ok :: "('k::linorder \<times> 'v) list \<Rightarrow> bool" where
  "bt_ok xs \<longleftrightarrow> sorted_wrt (<) (map fst xs)"

lemma map_of_bt_insert [simp]: "map_of (bt_insert k v xs) = (map_of xs)(k \<mapsto> v)"
  by (induction k v xs rule: bt_insert.induct) (auto simp: fun_eq_iff)

lemma map_of_bt_remove [simp]: "map_of (bt_remove k xs) = (map_of xs)(k := None)"
  by (induction xs) (auto simp: bt_remove_def fun_eq_iff)

lemma keys_bt_insert: "fst ` set (bt_insert k v xs) = insert k (fst ` set xs)"
  by (induction k v xs rule: bt_insert.induct) auto

lemma keys_bt_remove: "fst ` set (bt_remove k xs) = fst ` set xs - {k}"
  by (auto simp: bt_remove_def image_iff)

lemma bt_ok_insert: "bt_ok xs \<Longrightarrow> bt_ok (bt_insert k v xs)"
proof (induction k v xs rule: bt_insert.induct)
  case (2 k v k' v' xs)
  have "\<forall>x\<in>fst ` set (bt_insert k v xs). k' < x" if "\<not> k < k'" "k \<noteq> k'"
    using 2 that by (auto simp: keys_bt_insert bt_ok_def)
  with 2 show ?case by (auto simp: bt_ok_def)
qed (simp add: bt_ok_def)

lemma bt_ok_remove: "bt_ok xs \<Longrightarrow> bt_ok (bt_remove k xs)"
  unfolding bt_ok_def bt_remove_def
  by (induction xs) auto

lemma mset_bt_insert: "k \<notin> fst ` set xs \<Longrightarrow> mset (bt_insert k v xs) = add_mset (k, v) (mset xs)"
  by (induction k v xs rule: bt_insert.induct) auto

lemma bt_ok_distinct: "bt_ok xs \<Longrightarrow> distinct (map fst xs)"
  by (simp add: bt_ok_def strict_sorted_iff)

end
