(* ===== verification/Address.thy ===== *)
theory Address
  imports Prelude
begin

text \<open>
  \<^verbatim>\<open>config.rs\<close> and \<^verbatim>\<open>mm/address.rs\<close>: the memory-layout constants, the four
  address newtypes of the SV39 scheme with their conversions, and the page-number
  ranges that drive every mapping loop. Conversions that \<open>assert_eq!\<close> alignment
  return a panic on the other branch; the iterator over a range is the code's own
  \<open>next\<close>, and \<open>collect\<close> is the \<open>for\<close> loop over it.
\<close>

section \<open>Constants of config.rs\<close>

definition PAGE_SIZE :: usize where "PAGE_SIZE = 0x1000"
definition PAGE_SIZE_BITS :: nat where "PAGE_SIZE_BITS = 0xc"
definition USER_STACK_SIZE :: usize where "USER_STACK_SIZE = 4096 * 2"
definition KERNEL_STACK_SIZE :: usize where "KERNEL_STACK_SIZE = 4096 * 2"
definition MEMORY_END :: usize where "MEMORY_END = 0x88000000"
definition TRAMPOLINE :: usize where "TRAMPOLINE = - 1 - PAGE_SIZE + 1"
definition TRAPFRAME :: usize where "TRAPFRAME = TRAMPOLINE - PAGE_SIZE"

lemmas config_defs = PAGE_SIZE_def PAGE_SIZE_BITS_def USER_STACK_SIZE_def
  KERNEL_STACK_SIZE_def MEMORY_END_def TRAMPOLINE_def TRAPFRAME_def

definition kernel_stack_position :: "usize \<Rightarrow> usize \<times> usize" where
  "kernel_stack_position app_id =
     (let top = TRAMPOLINE - app_id * (KERNEL_STACK_SIZE + PAGE_SIZE);
          bottom = top - KERNEL_STACK_SIZE
      in (bottom, top))"

section \<open>The address types\<close>

definition PA_WIDTH_SV39 :: nat where "PA_WIDTH_SV39 = 56"
definition VA_WIDTH_SV39 :: nat where "VA_WIDTH_SV39 = 39"
definition PPN_WIDTH_SV39 :: nat where "PPN_WIDTH_SV39 = PA_WIDTH_SV39 - PAGE_SIZE_BITS"
definition VPN_WIDTH_SV39 :: nat where "VPN_WIDTH_SV39 = VA_WIDTH_SV39 - PAGE_SIZE_BITS"

lemmas width_defs = PA_WIDTH_SV39_def VA_WIDTH_SV39_def PPN_WIDTH_SV39_def
  VPN_WIDTH_SV39_def PAGE_SIZE_BITS_def

datatype PhysAddr = PhysAddr (pa: usize)
datatype VirtAddr = VirtAddr (va: usize)
datatype PhysPageNum = PhysPageNum (ppn: usize)
datatype VirtPageNum = VirtPageNum (vpn: usize)

text \<open>The derived \<open>Ord\<close>: newtypes compare by their field.\<close>

instantiation VirtPageNum :: linorder
begin

definition less_eq_VirtPageNum :: "VirtPageNum \<Rightarrow> VirtPageNum \<Rightarrow> bool" where
  "a \<le> b \<longleftrightarrow> vpn a \<le> vpn b"

definition less_VirtPageNum :: "VirtPageNum \<Rightarrow> VirtPageNum \<Rightarrow> bool" where
  "a < b \<longleftrightarrow> vpn a < vpn b"

instance
  by standard (auto simp: less_eq_VirtPageNum_def less_VirtPageNum_def VirtPageNum.expand)

end

instantiation PhysPageNum :: linorder
begin

definition less_eq_PhysPageNum :: "PhysPageNum \<Rightarrow> PhysPageNum \<Rightarrow> bool" where
  "a \<le> b \<longleftrightarrow> ppn a \<le> ppn b"

definition less_PhysPageNum :: "PhysPageNum \<Rightarrow> PhysPageNum \<Rightarrow> bool" where
  "a < b \<longleftrightarrow> ppn a < ppn b"

instance
  by standard (auto simp: less_eq_PhysPageNum_def less_PhysPageNum_def PhysPageNum.expand)

end

instantiation VirtAddr :: linorder
begin

definition less_eq_VirtAddr :: "VirtAddr \<Rightarrow> VirtAddr \<Rightarrow> bool" where
  "a \<le> b \<longleftrightarrow> va a \<le> va b"

definition less_VirtAddr :: "VirtAddr \<Rightarrow> VirtAddr \<Rightarrow> bool" where
  "a < b \<longleftrightarrow> va a < va b"

instance
  by standard (auto simp: less_eq_VirtAddr_def less_VirtAddr_def VirtAddr.expand)

end

section \<open>Conversions\<close>

definition PhysAddr_from_usize :: "usize \<Rightarrow> PhysAddr" where
  "PhysAddr_from_usize v = PhysAddr (v AND (push_bit PA_WIDTH_SV39 1 - 1))"

definition PhysPageNum_from_usize :: "usize \<Rightarrow> PhysPageNum" where
  "PhysPageNum_from_usize v = PhysPageNum (v AND (push_bit PPN_WIDTH_SV39 1 - 1))"

definition VirtAddr_from_usize :: "usize \<Rightarrow> VirtAddr" where
  "VirtAddr_from_usize v = VirtAddr (v AND (push_bit VA_WIDTH_SV39 1 - 1))"

definition VirtPageNum_from_usize :: "usize \<Rightarrow> VirtPageNum" where
  "VirtPageNum_from_usize v = VirtPageNum (v AND (push_bit VPN_WIDTH_SV39 1 - 1))"

definition usize_from_PhysAddr :: "PhysAddr \<Rightarrow> usize" where
  "usize_from_PhysAddr v = pa v"

definition usize_from_PhysPageNum :: "PhysPageNum \<Rightarrow> usize" where
  "usize_from_PhysPageNum v = ppn v"

definition usize_from_VirtAddr :: "VirtAddr \<Rightarrow> usize" where
  "usize_from_VirtAddr v =
     (if va v \<ge> push_bit (VA_WIDTH_SV39 - 1) 1
      then va v OR NOT (push_bit VA_WIDTH_SV39 1 - 1)
      else va v)"

definition usize_from_VirtPageNum :: "VirtPageNum \<Rightarrow> usize" where
  "usize_from_VirtPageNum v = vpn v"

definition VirtAddr_floor :: "VirtAddr \<Rightarrow> VirtPageNum" where
  "VirtAddr_floor v = VirtPageNum (va v div PAGE_SIZE)"

definition VirtAddr_ceil :: "VirtAddr \<Rightarrow> VirtPageNum" where
  "VirtAddr_ceil v = VirtPageNum ((va v - 1 + PAGE_SIZE) div PAGE_SIZE)"

definition VirtAddr_ceil_align :: "VirtAddr \<Rightarrow> VirtPageNum" where
  "VirtAddr_ceil_align v = VirtPageNum ((va v - 1 + PAGE_SIZE) div PAGE_SIZE * PAGE_SIZE)"

definition VirtAddr_page_offset :: "VirtAddr \<Rightarrow> usize" where
  "VirtAddr_page_offset v = va v AND (PAGE_SIZE - 1)"

definition VirtAddr_aligned :: "VirtAddr \<Rightarrow> bool" where
  "VirtAddr_aligned v \<longleftrightarrow> VirtAddr_page_offset v = 0"

definition VirtPageNum_from_VirtAddr :: "VirtAddr \<Rightarrow> VirtPageNum res" where
  "VirtPageNum_from_VirtAddr v =
     (if VirtAddr_page_offset v = 0 then Inr (VirtAddr_floor v) else Inl AssertFailed)"

definition VirtAddr_from_VirtPageNum :: "VirtPageNum \<Rightarrow> VirtAddr" where
  "VirtAddr_from_VirtPageNum v = VirtAddr (push_bit PAGE_SIZE_BITS (vpn v))"

definition PhysAddr_floor :: "PhysAddr \<Rightarrow> PhysPageNum" where
  "PhysAddr_floor v = PhysPageNum (pa v div PAGE_SIZE)"

definition PhysAddr_ceil :: "PhysAddr \<Rightarrow> PhysPageNum" where
  "PhysAddr_ceil v = PhysPageNum ((pa v - 1 + PAGE_SIZE) div PAGE_SIZE)"

definition PhysAddr_page_offset :: "PhysAddr \<Rightarrow> usize" where
  "PhysAddr_page_offset v = pa v AND (PAGE_SIZE - 1)"

definition PhysAddr_aligned :: "PhysAddr \<Rightarrow> bool" where
  "PhysAddr_aligned v \<longleftrightarrow> PhysAddr_page_offset v = 0"

definition PhysPageNum_from_PhysAddr :: "PhysAddr \<Rightarrow> PhysPageNum res" where
  "PhysPageNum_from_PhysAddr v =
     (if PhysAddr_page_offset v = 0 then Inr (PhysAddr_floor v) else Inl AssertFailed)"

definition PhysAddr_from_PhysPageNum :: "PhysPageNum \<Rightarrow> PhysAddr" where
  "PhysAddr_from_PhysPageNum v = PhysAddr (push_bit PAGE_SIZE_BITS (ppn v))"

definition indexes :: "VirtPageNum \<Rightarrow> usize list" where
  "indexes v =
     fst (fold (\<lambda>i (idx, vp). (idx[i := vp AND 511], drop_bit 9 vp))
               (rev [0..<3]) ([0, 0, 0], vpn v))"

section \<open>Ranges of page numbers\<close>

text \<open>
  The trait \<open>StepByOne\<close> and the range types, generic in the element type as in the
  source; the trait's contract is the locale below.
\<close>

definition VirtPageNum_step :: "VirtPageNum \<Rightarrow> VirtPageNum" where
  "VirtPageNum_step v = VirtPageNum (vpn v + 1)"

definition PhysPageNum_step :: "PhysPageNum \<Rightarrow> PhysPageNum" where
  "PhysPageNum_step v = PhysPageNum (ppn v + 1)"

record 'a SimpleRange =
  range_l :: 'a
  range_r :: 'a

type_synonym VPNRange = "VirtPageNum SimpleRange"

definition SimpleRange_new :: "'a::ord \<Rightarrow> 'a \<Rightarrow> 'a SimpleRange res" where
  "SimpleRange_new start stop =
     (if start \<le> stop then Inr \<lparr>range_l = start, range_r = stop\<rparr> else Inl AssertFailed)"

definition get_start :: "'a SimpleRange \<Rightarrow> 'a" where
  "get_start rg = range_l rg"

definition get_end :: "'a SimpleRange \<Rightarrow> 'a" where
  "get_end rg = range_r rg"

record 'a SimpleRangeIterator =
  it_current :: 'a
  it_end :: 'a

definition into_iter :: "'a SimpleRange \<Rightarrow> 'a SimpleRangeIterator" where
  "into_iter rg = \<lparr>it_current = range_l rg, it_end = range_r rg\<rparr>"

definition SimpleRangeIterator_next ::
  "('a \<Rightarrow> 'a) \<Rightarrow> 'a SimpleRangeIterator \<Rightarrow> 'a option \<times> 'a SimpleRangeIterator" where
  "SimpleRangeIterator_next step it =
     (if it_current it = it_end it then (None, it)
      else (Some (it_current it), it\<lparr>it_current := step (it_current it)\<rparr>))"

text \<open>
  \<^verbatim>\<open>for x in range\<close>: \<open>next\<close> until it gives \<open>None\<close>. The result \<open>None\<close> here is a
  loop that never ends.
\<close>

partial_function (option) range_collect ::
  "('a \<Rightarrow> 'a) \<Rightarrow> 'a SimpleRangeIterator \<Rightarrow> 'a list option" where
  "range_collect step it =
     (case SimpleRangeIterator_next step it of
        (None, _) \<Rightarrow> Some []
      | (Some x, it') \<Rightarrow> Option.bind (range_collect step it') (\<lambda>xs. Some (x # xs)))"

text \<open>The pages of a range in order, as the loops of \<^verbatim>\<open>memory_set.rs\<close> visit them.\<close>

definition vpns :: "VPNRange \<Rightarrow> VirtPageNum list" where
  "vpns rg =
     map (\<lambda>i. VirtPageNum (of_nat i)) [unat (vpn (get_start rg))..<unat (vpn (get_end rg))]"

section \<open>Arithmetic of pages\<close>

lemma unat_PAGE_SIZE [simp]: "unat PAGE_SIZE = 4096"
  by (simp add: PAGE_SIZE_def)

lemma page_mask: "w AND (PAGE_SIZE - 1) = w AND (push_bit 12 1 - 1)"
  by (simp add: PAGE_SIZE_def)

lemma unat_page_offset: "unat (VirtAddr_page_offset v) = unat (va v) mod 4096"
  using unat_and_mask [of 12 "va v"] by (simp add: VirtAddr_page_offset_def page_mask)

lemma unat_pa_page_offset: "unat (PhysAddr_page_offset v) = unat (pa v) mod 4096"
  using unat_and_mask [of 12 "pa v"] by (simp add: PhysAddr_page_offset_def page_mask)

lemma unat_floor: "unat (vpn (VirtAddr_floor v)) = unat (va v) div 4096"
  by (simp add: VirtAddr_floor_def unat_div)

lemma unat_pa_floor: "unat (ppn (PhysAddr_floor v)) = unat (pa v) div 4096"
  by (simp add: PhysAddr_floor_def unat_div)

lemma unat_round_up:
  assumes "unat w \<le> 2 ^ 64 - 4096"
  shows "unat ((w - 1 + PAGE_SIZE) div PAGE_SIZE) = (unat w + 4095) div 4096"
proof -
  have "w - 1 + PAGE_SIZE = w + (PAGE_SIZE - 1)" by (simp only: algebra_simps)
  then have "w - 1 + PAGE_SIZE = w + 4095" by (simp add: PAGE_SIZE_def)
  moreover have "unat (w + 4095) = unat w + 4095"
    using assms by (subst unat_add_small) auto
  ultimately show ?thesis by (simp only: unat_div unat_PAGE_SIZE)
qed

lemma unat_ceil:
  "unat (va v) \<le> 2 ^ 64 - 4096 \<Longrightarrow> unat (vpn (VirtAddr_ceil v)) = (unat (va v) + 4095) div 4096"
  by (simp add: VirtAddr_ceil_def unat_round_up)

lemma unat_VirtAddr_from_usize: "unat (va (VirtAddr_from_usize w)) = unat w mod 2 ^ 39"
  using unat_and_mask [of 39 w] by (simp add: VirtAddr_from_usize_def width_defs)

lemma unat_PhysAddr_from_usize: "unat (pa (PhysAddr_from_usize w)) = unat w mod 2 ^ 56"
  using unat_and_mask [of 56 w] by (simp add: PhysAddr_from_usize_def width_defs)

lemma unat_PhysPageNum_from_usize: "unat (ppn (PhysPageNum_from_usize w)) = unat w mod 2 ^ 44"
  using unat_and_mask [of 44 w] by (simp add: PhysPageNum_from_usize_def width_defs)

lemma unat_VirtPageNum_from_usize: "unat (vpn (VirtPageNum_from_usize w)) = unat w mod 2 ^ 27"
  using unat_and_mask [of 27 w] by (simp add: VirtPageNum_from_usize_def width_defs)

lemma unat_va_of_vpn:
  "unat (vpn v) < 2 ^ 52 \<Longrightarrow> unat (va (VirtAddr_from_VirtPageNum v)) = unat (vpn v) * 4096"
  by (simp add: VirtAddr_from_VirtPageNum_def PAGE_SIZE_BITS_def unat_push_bit_small)

lemma unat_pa_of_ppn:
  "unat (ppn v) < 2 ^ 52 \<Longrightarrow> unat (pa (PhysAddr_from_PhysPageNum v)) = unat (ppn v) * 4096"
  by (simp add: PhysAddr_from_PhysPageNum_def PAGE_SIZE_BITS_def unat_push_bit_small)

lemma vpn_eqI: "unat (vpn v) = unat (vpn w) \<Longrightarrow> v = w"
  by (rule VirtPageNum.expand) (rule unsigned_word_eqI)

lemma ppn_eqI: "unat (ppn v) = unat (ppn w) \<Longrightarrow> v = w"
  by (rule PhysPageNum.expand) (rule unsigned_word_eqI)

lemma va_eqI: "unat (va v) = unat (va w) \<Longrightarrow> v = w"
  by (rule VirtAddr.expand) (rule unsigned_word_eqI)

text \<open>a page number survives the trip through its address: the address is
  aligned (the conversion back does not panic) and gives the same page number.\<close>

theorem vpn_va_roundtrip:
  assumes "unat (vpn v) < 2 ^ 52"
  shows "VirtPageNum_from_VirtAddr (VirtAddr_from_VirtPageNum v) = Inr v"
proof -
  let ?a = "VirtAddr_from_VirtPageNum v"
  from assms have "unat (VirtAddr_page_offset ?a) = 0"
    by (simp add: unat_page_offset unat_va_of_vpn)
  moreover from assms have "VirtAddr_floor ?a = v"
    by (intro vpn_eqI) (simp add: unat_floor unat_va_of_vpn)
  ultimately show ?thesis
    by (simp add: VirtPageNum_from_VirtAddr_def)
qed

theorem vpn_va_roundtrip_witness:
  "VirtPageNum_from_VirtAddr (VirtAddr_from_VirtPageNum (VirtPageNum 0x7ffffff)) =
     Inr (VirtPageNum 0x7ffffff)"
  by (rule vpn_va_roundtrip) simp

subsection \<open>Sign extension of virtual addresses\<close>

lemma bit_sv39_ones:
  "bit (NOT (push_bit VA_WIDTH_SV39 1 - 1) :: usize) k \<longleftrightarrow> 39 \<le> k \<and> k < 64"
  by (auto simp: bit_not_iff bit_mask_iff push_bit_mask width_defs simp del: push_bit_of_1)

lemma VirtAddr_from_usize_take_bit: "VirtAddr_from_usize w = VirtAddr (take_bit 39 w)"
  by (simp add: VirtAddr_from_usize_def take_bit_eq_mask push_bit_mask width_defs
      del: push_bit_of_1)

lemma sv39_high_bit:
  assumes "push_bit (VA_WIDTH_SV39 - 1) 1 \<le> w" "unat w < 2 ^ 39"
  shows "bit (w :: usize) 38"
proof -
  from assms have "2 ^ 38 \<le> unat w" "unat w < 2 ^ 39"
    by (simp_all add: width_defs word_le_nat_alt)
  then have "unat w div 2 ^ 38 = 1" by simp
  then show ?thesis by (simp add: bit_unat [symmetric] bit_iff_odd)
qed

text \<open>an SV39 address widened to 64 bits and narrowed again is unchanged, and
  the widened value is canonical: bits 38 to 63 are all copies of bit 38.\<close>

theorem sv39_sign_extension:
  assumes "unat (va v) < 2 ^ 39"
  shows "VirtAddr_from_usize (usize_from_VirtAddr v) = v \<and>
    (\<forall>k\<in>{38..63}. bit (usize_from_VirtAddr v) k = bit (va v) 38)"
proof (cases "va v \<ge> push_bit (VA_WIDTH_SV39 - 1) 1")
  case True
  let ?w = "va v OR NOT (push_bit VA_WIDTH_SV39 1 - 1)"
  from True assms have b: "bit (va v) 38" by (rule sv39_high_bit)
  have "take_bit 39 ?w = take_bit 39 (va v)"
    by (rule bit_eqI) (auto simp: bit_take_bit_iff bit_or_iff bit_sv39_ones
        simp del: push_bit_of_1)
  moreover have "bit ?w k" if "38 \<le> k" "k \<le> 63" for k
    using that b by (cases "k = 38") (auto simp: bit_or_iff bit_sv39_ones simp del: push_bit_of_1)
  ultimately show ?thesis
    using True assms b
    by (auto simp: usize_from_VirtAddr_def VirtAddr_from_usize_take_bit take_bit_small
        simp del: push_bit_of_1)
next
  case False
  then have "unat (va v) < 2 ^ 38"
    by (simp add: width_defs word_le_nat_alt)
  then have "\<not> bit (va v) k" if "38 \<le> k" for k
    using that by (rule high_bit_small)
  with False assms show ?thesis
    by (auto simp: usize_from_VirtAddr_def VirtAddr_from_usize_take_bit take_bit_small)
qed

theorem sv39_sign_extension_witness:
  "usize_from_VirtAddr (VirtAddr 0x7ffffff000) = TRAMPOLINE \<and>
   VirtAddr_from_usize (usize_from_VirtAddr (VirtAddr 0x7ffffff000)) = VirtAddr 0x7ffffff000"
  using sv39_sign_extension [of "VirtAddr 0x7ffffff000"]
  by (simp add: usize_from_VirtAddr_def width_defs config_defs)

subsection \<open>Page-table indices\<close>

lemma indexes_eq:
  "indexes v = [drop_bit 9 (drop_bit 9 (vpn v)) AND 511, drop_bit 9 (vpn v) AND 511, vpn v AND 511]"
  by (simp add: indexes_def upt_rec numeral_eq_Suc)

lemma unat_and_511: "unat (w AND 511 :: usize) = unat w mod 512"
  using unat_and_mask [of 9 w] by simp

lemma unat_indexes:
  "map unat (indexes v) = [unat (vpn v) div 2 ^ 18 mod 512, unat (vpn v) div 2 ^ 9 mod 512,
     unat (vpn v) mod 512]"
  by (simp add: indexes_eq unat_and_511 unat_drop_bit div_mult2_eq [symmetric])

text \<open>the three page-table indices of a page number are each below 512, and
  together they are the 27-bit page number written in base 512, most significant
  first; two different 27-bit page numbers never share their indices.\<close>

theorem indexes_base_512:
  assumes "unat (vpn v) < 2 ^ 27"
  shows "list_all (\<lambda>i. unat i < 512) (indexes v) \<and>
    foldl (\<lambda>acc i. acc * 512 + unat i) 0 (indexes v) = unat (vpn v) \<and>
    (\<forall>w. unat (vpn w) < 2 ^ 27 \<longrightarrow> indexes w = indexes v \<longrightarrow> w = v)"
proof -
  have enc: "foldl (\<lambda>acc i. acc * 512 + unat i) 0 (indexes u) = unat (vpn u)"
    if "unat (vpn u) < 2 ^ 27" for u
  proof -
    obtain a b c where abc: "indexes u = [a, b, c]" by (simp add: indexes_eq)
    with unat_indexes [of u]
    have "unat a = unat (vpn u) div 2 ^ 18 mod 512" "unat b = unat (vpn u) div 2 ^ 9 mod 512"
      "unat c = unat (vpn u) mod 512" by simp_all
    moreover have "unat (vpn u) div 2 ^ 9 div 512 * 512 + unat (vpn u) div 2 ^ 9 mod 512 =
        unat (vpn u) div 2 ^ 9" "unat (vpn u) div 512 * 512 + unat (vpn u) mod 512 = unat (vpn u)"
      by (rule div_mult_mod_eq)+
    ultimately show ?thesis using that abc by (simp add: div_mult2_eq [symmetric])
  qed
  have "list_all (\<lambda>i. unat i < 512) (indexes v)"
    by (simp add: indexes_eq unat_and_511)
  moreover have "w = v" if "unat (vpn w) < 2 ^ 27" "indexes w = indexes v" for w
    using enc [OF that(1)] enc [OF assms] that(2) by (intro vpn_eqI) simp
  ultimately show ?thesis using enc [OF assms] by blast
qed

theorem indexes_base_512_witness:
  "indexes (VirtPageNum 0x40a05) = [1, 5, 5] \<and>
   foldl (\<lambda>acc i. acc * 512 + unat i) 0 (indexes (VirtPageNum 0x40a05)) = 0x40a05"
  using indexes_base_512 [of "VirtPageNum 0x40a05"] by (simp add: indexes_eq)

section \<open>Iterating a range\<close>

text \<open>
  The contract of \<open>StepByOne\<close>: elements have a position, equal positions mean equal
  elements, and a step moves one position up while there is room.
\<close>

locale step_by_one =
  fixes step :: "'a \<Rightarrow> 'a" and pos :: "'a \<Rightarrow> nat"
  assumes pos_inj: "pos x = pos y \<Longrightarrow> x = y"
    and pos_step: "pos x < pos y \<Longrightarrow> pos (step x) = Suc (pos x)"
begin

lemma collect_positions:
  assumes "pos (it_current it) \<le> pos (it_end it)"
  shows "\<exists>xs. range_collect step it = Some xs \<and>
    map pos xs = [pos (it_current it)..<pos (it_end it)]"
  using assms
proof (induction "pos (it_end it) - pos (it_current it)" arbitrary: it)
  case 0
  then have "it_current it = it_end it" by (intro pos_inj) simp
  then show ?case
    by (subst range_collect.simps) (simp add: SimpleRangeIterator_next_def)
next
  case (Suc n)
  let ?it = "it\<lparr>it_current := step (it_current it)\<rparr>"
  from Suc.hyps(2) have lt: "pos (it_current it) < pos (it_end it)" by simp
  then have st: "pos (it_current ?it) = Suc (pos (it_current it))"
    using pos_step by simp
  with Suc lt obtain xs where xs: "range_collect step ?it = Some xs"
    "map pos xs = [Suc (pos (it_current it))..<pos (it_end it)]"
    by (metis SimpleRangeIterator.select_convs(2) SimpleRangeIterator.surjective
        SimpleRangeIterator.update_convs(1) Suc_leI Suc_diff_Suc diff_Suc_1 )
  from lt have "it_current it \<noteq> it_end it" by auto
  then have "range_collect step it = Some (it_current it # xs)"
    using xs(1) by (subst range_collect.simps) (simp add: SimpleRangeIterator_next_def)
  with xs(2) lt show ?case by (simp add: upt_conv_Cons)
qed

lemma positions_determine: "map pos xs = map pos ys \<Longrightarrow> xs = ys"
  by (rule map_injective [of pos]) (auto intro: pos_inj injI)

end

interpretation vpn_step: step_by_one VirtPageNum_step "\<lambda>v. unat (vpn v)"
proof
  fix x y :: VirtPageNum
  show "unat (vpn x) = unat (vpn y) \<Longrightarrow> x = y" by (rule vpn_eqI)
  assume lt: "unat (vpn x) < unat (vpn y)"
  have "unat (vpn x) + unat (1 :: usize) < 2 ^ LENGTH(64)"
    using lt unat_less_power [of "vpn y"] unfolding unat_1 by linarith
  then show "unat (vpn (VirtPageNum_step x)) = Suc (unat (vpn x))"
    by (simp add: VirtPageNum_step_def unat_add_small)
qed

interpretation ppn_step: step_by_one PhysPageNum_step "\<lambda>v. unat (ppn v)"
proof
  fix x y :: PhysPageNum
  show "unat (ppn x) = unat (ppn y) \<Longrightarrow> x = y" by (rule ppn_eqI)
  assume lt: "unat (ppn x) < unat (ppn y)"
  have "unat (ppn x) + unat (1 :: usize) < 2 ^ LENGTH(64)"
    using lt unat_less_power [of "ppn y"] unfolding unat_1 by linarith
  then show "unat (ppn (PhysPageNum_step x)) = Suc (unat (ppn x))"
    by (simp add: PhysPageNum_step_def unat_add_small)
qed

lemma pos_vpns: "map (\<lambda>v. unat (vpn v)) (vpns rg) = [unat (vpn (get_start rg))..<unat (vpn (get_end rg))]"
proof -
  have "unat (of_nat i :: usize) = i" if "i < unat (vpn (get_end rg))" for i
    using that unat_less_power [of "vpn (get_end rg)"] by (intro unat_of_nat_small) (rule less_trans)
  then show ?thesis by (simp add: vpns_def comp_def) (rule map_idI, simp)
qed

lemma set_vpns: "set (vpns rg) = {v. get_start rg \<le> v \<and> v < get_end rg}"
proof -
  have "v \<in> set (vpns rg) \<longleftrightarrow> unat (vpn v) \<in> set (map (\<lambda>v. unat (vpn v)) (vpns rg))" for v
    by (auto dest: vpn_eqI)
  then show ?thesis
    by (auto simp: pos_vpns less_eq_VirtPageNum_def less_VirtPageNum_def word_le_nat_alt
        word_less_nat_alt)
qed

lemma distinct_vpns: "distinct (vpns rg)"
  using pos_vpns [of rg] by (metis distinct_map distinct_upt)

text \<open>C38: a \<open>for\<close> loop over a range built by \<open>SimpleRange::new\<close> always ends; it
  visits exactly the page numbers from start to end (excluded), in increasing order,
  each once.\<close>

theorem range_loop_visits:
  assumes "SimpleRange_new a b = Inr rg"
  shows "range_collect VirtPageNum_step (into_iter rg) = Some (vpns rg) \<and>
    set (vpns rg) = {a..<b} \<and> sorted (vpns rg) \<and> distinct (vpns rg)"
proof -
  from assms have rg: "rg = \<lparr>range_l = a, range_r = b\<rparr>" "a \<le> b"
    by (auto simp: SimpleRange_new_def split: if_splits)
  then have "unat (vpn (it_current (into_iter rg))) \<le> unat (vpn (it_end (into_iter rg)))"
    by (simp add: into_iter_def less_eq_VirtPageNum_def word_le_nat_alt)
  from vpn_step.collect_positions [OF this] obtain xs where
    xs: "range_collect VirtPageNum_step (into_iter rg) = Some xs"
    "map (\<lambda>v. unat (vpn v)) xs = map (\<lambda>v. unat (vpn v)) (vpns rg)"
    by (auto simp: pos_vpns into_iter_def get_start_def get_end_def)
  then have vs: "xs = vpns rg" using vpn_step.positions_determine by blast
  have "sorted (map (\<lambda>v. unat (vpn v)) (vpns rg))" by (simp add: pos_vpns)
  moreover have "(\<lambda>x y. unat (vpn x) \<le> unat (vpn y)) = (\<le>)"
    by (simp add: fun_eq_iff less_eq_VirtPageNum_def word_le_nat_alt)
  ultimately have "sorted (vpns rg)" by (simp add: sorted_map)
  then show ?thesis
    using xs vs rg distinct_vpns [of rg]
    by (auto simp: set_vpns get_start_def get_end_def)
qed

theorem range_loop_visits_witness:
  "\<exists>rg. SimpleRange_new (VirtPageNum 3) (VirtPageNum 6) = Inr rg \<and>
     range_collect VirtPageNum_step (into_iter rg) =
       Some [VirtPageNum 3, VirtPageNum 4, VirtPageNum 5]"
proof -
  let ?rg = "\<lparr>range_l = VirtPageNum 3, range_r = VirtPageNum 6\<rparr>"
  have "SimpleRange_new (VirtPageNum 3) (VirtPageNum 6) = Inr ?rg"
    by (simp add: SimpleRange_new_def less_eq_VirtPageNum_def)
  moreover from range_loop_visits [OF this]
  have "range_collect VirtPageNum_step (into_iter ?rg) =
      Some [VirtPageNum 3, VirtPageNum 4, VirtPageNum 5]"
    by (simp add: vpns_def get_start_def get_end_def upt_rec)
  ultimately show ?thesis by blast
qed

end
