(* ===== verification/Frame_Allocator.thy ===== *)
theory Frame_Allocator
  imports Address
begin

text \<open>
  Physical memory and \<^verbatim>\<open>mm/frame_allocator.rs\<close>. Physical memory is one flat array
  of bytes; a reference that the code makes from a physical address is that address,
  so every alias the code can create is an alias of the model. The stack allocator is
  the code's record of a bump pointer and a stack of recycled frames; \<open>fa_live\<close> is
  the set of frames it has handed out and not taken back.
\<close>

section \<open>Physical memory\<close>

type_synonym memory = "nat \<Rightarrow> u8"

definition mem_read :: "memory \<Rightarrow> nat \<Rightarrow> nat \<Rightarrow> u8 list" where
  "mem_read m a n = map m [a..<a + n]"

definition mem_write :: "memory \<Rightarrow> nat \<Rightarrow> u8 list \<Rightarrow> memory" where
  "mem_write m a bs = (\<lambda>k. if a \<le> k \<and> k < a + length bs then bs ! (k - a) else m k)"

definition mem_fill :: "memory \<Rightarrow> nat \<Rightarrow> nat \<Rightarrow> u8 \<Rightarrow> memory" where
  "mem_fill m a n b = (\<lambda>k. if a \<le> k \<and> k < a + n then b else m k)"

definition load64 :: "memory \<Rightarrow> nat \<Rightarrow> u64" where
  "load64 m a = from_le_bytes (mem_read m a 8)"

definition store64 :: "memory \<Rightarrow> nat \<Rightarrow> u64 \<Rightarrow> memory" where
  "store64 m a w = mem_write m a (to_le_bytes 8 w)"

text \<open>\<open>PhysPageNum::get_bytes_array\<close> is the 4096 bytes from the page's base address.\<close>

definition page_base :: "PhysPageNum \<Rightarrow> nat" where
  "page_base p = unat (pa (PhysAddr_from_PhysPageNum p))"

definition get_bytes_array :: "memory \<Rightarrow> PhysPageNum \<Rightarrow> u8 list" where
  "get_bytes_array m p = mem_read m (page_base p) 4096"

text \<open>
  \<open>PhysPageNum::get_pte_array\<close> is the same page seen as 512 words;
  \<open>pte_addr p i\<close> is the address of its entry \<open>i\<close>.
\<close>

definition pte_addr :: "PhysPageNum \<Rightarrow> usize \<Rightarrow> nat" where
  "pte_addr p i = page_base p + 8 * unat i"

lemma length_mem_read [simp]: "length (mem_read m a n) = n"
  by (simp add: mem_read_def)

lemma nth_mem_read: "k < n \<Longrightarrow> mem_read m a n ! k = m (a + k)"
  by (simp add: mem_read_def)

lemma mem_read_cong: "(\<And>k. a \<le> k \<Longrightarrow> k < a + n \<Longrightarrow> m k = m' k) \<Longrightarrow> mem_read m a n = mem_read m' a n"
  by (simp add: mem_read_def)

lemma mem_read_write_same: "mem_read (mem_write m a bs) a (length bs) = bs"
  by (rule nth_equalityI) (simp_all add: nth_mem_read mem_write_def)

lemma mem_read_write_disjoint:
  "a + n \<le> b \<or> b + length bs \<le> a \<Longrightarrow> mem_read (mem_write m b bs) a n = mem_read m a n"
  by (rule mem_read_cong) (auto simp: mem_write_def)

lemma mem_read_fill_same: "mem_read (mem_fill m a n b) a n = replicate n b"
  by (rule nth_equalityI) (simp_all add: nth_mem_read mem_fill_def)

lemma mem_read_fill_disjoint:
  "a + n \<le> c \<or> c + k \<le> a \<Longrightarrow> mem_read (mem_fill m c k b) a n = mem_read m a n"
  by (rule mem_read_cong) (auto simp: mem_fill_def)

lemma load64_store64_same: "load64 (store64 m a w) a = w"
  using mem_read_write_same [of m a "to_le_bytes 8 w"]
  by (simp add: load64_def store64_def from_to_le_bytes)

lemma load64_store64_disjoint:
  "a + 8 \<le> b \<or> b + 8 \<le> a \<Longrightarrow> load64 (store64 m b w) a = load64 m a"
  by (simp add: load64_def store64_def mem_read_write_disjoint)

lemma load64_fill_disjoint:
  "a + 8 \<le> c \<or> c + k \<le> a \<Longrightarrow> load64 (mem_fill m c k b) a = load64 m a"
  by (simp add: load64_def mem_read_fill_disjoint)

lemma load64_fill_inside:
  assumes "c \<le> a" "a + 8 \<le> c + k"
  shows "load64 (mem_fill m c k 0) a = 0"
proof -
  have "mem_read (mem_fill m c k 0) a 8 = replicate 8 0"
    using assms by (intro nth_equalityI) (simp_all add: nth_mem_read mem_fill_def)
  then show ?thesis by (simp add: load64_def numeral_eq_Suc)
qed

lemma page_base_eq: "unat (ppn p) < 2 ^ 52 \<Longrightarrow> page_base p = unat (ppn p) * 4096"
  by (simp add: page_base_def unat_pa_of_ppn)

section \<open>The allocator\<close>

record FrameTracker =
  tracker_ppn :: PhysPageNum

record StackFrameAllocator =
  fa_current :: usize
  fa_end :: usize
  recycled :: "usize list"

definition StackFrameAllocator_new :: StackFrameAllocator where
  "StackFrameAllocator_new = \<lparr>fa_current = 0, fa_end = 0, recycled = []\<rparr>"

definition StackFrameAllocator_init ::
  "PhysPageNum \<Rightarrow> PhysPageNum \<Rightarrow> StackFrameAllocator \<Rightarrow> StackFrameAllocator" where
  "StackFrameAllocator_init lo hi a = a\<lparr>fa_current := ppn lo, fa_end := ppn hi\<rparr>"

definition StackFrameAllocator_alloc ::
  "StackFrameAllocator \<Rightarrow> PhysPageNum option \<times> StackFrameAllocator" where
  "StackFrameAllocator_alloc a =
     (if recycled a \<noteq> [] then
        (Some (PhysPageNum_from_usize (last (recycled a))), a\<lparr>recycled := butlast (recycled a)\<rparr>)
      else if fa_current a = fa_end a then (None, a)
      else (let a' = a\<lparr>fa_current := fa_current a + 1\<rparr>
            in (Some (PhysPageNum_from_usize (fa_current a' - 1)), a')))"

definition StackFrameAllocator_dealloc ::
  "PhysPageNum \<Rightarrow> StackFrameAllocator \<Rightarrow> StackFrameAllocator res" where
  "StackFrameAllocator_dealloc p a =
     (if ppn p \<ge> fa_current a \<or> list_ex (\<lambda>v. v = ppn p) (recycled a)
      then Inl (FrameNotAllocated (ppn p))
      else Inr (a\<lparr>recycled := recycled a @ [ppn p]\<rparr>))"

text \<open>The part of the kernel state that the memory code reads and writes.\<close>

record mm_state =
  pmem :: memory
  FRAME_ALLOCATOR :: StackFrameAllocator

definition init_frame_allocator :: "usize \<Rightarrow> ('z mm_state_scheme, unit) kernel" where
  "init_frame_allocator ekernel =
     kmodify (\<lambda>s. s\<lparr>FRAME_ALLOCATOR :=
       StackFrameAllocator_init (PhysAddr_ceil (PhysAddr_from_usize ekernel))
         (PhysAddr_floor (PhysAddr_from_usize MEMORY_END)) (FRAME_ALLOCATOR s)\<rparr>)"

text \<open>\<open>FrameTracker::new\<close> clears the page.\<close>

definition FrameTracker_new :: "PhysPageNum \<Rightarrow> ('z mm_state_scheme, FrameTracker) kernel" where
  "FrameTracker_new p =
     kthen (kmodify (\<lambda>s. s\<lparr>pmem := mem_fill (pmem s) (page_base p) 4096 0\<rparr>))
           (kret \<lparr>tracker_ppn = p\<rparr>)"

definition frame_alloc :: "('z mm_state_scheme, FrameTracker option) kernel" where
  "frame_alloc =
     kbind (\<lambda>s. let (r, a) = StackFrameAllocator_alloc (FRAME_ALLOCATOR s)
                in Inr (r, s\<lparr>FRAME_ALLOCATOR := a\<rparr>))
       (\<lambda>r. case r of None \<Rightarrow> kret None
          | Some p \<Rightarrow> kbind (FrameTracker_new p) (\<lambda>f. kret (Some f)))"

definition frame_dealloc :: "PhysPageNum \<Rightarrow> ('z mm_state_scheme, unit) kernel" where
  "frame_dealloc p =
     (\<lambda>s. case StackFrameAllocator_dealloc p (FRAME_ALLOCATOR s) of
        Inl e \<Rightarrow> Inl e
      | Inr a \<Rightarrow> Inr ((), s\<lparr>FRAME_ALLOCATOR := a\<rparr>))"

text \<open>Dropping a tracker returns its frame; dropping a vector drops its elements in order.\<close>

definition FrameTracker_drop :: "FrameTracker \<Rightarrow> ('z mm_state_scheme, unit) kernel" where
  "FrameTracker_drop f = frame_dealloc (tracker_ppn f)"

definition drop_trackers :: "FrameTracker list \<Rightarrow> ('z mm_state_scheme, unit) kernel" where
  "drop_trackers fs = kfold (\<lambda>f _. FrameTracker_drop f) fs ()"

section \<open>The allocator's invariant\<close>

definition fa_inv :: "usize \<Rightarrow> StackFrameAllocator \<Rightarrow> bool" where
  "fa_inv lo a \<longleftrightarrow> lo \<le> fa_current a \<and> fa_current a \<le> fa_end a \<and> unat (fa_end a) \<le> 2 ^ 44 \<and>
     distinct (recycled a) \<and> (\<forall>p\<in>set (recycled a). lo \<le> p \<and> p < fa_current a)"

definition fa_live :: "usize \<Rightarrow> StackFrameAllocator \<Rightarrow> PhysPageNum set" where
  "fa_live lo a = {p. lo \<le> ppn p \<and> ppn p < fa_current a \<and> ppn p \<notin> set (recycled a)}"

definition fa_free :: "StackFrameAllocator \<Rightarrow> nat" where
  "fa_free a = length (recycled a) + (unat (fa_end a) - unat (fa_current a))"

lemma fa_inv_bound: "fa_inv lo a \<Longrightarrow> w < fa_current a \<Longrightarrow> unat w < 2 ^ 44"
  unfolding fa_inv_def word_le_nat_alt word_less_nat_alt by linarith

lemma PhysPageNum_from_small: "unat w < 2 ^ 44 \<Longrightarrow> PhysPageNum_from_usize w = PhysPageNum w"
  by (rule ppn_eqI) (simp add: unat_PhysPageNum_from_usize)

lemma fa_live_bound: "fa_inv lo a \<Longrightarrow> p \<in> fa_live lo a \<Longrightarrow> unat (ppn p) < 2 ^ 44"
  unfolding fa_live_def using fa_inv_bound by blast

lemma alloc_recycled:
  assumes "fa_inv lo a" "recycled a = rs @ [w]"
  shows "StackFrameAllocator_alloc a = (Some (PhysPageNum w), a\<lparr>recycled := rs\<rparr>)"
  using assms fa_inv_bound [OF assms(1), of w]
  by (simp add: StackFrameAllocator_alloc_def fa_inv_def PhysPageNum_from_small)

lemma alloc_bump:
  assumes "fa_inv lo a" "recycled a = []" "fa_current a \<noteq> fa_end a"
  shows "StackFrameAllocator_alloc a =
    (Some (PhysPageNum (fa_current a)), a\<lparr>fa_current := fa_current a + 1\<rparr>)"
proof -
  have "fa_current a < fa_end a" using assms by (auto simp: fa_inv_def)
  then have "unat (fa_current a) < 2 ^ 44"
    using assms(1) by (auto simp: fa_inv_def word_less_nat_alt)
  then show ?thesis
    using assms by (simp add: StackFrameAllocator_alloc_def PhysPageNum_from_small)
qed

lemma bump_less:
  assumes "fa_inv lo a" "fa_current a \<noteq> fa_end a"
  shows "w < fa_current a + 1 \<longleftrightarrow> w < fa_current a \<or> w = fa_current a" "fa_current a + 1 \<le> fa_end a"
proof -
  have lt: "unat (fa_current a) < unat (fa_end a)" and "unat (fa_end a) \<le> 2 ^ 44"
    using assms unfolding fa_inv_def by (auto simp: word_le_nat_alt dest: le_neq_implies_less unat_eqI)
  then have "unat (fa_current a + 1) = unat (fa_current a) + 1"
    by (subst unat_add_small) auto
  with lt show "w < fa_current a + 1 \<longleftrightarrow> w < fa_current a \<or> w = fa_current a"
    "fa_current a + 1 \<le> fa_end a"
    by (auto simp: word_less_nat_alt word_le_nat_alt less_Suc_eq dest: unat_eqI)
qed

lemma alloc_Some:
  assumes inv: "fa_inv lo a" and al: "StackFrameAllocator_alloc a = (Some p, a')"
  shows "fa_inv lo a'" "p \<notin> fa_live lo a" "fa_live lo a' = insert p (fa_live lo a)"
    "unat (ppn p) < 2 ^ 44" "fa_end a' = fa_end a"
proof -
  have "fa_inv lo a' \<and> p \<notin> fa_live lo a \<and> fa_live lo a' = insert p (fa_live lo a) \<and>
    fa_end a' = fa_end a"
  proof (cases "recycled a" rule: rev_cases)
    case Nil
    with al have ne: "fa_current a \<noteq> fa_end a"
      by (auto simp: StackFrameAllocator_alloc_def split: if_splits)
    from alloc_bump [OF inv Nil this] al have
      p: "p = PhysPageNum (fa_current a)" and a': "a' = a\<lparr>fa_current := fa_current a + 1\<rparr>"
      by auto
    have "q \<in> fa_live lo a' \<longleftrightarrow> q = p \<or> q \<in> fa_live lo a" for q
      using Nil inv unfolding p a' fa_live_def fa_inv_def
      by (cases q) (auto simp: bump_less [OF inv ne])
    moreover have "fa_inv lo a'"
      using inv Nil bump_less(2) [OF inv ne] bump_less(1) [OF inv ne, of "fa_current a"]
      unfolding a' fa_inv_def by (auto intro: order_trans)
    ultimately show ?thesis by (auto simp: p a' fa_live_def)
  next
    case (snoc rs w)
    from alloc_recycled [OF inv this] al have
      p: "p = PhysPageNum w" and a': "a' = a\<lparr>recycled := rs\<rparr>" by auto
    have "q \<in> fa_live lo a' \<longleftrightarrow> q = p \<or> q \<in> fa_live lo a" for q
      using snoc inv unfolding p a' fa_live_def fa_inv_def by (cases q) auto
    moreover have "fa_inv lo a'"
      using inv snoc unfolding a' fa_inv_def by simp
    ultimately show ?thesis
      using snoc unfolding p a' by (auto simp: fa_live_def)
  qed
  then show "fa_inv lo a'" "p \<notin> fa_live lo a" "fa_live lo a' = insert p (fa_live lo a)"
    "fa_end a' = fa_end a" by auto
  then show "unat (ppn p) < 2 ^ 44" by (metis fa_live_bound insertI1)
qed

lemma alloc_None:
  assumes "fa_inv lo a"
  shows "fst (StackFrameAllocator_alloc a) = None \<longleftrightarrow>
      fa_live lo a = {p. lo \<le> ppn p \<and> ppn p < fa_end a}" (is "?N \<longleftrightarrow> ?L = ?A")
proof
  assume ?N
  then have "recycled a = []" "fa_current a = fa_end a"
    by (auto simp: StackFrameAllocator_alloc_def Let_def split: if_splits)
  then show "?L = ?A" by (auto simp: fa_live_def)
next
  assume eq: "?L = ?A"
  show ?N
  proof (rule ccontr)
    assume "\<not> ?N"
    then obtain p a' where al: "StackFrameAllocator_alloc a = (Some p, a')"
      by (cases "StackFrameAllocator_alloc a") auto
    from alloc_Some [OF assms al] have "p \<notin> ?L" "p \<in> fa_live lo a'" "fa_inv lo a'"
      "fa_end a' = fa_end a" by auto
    with eq show False by (auto simp: fa_live_def fa_inv_def)
  qed
qed

lemma alloc_None_state: "StackFrameAllocator_alloc a = (None, a') \<Longrightarrow> a' = a"
  by (auto simp: StackFrameAllocator_alloc_def Let_def split: if_splits)

lemma dealloc_live:
  assumes "fa_inv lo a" "p \<in> fa_live lo a"
  shows "\<exists>a'. StackFrameAllocator_dealloc p a = Inr a' \<and> fa_inv lo a' \<and>
    fa_live lo a' = fa_live lo a - {p} \<and> fa_end a' = fa_end a"
proof -
  let ?a = "a\<lparr>recycled := recycled a @ [ppn p]\<rparr>"
  have "q \<in> fa_live lo ?a \<longleftrightarrow> q \<in> fa_live lo a \<and> q \<noteq> p" for q
    by (cases q; cases p) (auto simp: fa_live_def)
  moreover have "fa_inv lo ?a"
    using assms by (auto simp: fa_inv_def fa_live_def)
  moreover have "StackFrameAllocator_dealloc p a = Inr ?a"
    using assms(2) by (auto simp: StackFrameAllocator_dealloc_def fa_live_def list_ex_iff)
  ultimately show ?thesis by auto
qed

section \<open>The contract of FrameAllocator\<close>

text \<open>
  What the trait \<open>FrameAllocator\<close> promises its clients: a frame handed out was not
  live and becomes live, a live frame can be given back, and nothing else changes.
\<close>

locale frame_allocator =
  fixes alloc :: "'a \<Rightarrow> PhysPageNum option \<times> 'a"
    and dealloc :: "PhysPageNum \<Rightarrow> 'a \<Rightarrow> 'a res"
    and invar :: "'a \<Rightarrow> bool"
    and live :: "'a \<Rightarrow> PhysPageNum set"
  assumes alloc_fresh: "invar a \<Longrightarrow> alloc a = (Some p, a') \<Longrightarrow>
      invar a' \<and> p \<notin> live a \<and> live a' = insert p (live a)"
    and alloc_stuck: "invar a \<Longrightarrow> alloc a = (None, a') \<Longrightarrow> a' = a"
    and dealloc_ok: "invar a \<Longrightarrow> p \<in> live a \<Longrightarrow>
      \<exists>a'. dealloc p a = Inr a' \<and> invar a' \<and> live a' = live a - {p}"
begin

text \<open>Any number of allocations in a row hands out distinct frames, all of them new.\<close>

primrec alloc_n :: "nat \<Rightarrow> 'a \<Rightarrow> PhysPageNum list \<times> 'a" where
  "alloc_n 0 a = ([], a)"
| "alloc_n (Suc n) a =
     (case alloc a of (None, a') \<Rightarrow> ([], a')
      | (Some p, a') \<Rightarrow> (let (ps, a'') = alloc_n n a' in (p # ps, a'')))"

lemma alloc_n_distinct:
  assumes "invar a" "alloc_n n a = (ps, a')"
  shows "distinct ps \<and> set ps \<inter> live a = {} \<and> live a' = set ps \<union> live a \<and> invar a'"
  using assms
proof (induction n arbitrary: a ps a')
  case 0
  then show ?case by simp
next
  case (Suc n)
  show ?case
  proof (cases "alloc a")
    case (Pair r b)
    show ?thesis
    proof (cases r)
      case None
      with Suc.prems Pair alloc_stuck show ?thesis by auto
    next
      case (Some p)
      with Suc.prems Pair obtain qs where
        qs: "alloc_n n b = (qs, a')" "ps = p # qs" by (auto split: prod.splits)
      from alloc_fresh [OF Suc.prems(1)] Pair Some
      have b: "invar b" "p \<notin> live a" "live b = insert p (live a)" by auto
      from Suc.IH [OF b(1) qs(1)] b qs(2) show ?thesis by auto
    qed
  qed
qed

text \<open>Giving back everything that was taken restores the live set, in any order.\<close>

lemma dealloc_all:
  assumes "invar a" "distinct ps" "set ps \<subseteq> live a"
  shows "\<exists>a'. foldl (\<lambda>r p. case r of Inl e \<Rightarrow> Inl e | Inr b \<Rightarrow> dealloc p b) (Inr a) ps = Inr a' \<and>
    invar a' \<and> live a' = live a - set ps"
  using assms
proof (induction ps arbitrary: a)
  case Nil
  then show ?case by simp
next
  case (Cons p ps)
  then obtain b where b: "dealloc p a = Inr b" "invar b" "live b = live a - {p}"
    using dealloc_ok [of a p] by auto
  with Cons.prems have "set ps \<subseteq> live b" by auto
  with Cons.IH [OF b(2)] Cons.prems b show ?case by auto
qed

end

interpretation sfa: frame_allocator StackFrameAllocator_alloc StackFrameAllocator_dealloc
  "fa_inv lo" "fa_live lo" for lo
proof
  fix a a' :: StackFrameAllocator and p :: PhysPageNum
  show "fa_inv lo a' \<and> p \<notin> fa_live lo a \<and> fa_live lo a' = insert p (fa_live lo a)"
    if "fa_inv lo a" "StackFrameAllocator_alloc a = (Some p, a')"
    using alloc_Some [OF that] by simp
  show "a' = a" if "StackFrameAllocator_alloc a = (None, a')"
    using that by (rule alloc_None_state)
  show "\<exists>a'. StackFrameAllocator_dealloc p a = Inr a' \<and> fa_inv lo a' \<and>
      fa_live lo a' = fa_live lo a - {p}"
    if "fa_inv lo a" "p \<in> fa_live lo a"
    using dealloc_live [OF that] by blast
qed

section \<open>Kernel-level operations\<close>

lemma page_base_less:
  "unat (ppn p) < 2 ^ 44 \<Longrightarrow> unat (ppn q) < 2 ^ 44 \<Longrightarrow> p \<noteq> q \<Longrightarrow>
   page_base p + 4096 \<le> page_base q \<or> page_base q + 4096 \<le> page_base p"
proof -
  assume "unat (ppn p) < 2 ^ 44" "unat (ppn q) < 2 ^ 44" "p \<noteq> q"
  then have b: "page_base p = unat (ppn p) * 4096" "page_base q = unat (ppn q) * 4096"
    and "unat (ppn p) \<noteq> unat (ppn q)"
    using ppn_eqI by (simp_all add: page_base_eq) blast
  then consider "unat (ppn p) < unat (ppn q)" | "unat (ppn q) < unat (ppn p)" by linarith
  then show ?thesis by cases (simp_all add: b)
qed

lemma get_bytes_array_fill_other:
  "unat (ppn p) < 2 ^ 44 \<Longrightarrow> unat (ppn q) < 2 ^ 44 \<Longrightarrow> p \<noteq> q \<Longrightarrow>
   get_bytes_array (mem_fill m (page_base q) 4096 b) p = get_bytes_array m p"
  unfolding get_bytes_array_def using page_base_less [of p q] by (intro mem_read_fill_disjoint) blast

lemma frame_alloc_cases:
  "frame_alloc s = (case StackFrameAllocator_alloc (FRAME_ALLOCATOR s) of
     (None, a) \<Rightarrow> Inr (None, s)
   | (Some p, a) \<Rightarrow> Inr (Some \<lparr>tracker_ppn = p\<rparr>,
       s\<lparr>FRAME_ALLOCATOR := a, pmem := mem_fill (pmem s) (page_base p) 4096 0\<rparr>))"
proof (cases "StackFrameAllocator_alloc (FRAME_ALLOCATOR s)")
  case (Pair r a)
  then show ?thesis
    by (cases r) (simp_all add: frame_alloc_def FrameTracker_new_def kdefs alloc_None_state)
qed

lemma alloc_None_exhausted:
  assumes "fa_inv lo a" "StackFrameAllocator_alloc a = (None, a')"
  shows "a' = a" "fa_free a = 0"
  using assms by (auto simp: StackFrameAllocator_alloc_def fa_free_def Let_def split: if_splits)

lemma alloc_Some_free:
  assumes "fa_inv lo a" "StackFrameAllocator_alloc a = (Some p, a')"
  shows "fa_free a = Suc (fa_free a')"
proof (cases "recycled a" rule: rev_cases)
  case Nil
  with assms have ne: "fa_current a \<noteq> fa_end a"
    by (auto simp: StackFrameAllocator_alloc_def split: if_splits)
  from alloc_bump [OF assms(1) Nil this] assms(2) have "a' = a\<lparr>fa_current := fa_current a + 1\<rparr>"
    by auto
  moreover have "unat (fa_current a) < unat (fa_end a)" "unat (fa_end a) \<le> 2 ^ 44"
    using assms(1) ne by (auto simp: fa_inv_def word_le_nat_alt dest: le_neq_implies_less unat_eqI)
  moreover from this have "unat (fa_current a + 1) = unat (fa_current a) + 1"
    by (subst unat_add_small) auto
  ultimately show ?thesis using Nil by (simp add: fa_free_def)
next
  case (snoc rs w)
  from alloc_recycled [OF assms(1) snoc] assms(2) snoc show ?thesis by (auto simp: fa_free_def)
qed

text \<open>The rule for \<open>frame_alloc\<close>: it fails only with no free frame left.\<close>

lemma wpe_frame_alloc:
  assumes "fa_inv lo (FRAME_ALLOCATOR s)"
    and "fa_free (FRAME_ALLOCATOR s) = 0 \<Longrightarrow> Q None s"
    and "\<And>p a. StackFrameAllocator_alloc (FRAME_ALLOCATOR s) = (Some p, a) \<Longrightarrow> fa_inv lo a \<Longrightarrow>
      p \<notin> fa_live lo (FRAME_ALLOCATOR s) \<Longrightarrow> fa_live lo a = insert p (fa_live lo (FRAME_ALLOCATOR s)) \<Longrightarrow>
      unat (ppn p) < 2 ^ 44 \<Longrightarrow> fa_free (FRAME_ALLOCATOR s) = Suc (fa_free a) \<Longrightarrow>
      Q (Some \<lparr>tracker_ppn = p\<rparr>)
        (s\<lparr>FRAME_ALLOCATOR := a, pmem := mem_fill (pmem s) (page_base p) 4096 0\<rparr>)"
  shows "wpe frame_alloc Q E s"
proof -
  obtain r a where ra: "StackFrameAllocator_alloc (FRAME_ALLOCATOR s) = (r, a)" by fastforce
  show ?thesis
  proof (cases r)
    case None
    with ra alloc_None_exhausted [OF assms(1)] assms(2) show ?thesis
      by (simp add: wpe_def frame_alloc_cases)
  next
    case (Some p)
    with ra have al: "StackFrameAllocator_alloc (FRAME_ALLOCATOR s) = (Some p, a)" by simp
    note h = alloc_Some [OF assms(1) this]
    from assms(3) [OF al h(1) h(2) h(3) h(4) alloc_Some_free [OF assms(1) al]] al show ?thesis
      by (simp add: wpe_def frame_alloc_cases)
  qed
qed

lemma frame_dealloc_live:
  assumes "fa_inv lo (FRAME_ALLOCATOR s)" "p \<in> fa_live lo (FRAME_ALLOCATOR s)"
  shows "\<exists>a. frame_dealloc p s = Inr ((), s\<lparr>FRAME_ALLOCATOR := a\<rparr>) \<and> fa_inv lo a \<and>
    fa_live lo a = fa_live lo (FRAME_ALLOCATOR s) - {p}"
  using dealloc_live [OF assms] by (auto simp: frame_dealloc_def)

text \<open>C25: under the allocator's invariant, \<open>frame_alloc\<close> fails exactly when every
  managed frame is live, and otherwise hands out a frame that was not live, whose
  4096 bytes are zero, leaving the bytes of every other page alone and the invariant
  intact.\<close>

theorem frame_alloc_correct:
  assumes "fa_inv lo (FRAME_ALLOCATOR s)"
  shows "wp frame_alloc (\<lambda>r t.
    (case r of
       None \<Rightarrow> t = s \<and> fa_live lo (FRAME_ALLOCATOR s) = {p. lo \<le> ppn p \<and> ppn p < fa_end (FRAME_ALLOCATOR s)}
     | Some f \<Rightarrow> tracker_ppn f \<notin> fa_live lo (FRAME_ALLOCATOR s) \<and>
         fa_live lo (FRAME_ALLOCATOR t) = insert (tracker_ppn f) (fa_live lo (FRAME_ALLOCATOR s)) \<and>
         get_bytes_array (pmem t) (tracker_ppn f) = replicate 4096 0 \<and>
         (\<forall>q. q \<noteq> tracker_ppn f \<and> unat (ppn q) < 2 ^ 44 \<longrightarrow>
            get_bytes_array (pmem t) q = get_bytes_array (pmem s) q) \<and>
         fa_inv lo (FRAME_ALLOCATOR t))) s"
proof -
  obtain r a where ra: "StackFrameAllocator_alloc (FRAME_ALLOCATOR s) = (r, a)" by fastforce
  show ?thesis
  proof (cases r)
    case None
    with ra alloc_None [OF assms] show ?thesis by (simp add: wpe_def frame_alloc_cases)
  next
    case (Some p)
    with ra have al: "StackFrameAllocator_alloc (FRAME_ALLOCATOR s) = (Some p, a)" by simp
    note h = alloc_Some [OF assms this]
    have "get_bytes_array (mem_fill (pmem s) (page_base p) 4096 0) p = replicate 4096 0"
      by (simp only: get_bytes_array_def mem_read_fill_same)
    moreover have "get_bytes_array (mem_fill (pmem s) (page_base p) 4096 0) q = get_bytes_array (pmem s) q"
      if "q \<noteq> p" "unat (ppn q) < 2 ^ 44" for q
      using that h(4) by (intro get_bytes_array_fill_other) auto
    ultimately show ?thesis using al h by (simp add: wpe_def frame_alloc_cases)
  qed
qed

theorem frame_alloc_correct_witness:
  "fa_inv 2 \<lparr>fa_current = 5, fa_end = 9, recycled = [3]\<rparr> \<and>
   wp frame_alloc (\<lambda>r t. r = Some \<lparr>tracker_ppn = PhysPageNum 3\<rparr> \<and>
       fa_inv 2 (FRAME_ALLOCATOR t))
     \<lparr>pmem = (\<lambda>_. 7), FRAME_ALLOCATOR = \<lparr>fa_current = 5, fa_end = 9, recycled = [3]\<rparr>\<rparr>"
proof -
  let ?a = "\<lparr>fa_current = 5, fa_end = 9, recycled = [3]\<rparr>"
  let ?s = "\<lparr>pmem = (\<lambda>_. 7), FRAME_ALLOCATOR = ?a\<rparr>"
  have i: "fa_inv 2 ?a" by (simp add: fa_inv_def)
  then have "fa_inv 2 (FRAME_ALLOCATOR ?s)" by simp
  from frame_alloc_correct [OF this]
  have "wp frame_alloc (\<lambda>r t. r = Some \<lparr>tracker_ppn = PhysPageNum 3\<rparr> \<and>
       fa_inv 2 (FRAME_ALLOCATOR t)) ?s"
    by (simp add: wpe_def frame_alloc_cases StackFrameAllocator_alloc_def
        PhysPageNum_from_usize_def width_defs)
  with i show ?thesis by blast
qed

text \<open>giving back a live frame never panics; the next allocation returns that
  same frame and the allocator is then exactly as before. Giving back a frame at or
  above the bump pointer, or one already recycled, panics.\<close>

theorem dealloc_alloc_roundtrip:
  assumes "fa_inv lo a"
  shows "(p \<in> fa_live lo a \<longrightarrow> (\<exists>a'. StackFrameAllocator_dealloc p a = Inr a' \<and>
      StackFrameAllocator_alloc a' = (Some p, a))) \<and>
    (fa_current a \<le> ppn p \<or> ppn p \<in> set (recycled a) \<longrightarrow>
      StackFrameAllocator_dealloc p a = Inl (FrameNotAllocated (ppn p)))"
proof (intro conjI impI)
  assume p: "p \<in> fa_live lo a"
  let ?a = "a\<lparr>recycled := recycled a @ [ppn p]\<rparr>"
  have d: "StackFrameAllocator_dealloc p a = Inr ?a"
    using p by (auto simp: StackFrameAllocator_dealloc_def fa_live_def list_ex_iff)
  with dealloc_live [OF assms p] have "fa_inv lo ?a" by auto
  from alloc_recycled [OF this, of "recycled a" "ppn p"]
  have "StackFrameAllocator_alloc ?a = (Some p, a)" by simp
  with d show "\<exists>a'. StackFrameAllocator_dealloc p a = Inr a' \<and>
      StackFrameAllocator_alloc a' = (Some p, a)" by blast
next
  assume "fa_current a \<le> ppn p \<or> ppn p \<in> set (recycled a)"
  then show "StackFrameAllocator_dealloc p a = Inl (FrameNotAllocated (ppn p))"
    by (simp add: StackFrameAllocator_dealloc_def list_ex_iff)
qed

theorem dealloc_alloc_roundtrip_witness:
  "\<exists>a'. StackFrameAllocator_dealloc (PhysPageNum 4) \<lparr>fa_current = 5, fa_end = 9, recycled = [3]\<rparr> = Inr a' \<and>
     StackFrameAllocator_alloc a' = (Some (PhysPageNum 4), \<lparr>fa_current = 5, fa_end = 9, recycled = [3]\<rparr>)"
proof -
  have "fa_inv 2 \<lparr>fa_current = 5, fa_end = 9, recycled = [3]\<rparr>" by (simp add: fa_inv_def)
  from dealloc_alloc_roundtrip [OF this, of "PhysPageNum 4"] show ?thesis
    by (simp add: fa_live_def)
qed

section \<open>Histories of the allocator\<close>

text \<open>
  One step of a history: some component takes a frame, or the owner of a live frame
  drops its tracker.
\<close>

inductive fa_step :: "usize \<Rightarrow> StackFrameAllocator \<Rightarrow> StackFrameAllocator \<Rightarrow> bool" for lo where
  take_frame: "StackFrameAllocator_alloc a = (r, a') \<Longrightarrow> fa_step lo a a'"
| drop_frame: "p \<in> fa_live lo a \<Longrightarrow> StackFrameAllocator_dealloc p a = Inr a' \<Longrightarrow> fa_step lo a a'"

inductive fa_reachable :: "usize \<Rightarrow> StackFrameAllocator \<Rightarrow> bool" for ekernel where
  boot: "fa_reachable ekernel
     (StackFrameAllocator_init (PhysAddr_ceil (PhysAddr_from_usize ekernel))
       (PhysAddr_floor (PhysAddr_from_usize MEMORY_END)) StackFrameAllocator_new)"
| step: "fa_reachable ekernel a \<Longrightarrow>
     fa_step (ppn (PhysAddr_ceil (PhysAddr_from_usize ekernel))) a a' \<Longrightarrow> fa_reachable ekernel a'"

lemma fa_step_inv: "fa_step lo a a' \<Longrightarrow> fa_inv lo a \<Longrightarrow> fa_inv lo a' \<and> fa_end a' = fa_end a"
proof (induction rule: fa_step.induct)
  case (take_frame a r a')
  then show ?case
    by (cases r) (auto dest: alloc_None_state alloc_Some)
next
  case (drop_frame p a a')
  then show ?case using dealloc_live by fastforce
qed

text \<open>C29: from the boot-time initialisation on, whatever sequence of allocations and
  drops follows, the invariant holds and every live frame lies between the end of the
  kernel image and the end of physical memory.\<close>

theorem reachable_frames_in_memory:
  assumes "ekernel \<le> MEMORY_END" "fa_reachable ekernel a"
  shows "fa_inv (ppn (PhysAddr_ceil (PhysAddr_from_usize ekernel))) a \<and>
    (\<forall>p\<in>fa_live (ppn (PhysAddr_ceil (PhysAddr_from_usize ekernel))) a.
       unat ekernel \<le> page_base p \<and> page_base p + 4096 \<le> unat MEMORY_END)"
proof -
  let ?lo = "ppn (PhysAddr_ceil (PhysAddr_from_usize ekernel))"
  have k: "unat ekernel \<le> 0x88000000"
    using assms(1) by (simp add: MEMORY_END_def word_le_nat_alt)
  then have e: "unat (pa (PhysAddr_from_usize ekernel)) = unat ekernel"
    by (simp add: unat_PhysAddr_from_usize)
  with k have lo: "unat ?lo = (unat ekernel + 4095) div 4096"
    unfolding PhysAddr_ceil_def by (simp only: PhysPageNum.sel) (subst unat_round_up, simp_all)
  have hi: "unat (ppn (PhysAddr_floor (PhysAddr_from_usize MEMORY_END))) = 0x88000"
    by (simp add: unat_pa_floor unat_PhysAddr_from_usize MEMORY_END_def)
  have "fa_inv ?lo a \<and> unat (fa_end a) = 0x88000"
    using assms(2)
  proof (induction rule: fa_reachable.induct)
    case boot
    have "(unat ekernel + 4095) div 4096 \<le> 0x88000" using k by simp
    then show ?case
      using lo hi by (simp add: fa_inv_def StackFrameAllocator_init_def StackFrameAllocator_new_def
          word_le_nat_alt)
  next
    case (step a a')
    then show ?case using fa_step_inv by simp
  qed
  moreover have "unat ekernel \<le> page_base p \<and> page_base p + 4096 \<le> unat MEMORY_END"
    if "fa_inv ?lo a" "unat (fa_end a) = 0x88000" "p \<in> fa_live ?lo a" for p
  proof -
    from that have "unat ?lo \<le> unat (ppn p)" "unat (ppn p) < 0x88000"
      by (auto simp: fa_live_def fa_inv_def word_le_nat_alt word_less_nat_alt)
    then show ?thesis using lo by (simp add: page_base_eq MEMORY_END_def)
  qed
  ultimately show ?thesis by blast
qed

theorem reachable_frames_in_memory_witness:
  "\<exists>a. fa_reachable 0x80500000 a \<and>
     fa_inv (ppn (PhysAddr_ceil (PhysAddr_from_usize 0x80500000))) a"
proof -
  have "(0x80500000 :: usize) \<le> MEMORY_END" by (simp add: MEMORY_END_def)
  from reachable_frames_in_memory [OF this fa_reachable.boot] fa_reachable.boot
  show ?thesis by blast
qed

end
