(* ===== verification/Page_Table.thy ===== *)
theory Page_Table
  imports Frame_Allocator
begin

text \<open>
  \<^verbatim>\<open>mm/page_table.rs\<close>: page-table entries as bit fields, the three-level SV39 tree
  stored in physical memory, and the copies between kernel and user memory that walk
  it. A reference to an entry is its physical address. The tree's abstraction is a
  partial map from page numbers to valid entries (\<open>pt_view\<close>); \<open>pt_ok\<close> is the
  invariant that makes every operation an operation on that map.
\<close>

section \<open>Page-table entries\<close>

type_synonym PTEFlags = u8

definition PTE_V :: PTEFlags where "PTE_V = push_bit 0 1"
definition PTE_R :: PTEFlags where "PTE_R = push_bit 1 1"
definition PTE_W :: PTEFlags where "PTE_W = push_bit 2 1"
definition PTE_X :: PTEFlags where "PTE_X = push_bit 3 1"
definition PTE_U :: PTEFlags where "PTE_U = push_bit 4 1"
definition PTE_G :: PTEFlags where "PTE_G = push_bit 5 1"
definition PTE_A :: PTEFlags where "PTE_A = push_bit 6 1"
definition PTE_D :: PTEFlags where "PTE_D = push_bit 7 1"

lemmas pte_flag_defs = PTE_V_def PTE_R_def PTE_W_def PTE_X_def PTE_U_def PTE_G_def
  PTE_A_def PTE_D_def

definition PTEFlags_all :: PTEFlags where
  "PTEFlags_all = PTE_V OR PTE_R OR PTE_W OR PTE_X OR PTE_U OR PTE_G OR PTE_A OR PTE_D"

definition PTEFlags_from_bits :: "u8 \<Rightarrow> PTEFlags option" where
  "PTEFlags_from_bits b = (if b AND NOT PTEFlags_all = 0 then Some b else None)"

record PageTableEntry =
  pte_bits :: usize

definition pte_new :: "PhysPageNum \<Rightarrow> PTEFlags \<Rightarrow> PageTableEntry" where
  "pte_new p flags = \<lparr>pte_bits = push_bit 10 (ppn p) OR ucast flags\<rparr>"

definition pte_empty :: PageTableEntry where
  "pte_empty = \<lparr>pte_bits = 0\<rparr>"

definition pte_ppn :: "PageTableEntry \<Rightarrow> PhysPageNum" where
  "pte_ppn e = PhysPageNum_from_usize (drop_bit 10 (pte_bits e) AND (push_bit 44 1 - 1))"

text \<open>The \<open>unwrap\<close> of \<open>from_bits\<close> cannot fail: all eight bits are named flags.\<close>

lemma PTEFlags_from_bits_total: "PTEFlags_from_bits b = Some b"
proof -
  have "NOT PTEFlags_all = 0" by (simp add: PTEFlags_all_def pte_flag_defs)
  then show ?thesis by (simp add: PTEFlags_from_bits_def)
qed

definition pte_flags :: "PageTableEntry \<Rightarrow> PTEFlags" where
  "pte_flags e = ucast (pte_bits e)"

definition is_valid :: "PageTableEntry \<Rightarrow> bool" where
  "is_valid e \<longleftrightarrow> pte_flags e AND PTE_V \<noteq> 0"

definition pte_readable :: "PageTableEntry \<Rightarrow> bool" where
  "pte_readable e \<longleftrightarrow> pte_flags e AND PTE_R \<noteq> 0"

definition pte_writable :: "PageTableEntry \<Rightarrow> bool" where
  "pte_writable e \<longleftrightarrow> pte_flags e AND PTE_W \<noteq> 0"

definition pte_executable :: "PageTableEntry \<Rightarrow> bool" where
  "pte_executable e \<longleftrightarrow> pte_flags e AND PTE_X \<noteq> 0"

lemma bit_pte_new:
  "bit (pte_bits (pte_new p fl)) k \<longleftrightarrow>
     (10 \<le> k \<and> k < 64 \<and> bit (ppn p) (k - 10)) \<or> (k < 8 \<and> bit fl k)"
  by (auto simp: pte_new_def bit_or_iff bit_push_bit_iff bit_ucast_iff
      dest: bit_imp_le_length)

lemma is_valid_bit: "is_valid e \<longleftrightarrow> bit (pte_bits e) 0"
proof -
  have "pte_flags e AND PTE_V = (if bit (pte_bits e) 0 then 1 else 0)"
  proof (rule bit_word_eqI)
    fix n assume "n < LENGTH(8)"
    then show "bit (pte_flags e AND PTE_V) n = bit (if bit (pte_bits e) 0 then 1 else 0 :: u8) n"
      by (cases n) (auto simp: pte_flags_def PTE_V_def bit_and_iff bit_ucast_iff bit_1_iff)
  qed
  then show ?thesis by (simp add: is_valid_def)
qed

lemma pte_flags_new: "pte_flags (pte_new p fl) = fl"
  by (rule bit_word_eqI) (simp add: pte_flags_def bit_ucast_iff bit_pte_new)

lemma pte_ppn_new:
  assumes "unat (ppn p) < 2 ^ 44"
  shows "pte_ppn (pte_new p fl) = p"
proof -
  have "drop_bit 10 (pte_bits (pte_new p fl)) = ppn p"
  proof (rule bit_word_eqI)
    fix n assume "n < LENGTH(64)"
    moreover have "\<not> bit (ppn p) n" if "44 \<le> n"
      using assms that by (rule high_bit_small)
    ultimately show "bit (drop_bit 10 (pte_bits (pte_new p fl))) n = bit (ppn p) n"
      by (cases "44 \<le> n") (auto simp: bit_drop_bit_eq bit_pte_new)
  qed
  moreover have "ppn p AND (push_bit 44 1 - 1) = ppn p"
    using assms by (rule and_mask_small) simp
  ultimately show ?thesis
    using PhysPageNum_from_small [OF assms] unfolding pte_ppn_def by simp
qed

lemma pte_ppn_bound: "unat (ppn (pte_ppn e)) < 2 ^ 44"
  by (simp add: pte_ppn_def unat_PhysPageNum_from_usize)

text \<open>an entry built from a frame and flags gives back exactly that frame and
  those flags, for every 44-bit frame number; the empty entry is invalid.\<close>

theorem pte_roundtrip:
  assumes "unat (ppn p) < 2 ^ 44"
  shows "pte_ppn (pte_new p fl) = p \<and> pte_flags (pte_new p fl) = fl \<and>
    (is_valid (pte_new p fl) \<longleftrightarrow> fl AND PTE_V \<noteq> 0) \<and> \<not> is_valid pte_empty"
  using pte_ppn_new [OF assms] pte_flags_new [of p fl]
  by (simp add: is_valid_def) (simp add: pte_empty_def pte_flags_def)

theorem pte_roundtrip_witness:
  "pte_bits (pte_new (PhysPageNum 0x80800) (PTE_V OR PTE_R)) = 0x20200003 \<and>
   pte_ppn (pte_new (PhysPageNum 0x80800) (PTE_V OR PTE_R)) = PhysPageNum 0x80800"
  using pte_roundtrip [of "PhysPageNum 0x80800" "PTE_V OR PTE_R"]
  by (simp add: pte_new_def pte_flag_defs)

section \<open>The table\<close>

record PageTable =
  root_ppn :: PhysPageNum
  pt_frames :: "FrameTracker list"

definition read_pte :: "memory \<Rightarrow> nat \<Rightarrow> PageTableEntry" where
  "read_pte m a = \<lparr>pte_bits = load64 m a\<rparr>"

definition write_pte :: "nat \<Rightarrow> PageTableEntry \<Rightarrow> ('z mm_state_scheme, unit) kernel" where
  "write_pte a e = kmodify (\<lambda>s. s\<lparr>pmem := store64 (pmem s) a (pte_bits e)\<rparr>)"

definition PageTable_new :: "('z mm_state_scheme, PageTable) kernel" where
  "PageTable_new =
     kbind frame_alloc (\<lambda>r. kbind (kunwrap r) (\<lambda>frame.
       kret \<lparr>root_ppn = tracker_ppn frame, pt_frames = [frame]\<rparr>))"

definition from_token :: "usize \<Rightarrow> PageTable" where
  "from_token satp =
     \<lparr>root_ppn = PhysPageNum_from_usize (satp AND (push_bit 44 1 - 1)), pt_frames = []\<rparr>"

text \<open>The loop of \<open>find_pte_create\<close> at level \<open>i\<close> with the indices still to follow.\<close>

fun find_pte_create_loop ::
  "nat \<Rightarrow> usize list \<Rightarrow> PhysPageNum \<Rightarrow> PageTable \<Rightarrow> ('z mm_state_scheme, nat option \<times> PageTable) kernel"
where
  "find_pte_create_loop i [] p pt = kret (None, pt)"
| "find_pte_create_loop i (idx # idxs) p pt =
     (let a = pte_addr p idx in
      if i = 2 then kret (Some a, pt)
      else kbind (kget (\<lambda>s. read_pte (pmem s) a)) (\<lambda>pte.
        if \<not> is_valid pte then
          kbind frame_alloc (\<lambda>r. kbind (kunwrap r) (\<lambda>frame.
            kthen (write_pte a (pte_new (tracker_ppn frame) PTE_V))
              (kbind (kget (\<lambda>s. read_pte (pmem s) a)) (\<lambda>pte.
                find_pte_create_loop (i + 1) idxs (pte_ppn pte)
                  (pt\<lparr>pt_frames := pt_frames pt @ [frame]\<rparr>)))))
        else find_pte_create_loop (i + 1) idxs (pte_ppn pte) pt))"

definition find_pte_create ::
  "VirtPageNum \<Rightarrow> PageTable \<Rightarrow> ('z mm_state_scheme, nat option \<times> PageTable) kernel" where
  "find_pte_create v pt = find_pte_create_loop 0 (indexes v) (root_ppn pt) pt"

fun find_pte_loop :: "memory \<Rightarrow> nat \<Rightarrow> usize list \<Rightarrow> PhysPageNum \<Rightarrow> nat option" where
  "find_pte_loop m i [] p = None"
| "find_pte_loop m i (idx # idxs) p =
     (let a = pte_addr p idx; pte = read_pte m a in
      if i = 2 then Some a
      else if \<not> is_valid pte then None
      else find_pte_loop m (i + 1) idxs (pte_ppn pte))"

definition find_pte :: "memory \<Rightarrow> PageTable \<Rightarrow> VirtPageNum \<Rightarrow> nat option" where
  "find_pte m pt v = find_pte_loop m 0 (indexes v) (root_ppn pt)"

definition PageTable_map ::
  "VirtPageNum \<Rightarrow> PhysPageNum \<Rightarrow> PTEFlags \<Rightarrow> PageTable \<Rightarrow> ('z mm_state_scheme, PageTable) kernel" where
  "PageTable_map v p flags pt =
     kbind (find_pte_create v pt) (\<lambda>(r, pt).
     kbind (kunwrap r) (\<lambda>a.
     kbind (kget (\<lambda>s. read_pte (pmem s) a)) (\<lambda>pte.
     kthen (kassert (\<not> is_valid pte))
     (kthen (write_pte a (pte_new p (flags OR PTE_V))) (kret pt)))))"

definition is_mapped ::
  "VirtPageNum \<Rightarrow> PageTable \<Rightarrow> ('z mm_state_scheme, bool \<times> PageTable) kernel" where
  "is_mapped v pt =
     kbind (find_pte_create v pt) (\<lambda>(r, pt).
     kbind (kunwrap r) (\<lambda>a.
     kbind (kget (\<lambda>s. read_pte (pmem s) a)) (\<lambda>pte. kret (is_valid pte, pt))))"

definition PageTable_unmap :: "VirtPageNum \<Rightarrow> PageTable \<Rightarrow> ('z mm_state_scheme, unit) kernel" where
  "PageTable_unmap v pt =
     kbind (kget (\<lambda>s. find_pte (pmem s) pt v)) (\<lambda>r.
     kbind (kunwrap r) (\<lambda>a.
     kbind (kget (\<lambda>s. read_pte (pmem s) a)) (\<lambda>pte.
     kthen (kassert (is_valid pte)) (write_pte a pte_empty))))"

definition pt_translate :: "memory \<Rightarrow> PageTable \<Rightarrow> VirtPageNum \<Rightarrow> PageTableEntry option" where
  "pt_translate m pt v = map_option (read_pte m) (find_pte m pt v)"

definition translate_va :: "memory \<Rightarrow> PageTable \<Rightarrow> VirtAddr \<Rightarrow> PhysAddr option" where
  "translate_va m pt a =
     map_option (\<lambda>e. let pte = read_pte m e;
                         aligned_pa = PhysAddr_from_PhysPageNum (pte_ppn pte);
                         offset = VirtAddr_page_offset a;
                         aligned_pa_usize = usize_from_PhysAddr aligned_pa
                     in PhysAddr_from_usize (aligned_pa_usize + offset))
       (find_pte m pt (VirtAddr_floor a))"

definition pt_token :: "PageTable \<Rightarrow> usize" where
  "pt_token pt = push_bit 60 8 OR ppn (root_ppn pt)"

section \<open>Entries as a memory of their own\<close>

definition entry :: "memory \<Rightarrow> PhysPageNum \<Rightarrow> nat \<Rightarrow> u64" where
  "entry m p i = load64 m (page_base p + 8 * i)"

lemma entry_store:
  assumes "unat (ppn p) < 2 ^ 44" "unat (ppn q) < 2 ^ 44" "i < 512" "j < 512"
  shows "entry (store64 m (page_base p + 8 * i) w) q j = (if q = p \<and> j = i then w else entry m q j)"
proof -
  consider "q = p \<and> j = i" | "q = p" "j < i" | "q = p" "i < j" | "q \<noteq> p" by force
  then show ?thesis
  proof cases
    case 4
    from page_base_less [OF assms(1,2)] 4
    have "page_base p + 4096 \<le> page_base q \<or> page_base q + 4096 \<le> page_base p" by blast
    with assms 4 show ?thesis
      unfolding entry_def by (subst load64_store64_disjoint) auto
  qed (auto simp: entry_def load64_store64_same load64_store64_disjoint)
qed

lemma entry_fill:
  assumes "unat (ppn p) < 2 ^ 44" "unat (ppn q) < 2 ^ 44" "j < 512"
  shows "entry (mem_fill m (page_base p) 4096 0) q j = (if q = p then 0 else entry m q j)"
proof (cases "q = p")
  case True
  with assms show ?thesis by (simp add: entry_def load64_fill_inside)
next
  case False
  with page_base_less [OF assms(1,2)]
  have "page_base p + 4096 \<le> page_base q \<or> page_base q + 4096 \<le> page_base p" by blast
  with assms False show ?thesis
    unfolding entry_def by (subst load64_fill_disjoint) auto
qed

lemma bytes_store_other:
  assumes "unat (ppn p) < 2 ^ 44" "unat (ppn q) < 2 ^ 44" "q \<noteq> p" "i < 512"
  shows "get_bytes_array (store64 m (page_base p + 8 * i) w) q = get_bytes_array m q"
proof -
  from page_base_less [OF assms(1,2)] assms(3)
  have "page_base p + 4096 \<le> page_base q \<or> page_base q + 4096 \<le> page_base p" by blast
  with assms(4) show ?thesis
    unfolding get_bytes_array_def store64_def by (intro mem_read_write_disjoint) auto
qed

section \<open>The tree\<close>

text \<open>\<open>table_at m p path\<close> is the table reached from table \<open>p\<close> along \<open>path\<close>.\<close>

fun table_at :: "memory \<Rightarrow> PhysPageNum \<Rightarrow> nat list \<Rightarrow> PhysPageNum option" where
  "table_at m p [] = Some p"
| "table_at m p (i # is) =
     (let e = \<lparr>pte_bits = entry m p i\<rparr> in if is_valid e then table_at m (pte_ppn e) is else None)"

definition good_path :: "nat list \<Rightarrow> bool" where
  "good_path q \<longleftrightarrow> length q \<le> 2 \<and> (\<forall>i\<in>set q. i < 512)"

text \<open>
  A well-formed tree: its tables are exactly reached inside \<open>F\<close>, and no table is
  reached along two different paths.
\<close>

definition pt_wf :: "memory \<Rightarrow> PhysPageNum \<Rightarrow> PhysPageNum set \<Rightarrow> bool" where
  "pt_wf m root F \<longleftrightarrow> root \<in> F \<and> (\<forall>p\<in>F. unat (ppn p) < 2 ^ 44) \<and>
     (\<forall>q p. good_path q \<longrightarrow> table_at m root q = Some p \<longrightarrow> p \<in> F) \<and>
     (\<forall>q q' p. good_path q \<longrightarrow> good_path q' \<longrightarrow> table_at m root q = Some p \<longrightarrow>
        table_at m root q' = Some p \<longrightarrow> q = q')"

lemma table_at_append:
  "table_at m p (q @ q') = (case table_at m p q of None \<Rightarrow> None | Some t \<Rightarrow> table_at m t q')"
  by (induction q arbitrary: p) (simp_all add: Let_def)

lemma good_path_append: "good_path (q @ q') \<Longrightarrow> good_path q"
  by (auto simp: good_path_def)

text \<open>Changing one entry of a table only matters below that entry.\<close>

lemma table_at_frame:
  assumes wf: "pt_wf m root F"
    and p: "good_path p" "table_at m root p = Some t"
    and same: "\<And>u j. u \<in> F \<Longrightarrow> j < 512 \<Longrightarrow> \<not> (u = t \<and> j = i) \<Longrightarrow> entry m' u j = entry m u j"
    and q: "good_path q" "\<nexists>r. q = p @ i # r"
  shows "table_at m' root q = table_at m root q"
proof -
  have "table_at m' u q2 = table_at m u q2"
    if "q = q1 @ q2" "table_at m root q1 = Some u" for q1 q2 u
    using that
  proof (induction q2 arbitrary: q1 u)
    case Nil
    then show ?case by simp
  next
    case (Cons j r)
    have gq1: "good_path q1" using q(1) Cons.prems(1) by (metis good_path_append)
    have uF: "u \<in> F" using wf gq1 Cons.prems(2) by (auto simp: pt_wf_def)
    have j: "j < 512" using q(1) Cons.prems(1) by (auto simp: good_path_def)
    have "\<not> (u = t \<and> j = i)"
    proof
      assume "u = t \<and> j = i"
      moreover from this wf gq1 p Cons.prems(2) have "q1 = p" by (auto simp: pt_wf_def)
      ultimately show False using q(2) Cons.prems(1) by auto
    qed
    with same uF j have e: "entry m' u j = entry m u j" by blast
    show ?case
    proof (cases "is_valid \<lparr>pte_bits = entry m u j\<rparr>")
      case True
      let ?v = "pte_ppn \<lparr>pte_bits = entry m u j\<rparr>"
      have "q = (q1 @ [j]) @ r" using Cons.prems(1) by simp
      moreover have "table_at m root (q1 @ [j]) = Some ?v"
        using Cons.prems(2) True by (simp add: table_at_append)
      ultimately have "table_at m' ?v r = table_at m ?v r" by (rule Cons.IH)
      with True e show ?thesis by simp
    next
      case False
      with e show ?thesis by simp
    qed
  qed
  from this [of "[]" q root] show ?thesis by simp
qed

section \<open>The invariant and the view of a table\<close>

definition vpath :: "VirtPageNum \<Rightarrow> nat list" where
  "vpath v = map unat (take 2 (indexes v))"

definition vlast :: "VirtPageNum \<Rightarrow> nat" where
  "vlast v = unat (indexes v ! 2)"

lemma vpath_props: "good_path (vpath v)" "length (vpath v) = 2" "vlast v < 512"
  by (auto simp: vpath_def vlast_def good_path_def indexes_eq unat_and_511 numeral_2_eq_2)

lemma vpath_eq_iff: "vpath w = vpath v \<and> vlast w = vlast v \<longleftrightarrow> indexes w = indexes v"
  unfolding vpath_def vlast_def indexes_eq
  by (auto simp: numeral_2_eq_2 dest: unat_eqI)

definition pt_ppns :: "PageTable \<Rightarrow> PhysPageNum set" where
  "pt_ppns pt = tracker_ppn ` set (pt_frames pt)"

definition pt_ok :: "usize \<Rightarrow> 'z mm_state_scheme \<Rightarrow> PageTable \<Rightarrow> bool" where
  "pt_ok lo s pt \<longleftrightarrow> fa_inv lo (FRAME_ALLOCATOR s) \<and> pt_wf (pmem s) (root_ppn pt) (pt_ppns pt) \<and>
     pt_ppns pt \<subseteq> fa_live lo (FRAME_ALLOCATOR s) \<and> distinct (map tracker_ppn (pt_frames pt))"

definition pt_view :: "memory \<Rightarrow> PageTable \<Rightarrow> VirtPageNum \<Rightarrow> PageTableEntry option" where
  "pt_view m pt v =
     (case pt_translate m pt v of None \<Rightarrow> None | Some e \<Rightarrow> if is_valid e then Some e else None)"

lemma find_pte_eq:
  "find_pte m pt v =
     map_option (\<lambda>t. page_base t + 8 * vlast v) (table_at m (root_ppn pt) (vpath v))"
  by (simp add: find_pte_def vpath_def vlast_def indexes_eq pte_addr_def entry_def read_pte_def
      Let_def numeral_2_eq_2)

lemma pt_view_eq:
  "pt_view m pt v =
     (case table_at m (root_ppn pt) (vpath v) of None \<Rightarrow> None
      | Some t \<Rightarrow> if is_valid \<lparr>pte_bits = entry m t (vlast v)\<rparr>
                  then Some \<lparr>pte_bits = entry m t (vlast v)\<rparr> else None)"
  by (simp add: pt_view_def pt_translate_def find_pte_eq entry_def read_pte_def split: option.split)

text \<open>The memory after a new, zeroed table \<open>f\<close> is linked into entry \<open>i\<close> of table \<open>t\<close>.\<close>

definition link_table :: "memory \<Rightarrow> PhysPageNum \<Rightarrow> nat \<Rightarrow> PhysPageNum \<Rightarrow> memory" where
  "link_table m t i f = store64 (mem_fill m (page_base f) 4096 0) (page_base t + 8 * i)
     (pte_bits (pte_new f PTE_V))"

lemma pte_eta [simp]: "\<lparr>pte_bits = pte_bits e\<rparr> = e"
  by (cases e) simp

lemma valid_link: "is_valid (pte_new f PTE_V)"
  by (simp add: is_valid_bit bit_pte_new PTE_V_def)

lemma not_valid_0: "\<not> is_valid \<lparr>pte_bits = 0\<rparr>"
  by (simp add: is_valid_bit)

lemma entry_link:
  assumes "unat (ppn t) < 2 ^ 44" "unat (ppn f) < 2 ^ 44" "t \<noteq> f" "i < 512"
    "unat (ppn u) < 2 ^ 44" "j < 512"
  shows "entry (link_table m t i f) u j =
    (if u = t \<and> j = i then pte_bits (pte_new f PTE_V) else if u = f then 0 else entry m u j)"
  using assms by (simp add: link_table_def entry_store entry_fill)

lemma table_at_link:
  assumes wf: "pt_wf m root F" and p: "good_path (p @ [i])" "table_at m root p = Some t"
    and inv: "\<not> is_valid \<lparr>pte_bits = entry m t i\<rparr>"
    and f: "f \<notin> F" "unat (ppn f) < 2 ^ 44" and q: "good_path q"
  shows "table_at (link_table m t i f) root q =
    (if q = p @ [i] then Some f else table_at m root q)"
proof -
  let ?m = "link_table m t i f"
  have gp: "good_path p" using p(1) by (rule good_path_append)
  with wf p(2) have tF: "t \<in> F" and F: "\<And>u. u \<in> F \<Longrightarrow> unat (ppn u) < 2 ^ 44"
    by (auto simp: pt_wf_def)
  have i: "i < 512" using p(1) by (simp add: good_path_def)
  have tf: "t \<noteq> f" using tF f(1) by blast
  have same: "entry ?m u j = entry m u j" if "u \<in> F" "j < 512" "\<not> (u = t \<and> j = i)" for u j
    using that f(1) by (subst entry_link) (use F tF f i tf in auto)
  note fr = table_at_frame [OF wf gp p(2) same]
  show ?thesis
  proof (cases "\<exists>r. q = p @ i # r")
    case False
    with fr [OF _ _ _ q] show ?thesis by auto
  next
    case True
    then obtain r where r: "q = p @ i # r" ..
    have "table_at ?m root p = Some t" using fr [OF _ _ _ gp] p(2) by simp
    moreover have "entry ?m t i = pte_bits (pte_new f PTE_V)"
      using F tF f i tf by (subst entry_link) auto
    ultimately have "table_at ?m root q = table_at ?m f r"
      using valid_link [of f] pte_ppn_new [OF f(2), of PTE_V]
      by (simp add: r table_at_append)
    moreover have "table_at ?m f r = None" if "r \<noteq> []"
    proof -
      from that obtain j r' where j: "r = j # r'" by (cases r) auto
      then have "j < 512" using q r by (simp add: good_path_def)
      then have "entry ?m f j = 0" using F tF f i tf by (subst entry_link) auto
      with j not_valid_0 show ?thesis by simp
    qed
    moreover have "table_at m root q = None" 
      using inv p(2) by (simp add: r table_at_append)
    ultimately show ?thesis using r by auto
  qed
qed

lemma pt_wf_link:
  assumes wf: "pt_wf m root F" and p: "good_path (p @ [i])" "table_at m root p = Some t"
    and inv: "\<not> is_valid \<lparr>pte_bits = entry m t i\<rparr>"
    and f: "f \<notin> F" "unat (ppn f) < 2 ^ 44"
  shows "pt_wf (link_table m t i f) root (insert f F)"
proof -
  note at = table_at_link [OF assms]
  have old: "u \<in> F" if "good_path q" "table_at m root q = Some u" for q u
    using wf that by (auto simp: pt_wf_def)
  have inj: "q = q'" if "good_path q" "good_path q'" "table_at m root q = Some u"
    "table_at m root q' = Some u" for q q' u
    using wf that by (auto simp: pt_wf_def)
  show ?thesis
    unfolding pt_wf_def
  proof (intro conjI allI impI)
    show "root \<in> insert f F" "\<forall>p\<in>insert f F. unat (ppn p) < 2 ^ 44"
      using wf f(2) by (auto simp: pt_wf_def)
    show "u \<in> insert f F" if "good_path q" "table_at (link_table m t i f) root q = Some u" for q u
      using that old by (auto simp: at split: if_splits)
    show "q = q'" if "good_path q" "good_path q'" "table_at (link_table m t i f) root q = Some u"
      "table_at (link_table m t i f) root q' = Some u" for q q' u
      using that old f(1) inj by (auto simp: at split: if_splits)
  qed
qed

lemma pt_view_link:
  assumes wf: "pt_wf m (root_ppn pt) F" and p: "good_path (p @ [i])" "table_at m (root_ppn pt) p = Some t"
    and inv: "\<not> is_valid \<lparr>pte_bits = entry m t i\<rparr>"
    and f: "f \<notin> F" "unat (ppn f) < 2 ^ 44" and r: "root_ppn pt' = root_ppn pt"
  shows "pt_view (link_table m t i f) pt' w = pt_view m pt w"
proof -
  have gp: "good_path p" using p(1) by (rule good_path_append)
  with wf p(2) have tF: "t \<in> F" and F: "\<And>u. u \<in> F \<Longrightarrow> unat (ppn u) < 2 ^ 44"
    by (auto simp: pt_wf_def)
  have i: "i < 512" using p(1) by (simp add: good_path_def)
  have tf: "t \<noteq> f" using tF f(1) by blast
  note at = table_at_link [OF wf p inv f vpath_props(1) [of w]]
  show ?thesis
  proof (cases "vpath w = p @ [i]")
    case True
    have "entry (link_table m t i f) f (vlast w) = 0"
      using F tF f i tf vpath_props(3) [of w] by (subst entry_link) auto
    moreover have "table_at m (root_ppn pt) (vpath w) = None"
      using True inv p(2) by (simp add: table_at_append)
    ultimately show ?thesis using True at not_valid_0 by (simp add: pt_view_eq r)
  next
    case False
    show ?thesis
    proof (cases "table_at m (root_ppn pt) (vpath w)")
      case None
      with False at show ?thesis by (simp add: pt_view_eq r)
    next
      case (Some u)
      have uF: "u \<in> F" using wf Some vpath_props(1) [of w] by (auto simp: pt_wf_def)
      have "u \<noteq> t"
      proof
        assume "u = t"
        with wf Some p(2) gp vpath_props(1) [of w] have "vpath w = p" by (auto simp: pt_wf_def)
        with p(1) vpath_props(2) [of w] show False by (simp add: good_path_def)
      qed
      then have "entry (link_table m t i f) u (vlast w) = entry m u (vlast w)"
        using F tF f i tf uF vpath_props(3) [of w] by (subst entry_link) auto
      with False at Some show ?thesis by (simp add: pt_view_eq r)
    qed
  qed
qed


section \<open>Walking and growing the tree\<close>

text \<open>The trackers \<open>ts\<close> grew to \<open>ts'\<close> by frames that were not live before.\<close>

definition frames_added ::
  "usize \<Rightarrow> StackFrameAllocator \<Rightarrow> FrameTracker list \<Rightarrow> StackFrameAllocator \<Rightarrow> FrameTracker list \<Rightarrow> bool" where
  "frames_added lo a ts a' ts' \<longleftrightarrow>
     (\<exists>fs. ts' = ts @ fs \<and> fa_live lo a' = fa_live lo a \<union> tracker_ppn ` set fs \<and>
        fa_live lo a \<inter> tracker_ppn ` set fs = {} \<and> fa_free a = fa_free a' + length fs)"

lemma frames_added_trans:
  assumes "frames_added lo a ts a1 ts1" "frames_added lo a1 ts1 a2 ts2"
  shows "frames_added lo a ts a2 ts2"
proof -
  from assms(1) obtain fs where fs: "ts1 = ts @ fs" "fa_live lo a1 = fa_live lo a \<union> tracker_ppn ` set fs"
    "fa_live lo a \<inter> tracker_ppn ` set fs = {}" "fa_free a = fa_free a1 + length fs"
    unfolding frames_added_def by blast
  from assms(2) obtain gs where gs: "ts2 = ts1 @ gs" "fa_live lo a2 = fa_live lo a1 \<union> tracker_ppn ` set gs"
    "fa_live lo a1 \<inter> tracker_ppn ` set gs = {}" "fa_free a1 = fa_free a2 + length gs"
    unfolding frames_added_def by blast
  show ?thesis
    unfolding frames_added_def by (rule exI [of _ "fs @ gs"]) (use fs gs in auto)
qed

text \<open>Every page outside \<open>X\<close> has the same 4096 bytes.\<close>

definition pages_kept :: "PhysPageNum set \<Rightarrow> memory \<Rightarrow> memory \<Rightarrow> bool" where
  "pages_kept X m m' \<longleftrightarrow> (\<forall>q. unat (ppn q) < 2 ^ 44 \<longrightarrow> q \<notin> X \<longrightarrow>
     get_bytes_array m' q = get_bytes_array m q)"

lemma pages_kept_refl [simp]: "pages_kept X m m"
  by (simp add: pages_kept_def)

lemma pages_kept_trans:
  "pages_kept X m m1 \<Longrightarrow> pages_kept Y m1 m2 \<Longrightarrow> X \<subseteq> Z \<Longrightarrow> Y \<subseteq> Z \<Longrightarrow> pages_kept Z m m2"
  unfolding pages_kept_def by (metis subsetD)

lemma pages_keptD:
  "pages_kept X m m' \<Longrightarrow> unat (ppn q) < 2 ^ 44 \<Longrightarrow> q \<notin> X \<Longrightarrow>
   get_bytes_array m' q = get_bytes_array m q"
  by (simp add: pages_kept_def)

text \<open>
  \<open>pt_evolve\<close> is what every operation on a table guarantees: the invariant, the same
  root, nothing but memory and allocator touched, the new table frames were not live
  before, and no page outside the table is written. \<open>pt_extend\<close> adds that the view
  is unchanged, which is what operations that only add tables guarantee.
\<close>

definition pt_evolve ::
  "usize \<Rightarrow> 'z mm_state_scheme \<Rightarrow> PageTable \<Rightarrow> 'z mm_state_scheme \<Rightarrow> PageTable \<Rightarrow> bool" where
  "pt_evolve lo s pt s' pt' \<longleftrightarrow> pt_ok lo s' pt' \<and> root_ppn pt' = root_ppn pt \<and>
     mm_state.more s' = mm_state.more s \<and>
     frames_added lo (FRAME_ALLOCATOR s) (pt_frames pt) (FRAME_ALLOCATOR s') (pt_frames pt') \<and>
     pages_kept (pt_ppns pt') (pmem s) (pmem s')"

definition pt_extend ::
  "usize \<Rightarrow> 'z mm_state_scheme \<Rightarrow> PageTable \<Rightarrow> 'z mm_state_scheme \<Rightarrow> PageTable \<Rightarrow> bool" where
  "pt_extend lo s pt s' pt' \<longleftrightarrow> pt_evolve lo s pt s' pt' \<and>
     pt_view (pmem s') pt' = pt_view (pmem s) pt"

lemma pt_evolve_refl: "pt_ok lo s pt \<Longrightarrow> pt_evolve lo s pt s pt"
  by (simp add: pt_evolve_def frames_added_def)

lemma pt_evolve_trans:
  assumes "pt_evolve lo s pt s1 pt1" "pt_evolve lo s1 pt1 s2 pt2"
  shows "pt_evolve lo s pt s2 pt2"
proof -
  have "pt_ppns pt1 \<subseteq> pt_ppns pt2"
    using assms(2) by (auto simp: pt_evolve_def frames_added_def pt_ppns_def)
  then have "pages_kept (pt_ppns pt2) (pmem s) (pmem s2)"
    using assms pages_kept_trans unfolding pt_evolve_def by blast
  moreover have "frames_added lo (FRAME_ALLOCATOR s) (pt_frames pt) (FRAME_ALLOCATOR s2) (pt_frames pt2)"
    using assms frames_added_trans unfolding pt_evolve_def by blast
  ultimately show ?thesis using assms by (simp add: pt_evolve_def)
qed

lemma pt_extend_refl: "pt_ok lo s pt \<Longrightarrow> pt_extend lo s pt s pt"
  by (simp add: pt_extend_def pt_evolve_refl)

lemma pt_extend_trans:
  "pt_extend lo s pt s1 pt1 \<Longrightarrow> pt_extend lo s1 pt1 s2 pt2 \<Longrightarrow> pt_extend lo s pt s2 pt2"
  using pt_evolve_trans by (fastforce simp: pt_extend_def)

lemma pt_extend_ok: "pt_extend lo s pt s' pt' \<Longrightarrow> pt_ok lo s' pt'"
  by (simp add: pt_extend_def pt_evolve_def)

lemma pt_extend_link:
  assumes ok: "pt_ok lo s pt" and p: "good_path (p @ [i])" "table_at (pmem s) (root_ppn pt) p = Some t"
    and inv: "\<not> is_valid \<lparr>pte_bits = entry (pmem s) t i\<rparr>"
    and al: "fa_inv lo a" "f \<notin> fa_live lo (FRAME_ALLOCATOR s)"
      "fa_live lo a = insert f (fa_live lo (FRAME_ALLOCATOR s))" "unat (ppn f) < 2 ^ 44"
      "fa_free (FRAME_ALLOCATOR s) = Suc (fa_free a)"
  shows "pt_extend lo s pt
    (s\<lparr>FRAME_ALLOCATOR := a, pmem := link_table (pmem s) t i f\<rparr>)
    (pt\<lparr>pt_frames := pt_frames pt @ [\<lparr>tracker_ppn = f\<rparr>]\<rparr>)" (is "pt_extend _ _ _ ?s ?pt")
    and "table_at (link_table (pmem s) t i f) (root_ppn pt) (p @ [i]) = Some f"
proof -
  have wf: "pt_wf (pmem s) (root_ppn pt) (pt_ppns pt)" and sub: "pt_ppns pt \<subseteq> fa_live lo (FRAME_ALLOCATOR s)"
    and d: "distinct (map tracker_ppn (pt_frames pt))"
    using ok by (auto simp: pt_ok_def)
  have f: "f \<notin> pt_ppns pt" using sub al(2) by blast
  have ppns: "pt_ppns ?pt = insert f (pt_ppns pt)" by (simp add: pt_ppns_def)
  have "pt_ok lo ?s ?pt"
    using pt_wf_link [OF wf p inv f al(4)] al(1,3) sub d f
    unfolding pt_ok_def ppns by (auto simp: pt_ppns_def)
  moreover have "pt_view (pmem ?s) ?pt = pt_view (pmem s) pt"
    using pt_view_link [OF wf p inv f al(4), of ?pt] by auto
  moreover have "get_bytes_array (link_table (pmem s) t i f) q = get_bytes_array (pmem s) q"
    if "unat (ppn q) < 2 ^ 44" "q \<noteq> f" "q \<notin> pt_ppns pt" for q
  proof -
    have "t \<in> pt_ppns pt" "unat (ppn t) < 2 ^ 44"
      using wf p good_path_append [OF p(1)] by (auto simp: pt_wf_def)
    moreover have "i < 512" using p(1) by (simp add: good_path_def)
    ultimately show ?thesis
      using that al(4) unfolding link_table_def
      by (subst bytes_store_other; (subst get_bytes_array_fill_other)?) auto
  qed
  ultimately show "pt_extend lo s pt ?s ?pt"
    using al(2,3,5) by (simp add: pt_extend_def pt_evolve_def ppns frames_added_def pages_kept_def)
  show "table_at (link_table (pmem s) t i f) (root_ppn pt) (p @ [i]) = Some f"
    using table_at_link [OF wf p inv f al(4) p(1)] by simp
qed

lemma wpe_write_pte [simp, wp_rules]:
  "wpe (write_pte a e) Q E s = Q () (s\<lparr>pmem := store64 (pmem s) a (pte_bits e)\<rparr>)"
  by (simp add: write_pte_def)

lemma read_pte_entry: "read_pte m (pte_addr p i) = \<lparr>pte_bits = entry m p (unat i)\<rparr>"
  by (simp add: read_pte_def pte_addr_def entry_def)

lemma pt_ok_table:
  assumes "pt_ok lo s pt" "good_path q" "table_at (pmem s) (root_ppn pt) q = Some t"
  shows "t \<in> pt_ppns pt" "unat (ppn t) < 2 ^ 44" "t \<in> fa_live lo (FRAME_ALLOCATOR s)"
proof -
  show t: "t \<in> pt_ppns pt" using assms unfolding pt_ok_def pt_wf_def by blast
  then show "t \<in> fa_live lo (FRAME_ALLOCATOR s)" using assms unfolding pt_ok_def by blast
  show "unat (ppn t) < 2 ^ 44" using t assms(1) unfolding pt_ok_def pt_wf_def by blast
qed

lemma find_pte_create_loop_spec:
  assumes "pt_ok lo s pt" "table_at (pmem s) (root_ppn pt) p = Some t"
    "length p = i" "i + length idxs = 3" "i \<le> 2" "good_path p" "\<forall>k\<in>set idxs. unat k < 512"
  shows "wpe (find_pte_create_loop i idxs t pt)
    (\<lambda>(r, pt') s'. pt_extend lo s pt s' pt' \<and>
      fa_free (FRAME_ALLOCATOR s) \<le> fa_free (FRAME_ALLOCATOR s') + (2 - i) \<and>
      (\<exists>u. table_at (pmem s') (root_ppn pt) (p @ map unat (butlast idxs)) = Some u \<and>
        r = Some (page_base u + 8 * unat (last idxs))))
    (\<lambda>e. e = UnwrapNone \<and> fa_free (FRAME_ALLOCATOR s) < 2 - i) s"
  using assms
proof (induction idxs arbitrary: i t pt p s)
  case Nil
  then show ?case by simp
next
  case (Cons k ks)
  show ?case (is "wpe _ ?Q ?E s")
  proof (cases "i = 2")
    case True
    with Cons.prems show ?thesis by (simp add: pt_extend_refl pte_addr_def Let_def)
  next
    case False
    with Cons.prems have i: "i < 2" "ks \<noteq> []" by auto
    have gp: "good_path (p @ [unat k])" using Cons.prems i by (auto simp: good_path_def)
    let ?e = "\<lparr>pte_bits = entry (pmem s) t (unat k)\<rparr>"
    have k: "unat k < 512" using Cons.prems by simp
    note kt = k pt_ok_table(2,3) [OF Cons.prems(1,6,2)]
    show ?thesis
    proof (cases "is_valid ?e")
      case True
      have "table_at (pmem s) (root_ppn pt) (p @ [unat k]) = Some (pte_ppn ?e)"
        using Cons.prems True by (simp add: table_at_append)
      from Cons.IH [OF Cons.prems(1) this _ _ _ gp, of "Suc i"] Cons.prems i
      have "wpe (find_pte_create_loop (Suc i) ks (pte_ppn ?e) pt) ?Q ?E s"
        by (simp, elim wpe_mono) auto
      then show ?thesis using True by (simp add: Let_def False read_pte_entry)
    next
      case nv: False
      have step: "wpe (find_pte_create_loop (Suc i) ks (pte_ppn (read_pte (link_table (pmem s) t (unat k) f) (pte_addr t k)))
            (pt\<lparr>pt_frames := pt_frames pt @ [\<lparr>tracker_ppn = f\<rparr>]\<rparr>)) ?Q ?E
          (s\<lparr>FRAME_ALLOCATOR := a, pmem := link_table (pmem s) t (unat k) f\<rparr>)"
        (is "wpe (find_pte_create_loop _ _ ?f ?pt) _ _ ?s")
        if al: "fa_inv lo a" "f \<notin> fa_live lo (FRAME_ALLOCATOR s)"
          "fa_live lo a = insert f (fa_live lo (FRAME_ALLOCATOR s))" "unat (ppn f) < 2 ^ 44"
          "fa_free (FRAME_ALLOCATOR s) = Suc (fa_free a)" for f a
      proof -
        note link = pt_extend_link [OF Cons.prems(1) gp Cons.prems(2) nv al]
        have "t \<noteq> f" using al(2) kt(3) by blast
        then have f: "?f = f"
          using kt al(4) by (simp add: entry_link read_pte_entry pte_ppn_new)
        have ok: "pt_ok lo ?s ?pt" using link(1) by (rule pt_extend_ok)
        have "wpe (find_pte_create_loop (Suc i) ks f ?pt)
          (\<lambda>(r, pt') s'. pt_extend lo ?s ?pt s' pt' \<and>
            fa_free (FRAME_ALLOCATOR ?s) \<le> fa_free (FRAME_ALLOCATOR s') + (2 - (Suc i)) \<and>
            (\<exists>u. table_at (pmem s') (root_ppn ?pt) ((p @ [unat k]) @ map unat (butlast ks)) = Some u \<and>
              r = Some (page_base u + 8 * unat (last ks))))
          (\<lambda>e. e = UnwrapNone \<and> fa_free (FRAME_ALLOCATOR ?s) < 2 - (Suc i)) ?s"
          by (rule Cons.IH [OF ok _ _ _ _ gp]) (use link(2) Cons.prems i in simp_all)
        then show ?thesis
          unfolding f by (rule wpe_mono) (use i al(5) pt_extend_trans [OF link(1)] in fastforce)+
      qed
      have "fa_inv lo (FRAME_ALLOCATOR s)" using Cons.prems(1) by (simp add: pt_ok_def)
      then show ?thesis
        using nv i
        by (simp add: Let_def False read_pte_entry [of "pmem s"])
           (rule wpe_frame_alloc, assumption, simp, use step in \<open>simp add: link_table_def pte_addr_def\<close>)
    qed
  qed
qed

lemma find_pte_create_spec:
  assumes "pt_ok lo s pt"
  shows "wpe (find_pte_create v pt)
    (\<lambda>(r, pt') s'. pt_extend lo s pt s' pt' \<and>
      fa_free (FRAME_ALLOCATOR s) \<le> fa_free (FRAME_ALLOCATOR s') + 2 \<and>
      (\<exists>u. table_at (pmem s') (root_ppn pt') (vpath v) = Some u \<and>
        r = Some (page_base u + 8 * vlast v)))
    (\<lambda>e. e = UnwrapNone \<and> fa_free (FRAME_ALLOCATOR s) < 2) s"
proof -
  have idx: "map unat (butlast (indexes v)) = vpath v" "unat (last (indexes v)) = vlast v"
    "length (indexes v) = 3" "\<forall>k\<in>set (indexes v). unat k < 512"
    by (auto simp: vpath_def vlast_def indexes_eq numeral_2_eq_2 unat_and_511)
  from find_pte_create_loop_spec [OF assms, of "[]" "root_ppn pt" 0 "indexes v"] idx
  have "wpe (find_pte_create v pt)
    (\<lambda>(r, pt') s'. pt_extend lo s pt s' pt' \<and>
      fa_free (FRAME_ALLOCATOR s) \<le> fa_free (FRAME_ALLOCATOR s') + 2 \<and>
      (\<exists>u. table_at (pmem s') (root_ppn pt) (vpath v) = Some u \<and>
        r = Some (page_base u + 8 * vlast v)))
    (\<lambda>e. e = UnwrapNone \<and> fa_free (FRAME_ALLOCATOR s) < 2) s"
    by (simp add: find_pte_create_def good_path_def)
  then show ?thesis
    by (rule wpe_post) (auto simp: pt_extend_def pt_evolve_def)
qed

lemma leaf_store:
  assumes ok: "pt_ok lo s pt" and u: "table_at (pmem s) (root_ppn pt) (vpath v) = Some u"
  shows "pt_evolve lo s pt (s\<lparr>pmem := store64 (pmem s) (page_base u + 8 * vlast v) w\<rparr>) pt"
      (is "pt_evolve _ _ _ ?s _")
    and "pt_view (store64 (pmem s) (page_base u + 8 * vlast v) w) pt x =
      (if indexes x = indexes v then (if is_valid \<lparr>pte_bits = w\<rparr> then Some \<lparr>pte_bits = w\<rparr> else None)
       else pt_view (pmem s) pt x)"
proof -
  let ?m = "store64 (pmem s) (page_base u + 8 * vlast v) w"
  have wf: "pt_wf (pmem s) (root_ppn pt) (pt_ppns pt)" using ok by (simp add: pt_ok_def)
  note ub = pt_ok_table [OF ok vpath_props(1) u]
  have F: "unat (ppn t) < 2 ^ 44" if "t \<in> pt_ppns pt" for t
    using wf that unfolding pt_wf_def by blast
  have e: "entry ?m t j = (if t = u \<and> j = vlast v then w else entry (pmem s) t j)"
    if "t \<in> pt_ppns pt" "j < 512" for t j
    using that F ub(2) vpath_props(3) [of v] by (subst entry_store) auto
  have at: "table_at ?m (root_ppn pt) q = table_at (pmem s) (root_ppn pt) q" if "good_path q" for q
  proof (rule table_at_frame [OF wf vpath_props(1) u _ that])
    show "\<nexists>r. q = vpath v @ vlast v # r"
      using that vpath_props(2) [of v] by (auto simp: good_path_def)
  qed (use e in auto)
  have "pt_wf ?m (root_ppn pt) (pt_ppns pt)"
    using wf at unfolding pt_wf_def by simp
  moreover have "pages_kept (pt_ppns pt) (pmem s) ?m"
    unfolding pages_kept_def using ub(1,2) vpath_props(3) [of v]
    by (intro allI impI bytes_store_other) auto
  ultimately show "pt_evolve lo s pt ?s pt"
    using ok by (simp add: pt_evolve_def pt_ok_def frames_added_def)
  show "pt_view ?m pt x = (if indexes x = indexes v
      then (if is_valid \<lparr>pte_bits = w\<rparr> then Some \<lparr>pte_bits = w\<rparr> else None)
      else pt_view (pmem s) pt x)"
  proof (cases "table_at (pmem s) (root_ppn pt) (vpath x)")
    case None
    then have "vpath x \<noteq> vpath v" using u by auto
    then have "indexes x \<noteq> indexes v" using vpath_eq_iff by blast
    with None at [OF vpath_props(1)] show ?thesis by (simp add: pt_view_eq)
  next
    case (Some t)
    note tb = pt_ok_table [OF ok vpath_props(1) Some]
    have "t = u \<longleftrightarrow> vpath x = vpath v"
      using wf Some u vpath_props(1) unfolding pt_wf_def by (metis option.inject)
    then have "t = u \<and> vlast x = vlast v \<longleftrightarrow> indexes x = indexes v"
      using vpath_eq_iff by blast
    then have "entry ?m t (vlast x) = (if indexes x = indexes v then w else entry (pmem s) t (vlast x))"
      using e [OF tb(1) vpath_props(3), of x] by simp
    then show ?thesis using Some at [OF vpath_props(1)] by (simp add: pt_view_eq)
  qed
qed

lemma valid_OR_V: "is_valid (pte_new p (fl OR PTE_V))"
  by (simp add: is_valid_bit bit_pte_new PTE_V_def bit_or_iff)

lemma pt_view_at:
  "table_at m (root_ppn pt) (vpath v) = Some u \<Longrightarrow>
   is_valid (read_pte m (page_base u + 8 * vlast v)) \<longleftrightarrow> pt_view m pt v \<noteq> None"
  by (simp add: pt_view_eq read_pte_def entry_def)

definition pt_map_post ::
  "usize \<Rightarrow> VirtPageNum \<Rightarrow> PhysPageNum \<Rightarrow> PTEFlags \<Rightarrow> 'z mm_state_scheme \<Rightarrow> PageTable \<Rightarrow>
   'z mm_state_scheme \<Rightarrow> PageTable \<Rightarrow> bool" where
  "pt_map_post lo v p fl s pt s' pt' \<longleftrightarrow> pt_evolve lo s pt s' pt' \<and> pt_view (pmem s) pt v = None \<and>
     fa_free (FRAME_ALLOCATOR s) \<le> fa_free (FRAME_ALLOCATOR s') + 2 \<and>
     (\<forall>w. pt_view (pmem s') pt' w =
       (if indexes w = indexes v then Some (pte_new p (fl OR PTE_V)) else pt_view (pmem s) pt w))"

lemma PageTable_map_spec:
  assumes "pt_ok lo s pt"
  shows "wpe (PageTable_map v p fl pt) (\<lambda>pt' s'. pt_map_post lo v p fl s pt s' pt')
    (\<lambda>e. e = AssertFailed \<and> pt_view (pmem s) pt v \<noteq> None \<or>
         e = UnwrapNone \<and> fa_free (FRAME_ALLOCATOR s) < 2) s"
  unfolding PageTable_map_def wpe_kbind
proof (rule wpe_mono [OF find_pte_create_spec [OF assms]], clarify)
  fix r pt' s' u
  assume ext: "pt_extend lo s pt s' pt'"
    and fr: "fa_free (FRAME_ALLOCATOR s) \<le> fa_free (FRAME_ALLOCATOR s') + 2"
    and u: "table_at (pmem s') (root_ppn pt') (vpath v) = Some u"
  have ok: "pt_ok lo s' pt'" and ev: "pt_evolve lo s pt s' pt'"
    and view: "pt_view (pmem s') pt' = pt_view (pmem s) pt"
    using ext by (auto simp: pt_extend_def pt_evolve_def)
  note leaf = leaf_store [OF ok u, of "pte_bits (pte_new p (fl OR PTE_V))"]
  show "wpe (kbind (kunwrap (Some (page_base u + 8 * vlast v))) (\<lambda>a.
     kbind (kget (\<lambda>s. read_pte (pmem s) a)) (\<lambda>pte.
     kthen (kassert (\<not> is_valid pte))
     (kthen (write_pte a (pte_new p (fl OR PTE_V))) (kret pt')))))
     (\<lambda>pt' s'. pt_map_post lo v p fl s pt s' pt')
     (\<lambda>e. e = AssertFailed \<and> pt_view (pmem s) pt v \<noteq> None \<or>
         e = UnwrapNone \<and> fa_free (FRAME_ALLOCATOR s) < 2) s'"
    using pt_view_at [OF u] view leaf valid_OR_V pt_evolve_trans [OF ev leaf(1)] fr
    by (simp add: pt_map_post_def)
qed simp

lemma is_mapped_spec:
  assumes "pt_ok lo s pt"
  shows "wpe (is_mapped v pt)
    (\<lambda>(b, pt') s'. pt_extend lo s pt s' pt' \<and>
      fa_free (FRAME_ALLOCATOR s) \<le> fa_free (FRAME_ALLOCATOR s') + 2 \<and> (b \<longleftrightarrow> pt_view (pmem s) pt v \<noteq> None))
    (\<lambda>e. e = UnwrapNone \<and> fa_free (FRAME_ALLOCATOR s) < 2) s"
  unfolding is_mapped_def wpe_kbind
  by (rule wpe_mono [OF find_pte_create_spec [OF assms]])
     (auto simp: pt_view_at, auto simp: pt_extend_def)

lemma PageTable_unmap_spec:
  assumes ok: "pt_ok lo s pt"
  shows "wpe (PageTable_unmap v pt)
    (\<lambda>_ s'. pt_evolve lo s pt s' pt \<and> pt_view (pmem s) pt v \<noteq> None \<and>
      FRAME_ALLOCATOR s' = FRAME_ALLOCATOR s \<and>
      (\<forall>w. pt_view (pmem s') pt w =
         (if indexes w = indexes v then None else pt_view (pmem s) pt w)))
    (\<lambda>e. pt_view (pmem s) pt v = None) s"
proof (cases "table_at (pmem s) (root_ppn pt) (vpath v)")
  case None
  then show ?thesis by (simp add: PageTable_unmap_def find_pte_eq pt_view_eq)
next
  case (Some u)
  then show ?thesis
    using pt_view_at [OF Some] leaf_store [OF ok Some, of 0] not_valid_0
    by (simp add: PageTable_unmap_def find_pte_eq pte_empty_def)
qed

text \<open>Writing outside the tables leaves the tree alone.\<close>

lemma entry_bytes:
  assumes "get_bytes_array m' p = get_bytes_array m p" "i < 512"
  shows "entry m' p i = entry m p i"
proof -
  have "m' (page_base p + k) = m (page_base p + k)" if "k < 4096" for k
    using arg_cong [OF assms(1), of "\<lambda>xs. xs ! k"] that by (simp add: get_bytes_array_def mem_read_def)
  then have "m' x = m x" if "page_base p \<le> x" "x < page_base p + 4096" for x
    using that by (metis less_diff_conv2 le_add_diff_inverse add.commute)
  then have "mem_read m' (page_base p + 8 * i) 8 = mem_read m (page_base p + 8 * i) 8"
    using assms(2) by (auto simp: mem_read_def)
  then show ?thesis by (simp add: entry_def load64_def)
qed

lemma pt_stable:
  assumes wf: "pt_wf m (root_ppn pt) F"
    and same: "\<And>p. p \<in> F \<Longrightarrow> get_bytes_array m' p = get_bytes_array m p"
  shows "pt_wf m' (root_ppn pt) F" "pt_view m' pt = pt_view m pt"
proof -
  have e: "entry m' p i = entry m p i" if "p \<in> F" "i < 512" for p i
    using that same entry_bytes by blast
  have root: "root_ppn pt \<in> F" using wf by (simp add: pt_wf_def)
  have at: "table_at m' (root_ppn pt) q = table_at m (root_ppn pt) q" if "good_path q" for q
    using that
  proof (induction q rule: rev_induct)
    case (snoc i q)
    have g: "good_path q" "i < 512" using snoc.prems by (auto simp: good_path_def)
    have "entry m' t i = entry m t i" if "table_at m (root_ppn pt) q = Some t" for t
      using wf g that e unfolding pt_wf_def by blast
    with snoc.IH g show ?case by (auto simp: table_at_append Let_def split: option.split)
  qed simp
  then show "pt_wf m' (root_ppn pt) F" using wf unfolding pt_wf_def by simp
  show "pt_view m' pt = pt_view m pt"
  proof
    fix v
    have "entry m' t (vlast v) = entry m t (vlast v)"
      if "table_at m (root_ppn pt) (vpath v) = Some t" for t
      using wf vpath_props that e unfolding pt_wf_def by blast
    then show "pt_view m' pt v = pt_view m pt v"
      using at [OF vpath_props(1)] by (auto simp: pt_view_eq split: option.split)
  qed
qed

section \<open>New tables and tokens\<close>

lemma pt_wf_root:
  assumes "unat (ppn p) < 2 ^ 44" "\<And>i. i < 512 \<Longrightarrow> entry m p i = 0"
  shows "pt_wf m p {p}" "root_ppn pt = p \<Longrightarrow> pt_view m pt v = None"
proof -
  have none: "table_at m p (i # q) = None" if "i < 512" for i q
    using assms(2) [OF that] not_valid_0 by simp
  have at: "q = [] \<and> t = p" if "good_path q" "table_at m p q = Some t" for q t
    using that none by (cases q) (auto simp: good_path_def)
  then show "pt_wf m p {p}" using assms(1) unfolding pt_wf_def by blast
  obtain i j where "vpath v = [i, j]" "i < 512"
    using vpath_props(1,2) [of v] by (auto simp: good_path_def length_Suc_conv numeral_2_eq_2)
  then show "root_ppn pt = p \<Longrightarrow> pt_view m pt v = None"
    using none by (simp add: pt_view_eq)
qed

lemma PageTable_new_spec:
  assumes "fa_inv lo (FRAME_ALLOCATOR s)"
  shows "wpe PageTable_new
    (\<lambda>pt s'. pt_ok lo s' pt \<and> (\<forall>v. pt_view (pmem s') pt v = None) \<and>
       pt_ppns pt = {root_ppn pt} \<and> mm_state.more s' = mm_state.more s \<and>
       frames_added lo (FRAME_ALLOCATOR s) [] (FRAME_ALLOCATOR s') (pt_frames pt) \<and>
       pages_kept (pt_ppns pt) (pmem s) (pmem s'))
    (\<lambda>e. e = UnwrapNone \<and> fa_free (FRAME_ALLOCATOR s) = 0) s"
  unfolding PageTable_new_def wpe_kbind
proof (rule wpe_frame_alloc [OF assms])
  fix p a
  assume al: "fa_inv lo a" "p \<notin> fa_live lo (FRAME_ALLOCATOR s)"
    "fa_live lo a = insert p (fa_live lo (FRAME_ALLOCATOR s))" "unat (ppn p) < 2 ^ 44"
    "fa_free (FRAME_ALLOCATOR s) = Suc (fa_free a)"
  let ?m = "mem_fill (pmem s) (page_base p) 4096 0"
  let ?pt = "\<lparr>root_ppn = p, pt_frames = [\<lparr>tracker_ppn = p\<rparr>]\<rparr>"
  have z: "entry ?m p i = 0" if "i < 512" for i using al(4) that by (simp add: entry_fill)
  have "pages_kept {p} (pmem s) ?m"
    unfolding pages_kept_def using al(4) get_bytes_array_fill_other by auto
  then show "wpe (kunwrap (Some \<lparr>tracker_ppn = p\<rparr>))
     (\<lambda>a. wpe (kret \<lparr>root_ppn = tracker_ppn a, pt_frames = [a]\<rparr>)
        (\<lambda>pt s'. pt_ok lo s' pt \<and> (\<forall>v. pt_view (pmem s') pt v = None) \<and>
           pt_ppns pt = {root_ppn pt} \<and> mm_state.more s' = mm_state.more s \<and>
           frames_added lo (FRAME_ALLOCATOR s) [] (FRAME_ALLOCATOR s') (pt_frames pt) \<and>
           pages_kept (pt_ppns pt) (pmem s) (pmem s'))
        (\<lambda>e. e = UnwrapNone \<and> fa_free (FRAME_ALLOCATOR s) = 0))
     (\<lambda>e. e = UnwrapNone \<and> fa_free (FRAME_ALLOCATOR s) = 0)
     (s\<lparr>FRAME_ALLOCATOR := a, pmem := ?m\<rparr>)"
    using pt_wf_root [OF al(4) z] al
    by (simp add: pt_ok_def pt_ppns_def frames_added_def)
qed simp

lemma from_token_pt_token:
  assumes "unat (ppn (root_ppn pt)) < 2 ^ 44"
  shows "root_ppn (from_token (pt_token pt)) = root_ppn pt"
proof -
  have tok: "pt_token pt = 2 ^ 63 OR ppn (root_ppn pt)" by (simp add: pt_token_def)
  have "pt_token pt AND mask 44 = ppn (root_ppn pt)"
    unfolding tok
  proof (rule bit_word_eqI)
    fix n assume "n < LENGTH(64)"
    moreover have "\<not> bit (ppn (root_ppn pt)) n" if "44 \<le> n"
      using assms that by (rule high_bit_small)
    ultimately show "bit ((2 ^ 63 OR ppn (root_ppn pt)) AND mask 44) n = bit (ppn (root_ppn pt)) n"
      by (cases "n < 44") (auto simp: bit_and_iff bit_or_iff bit_mask_iff bit_exp_iff simp del: power_numeral)
  qed
  then show ?thesis
    using PhysPageNum_from_small [OF assms] by (simp add: from_token_def push_bit_mask del: push_bit_of_1)
qed

lemma pt_view_same_root: "root_ppn pt = root_ppn pt' \<Longrightarrow> pt_view m pt = pt_view m pt'"
  by (simp add: fun_eq_iff pt_view_eq)

section \<open>The operations as operations on the view\<close>

text \<open>A small concrete machine on which the theorems below are applied: frames 2 to 8
  are managed, frame 3 holds an empty root table, frame 4 has been given back and
  frame 2 ends with the two letters of a greeting.\<close>

definition demo_mm :: mm_state where
  "demo_mm = \<lparr>pmem = (\<lambda>_. 0)(0x2ffe := 0x68, 0x2fff := 0x69),
     FRAME_ALLOCATOR = \<lparr>fa_current = 5, fa_end = 9, recycled = [4]\<rparr>\<rparr>"

definition demo_pt :: PageTable where
  "demo_pt = \<lparr>root_ppn = PhysPageNum 3, pt_frames = [\<lparr>tracker_ppn = PhysPageNum 3\<rparr>]\<rparr>"

lemma demo_root_empty: "entry (pmem demo_mm) (PhysPageNum 3) i = 0"
proof -
  have "mem_read (pmem demo_mm) (page_base (PhysPageNum 3) + 8 * i) 8 = replicate 8 0"
    by (rule nth_equalityI) (auto simp: nth_mem_read demo_mm_def page_base_eq)
  then show ?thesis
    by (intro bit_word_eqI) (simp add: entry_def load64_def bit_from_le_bytes)
qed

lemma demo_ok: "pt_ok 2 demo_mm demo_pt" "pt_view (pmem demo_mm) demo_pt v = None"
    "fa_free (FRAME_ALLOCATOR demo_mm) = 5"
proof -
  have "pt_wf (pmem demo_mm) (PhysPageNum 3) {PhysPageNum 3}"
    by (rule pt_wf_root) (simp_all add: demo_root_empty)
  then show "pt_ok 2 demo_mm demo_pt"
    by (simp add: pt_ok_def demo_pt_def pt_ppns_def) (simp add: demo_mm_def fa_inv_def fa_live_def)
  show "pt_view (pmem demo_mm) demo_pt v = None"
    by (rule pt_wf_root(2) [of "PhysPageNum 3"]) (simp_all add: demo_root_empty demo_pt_def)
  show "fa_free (FRAME_ALLOCATOR demo_mm) = 5" by (simp add: fa_free_def demo_mm_def)
qed

text \<open>C3: \<open>map\<close> refines the update of a partial map. On a well-formed table it adds
  exactly the requested entry to the view, for exactly the pages with the same three
  indices, keeps the invariant, writes no page outside the table, and the frames it
  adds to the table were not live before. It panics only when the page is already
  mapped (the assertion) or when fewer than two frames are free.\<close>

theorem map_refines:
  assumes "pt_ok lo s pt"
  shows "wpe (PageTable_map v p fl pt)
    (\<lambda>pt' s'. pt_view (pmem s) pt v = None \<and> pt_ok lo s' pt' \<and>
       (\<forall>w. pt_view (pmem s') pt' w =
         (if indexes w = indexes v then Some (pte_new p (fl OR PTE_V)) else pt_view (pmem s) pt w)) \<and>
       frames_added lo (FRAME_ALLOCATOR s) (pt_frames pt) (FRAME_ALLOCATOR s') (pt_frames pt') \<and>
       pages_kept (pt_ppns pt') (pmem s) (pmem s'))
    (\<lambda>e. e = AssertFailed \<and> pt_view (pmem s) pt v \<noteq> None \<or>
         e = UnwrapNone \<and> fa_free (FRAME_ALLOCATOR s) < 2) s"
  by (rule wpe_post [OF PageTable_map_spec [OF assms]]) (auto simp: pt_map_post_def pt_evolve_def)

theorem map_refines_witness:
  "wp (PageTable_map (VirtPageNum 0x10) (PhysPageNum 2) (PTE_R OR PTE_U) demo_pt)
     (\<lambda>pt' s'. pt_view (pmem s') pt' (VirtPageNum 0x10) =
        Some (pte_new (PhysPageNum 2) ((PTE_R OR PTE_U) OR PTE_V))) demo_mm"
  by (rule wpe_mono [OF map_refines [OF demo_ok(1)]]) (simp_all add: demo_ok(2,3))

text \<open>C5: \<open>unmap\<close> removes exactly the given page from the view, keeps the invariant,
  neither takes nor returns a frame, and panics exactly when the page is not mapped.\<close>

theorem unmap_refines:
  assumes "pt_ok lo s pt"
  shows "wpe (PageTable_unmap v pt)
      (\<lambda>_ s'. pt_view (pmem s) pt v \<noteq> None \<and> pt_ok lo s' pt \<and>
         FRAME_ALLOCATOR s' = FRAME_ALLOCATOR s \<and>
         (\<forall>w. pt_view (pmem s') pt w = (if indexes w = indexes v then None else pt_view (pmem s) pt w)) \<and>
         pages_kept (pt_ppns pt) (pmem s) (pmem s'))
      (\<lambda>e. pt_view (pmem s) pt v = None) s"
  by (rule wpe_post [OF PageTable_unmap_spec [OF assms]]) (auto simp: pt_evolve_def)

theorem unmap_refines_witness:
  "wp (kbind (PageTable_map (VirtPageNum 0x10) (PhysPageNum 2) PTE_R demo_pt)
         (\<lambda>pt. kthen (PageTable_unmap (VirtPageNum 0x10) pt) (kret pt)))
     (\<lambda>pt s'. pt_view (pmem s') pt (VirtPageNum 0x10) = None) demo_mm"
  unfolding wpe_kbind wpe_kthen wpe_kret
proof (rule wpe_mono [OF PageTable_map_spec [OF demo_ok(1)]])
  fix pt s
  assume "pt_map_post 2 (VirtPageNum 0x10) (PhysPageNum 2) PTE_R demo_mm demo_pt s pt"
  then have *: "pt_ok 2 s pt" "pt_view (pmem s) pt (VirtPageNum 0x10) \<noteq> None"
    by (simp_all add: pt_map_post_def pt_evolve_def)
  show "wp (PageTable_unmap (VirtPageNum 0x10) pt)
       (\<lambda>_ s'. pt_view (pmem s') pt (VirtPageNum 0x10) = None) s"
    by (rule wpe_mono [OF unmap_refines [OF *(1)]]) (use *(2) in simp_all)
qed (simp add: demo_ok(2,3))

text \<open>C30: a new table is well-formed and maps nothing, whatever its frame held before;
  its token leads back to the same root, so every process sees its own view through
  its token. Creation fails only with no free frame.\<close>

theorem new_table_through_token:
  assumes "fa_inv lo (FRAME_ALLOCATOR s)"
  shows "wpe PageTable_new
    (\<lambda>pt s'. pt_ok lo s' pt \<and> (\<forall>v. pt_view (pmem s') pt v = None) \<and>
       (\<forall>m. pt_view m (from_token (pt_token pt)) = pt_view m pt) \<and>
       root_ppn pt \<notin> fa_live lo (FRAME_ALLOCATOR s) \<and>
       pages_kept {root_ppn pt} (pmem s) (pmem s'))
    (\<lambda>e. e = UnwrapNone \<and> fa_free (FRAME_ALLOCATOR s) = 0) s"
proof (rule wpe_post [OF PageTable_new_spec [OF assms]], elim conjE, intro conjI)
  fix pt s'
  assume ok: "pt_ok lo s' pt"
    and fr: "frames_added lo (FRAME_ALLOCATOR s) [] (FRAME_ALLOCATOR s') (pt_frames pt)"
    and pk: "pages_kept (pt_ppns pt) (pmem s) (pmem s')" "pt_ppns pt = {root_ppn pt}"
  have root: "root_ppn pt \<in> pt_ppns pt" "unat (ppn (root_ppn pt)) < 2 ^ 44"
    using pt_ok_table [OF ok, of "[]"] by (simp_all add: good_path_def)
  show "\<forall>m. pt_view m (from_token (pt_token pt)) = pt_view m pt"
    using from_token_pt_token [OF root(2)] pt_view_same_root by blast
  show "root_ppn pt \<notin> fa_live lo (FRAME_ALLOCATOR s)"
    using root(1) fr by (auto simp: frames_added_def pt_ppns_def)
  show "pages_kept {root_ppn pt} (pmem s) (pmem s')" using pk by simp
qed assumption+

theorem new_table_through_token_witness:
  "wp PageTable_new (\<lambda>pt s'. root_ppn pt = PhysPageNum 4 \<and> pt_ok 2 s' pt \<and>
     (\<forall>m. pt_view m (from_token (pt_token pt)) = pt_view m pt)) demo_mm"
proof -
  have inv: "fa_inv 2 (FRAME_ALLOCATOR demo_mm)" by (simp add: demo_mm_def fa_inv_def)
  have "wlp PageTable_new (\<lambda>pt s'. root_ppn pt = PhysPageNum 4) demo_mm"
    by (simp add: wpe_def PageTable_new_def kdefs frame_alloc_cases demo_mm_def
        StackFrameAllocator_alloc_def PhysPageNum_from_usize_def width_defs)
  from wpe_conj [OF new_table_through_token [OF inv] this] show ?thesis
    by (rule wpe_mono) (simp_all add: demo_ok(3))
qed

end
