(* ===== verification/User_Memory.thy ===== *)
theory User_Memory
  imports Page_Table
begin

text \<open>
  The second half of \<^verbatim>\<open>mm/page_table.rs\<close>:
  the copies between the kernel and user memory. A slice \<^verbatim>\<open>&mut [u8]\<close> of a page is
  a pair of physical address and length; the loops are \<open>partial_function (option)\<close>,
  where \<open>None\<close> means that the loop never ends, which the callers see as \<open>Hang\<close>.
\<close>

section \<open>The page loops\<close>

definition page_slice :: "PhysPageNum \<Rightarrow> usize \<Rightarrow> VirtAddr \<Rightarrow> (nat \<times> nat) res" where
  "page_slice p lo_off end_va =
     (let hi_off = VirtAddr_page_offset end_va in
      if hi_off = 0 then Inr (page_base p + unat lo_off, 4096 - unat lo_off)
      else if lo_off \<le> hi_off then Inr (page_base p + unat lo_off, unat hi_off - unat lo_off)
      else Inl OutOfBounds)"

partial_function (option) byte_buffer_loop ::
  "memory \<Rightarrow> PageTable \<Rightarrow> usize \<Rightarrow> usize \<Rightarrow> (nat \<times> nat) list \<Rightarrow> (nat \<times> nat) list res option"
where
  "byte_buffer_loop m page_table stop start v =
     (if start < stop then
        let start_va = VirtAddr_from_usize start;
            vp = VirtAddr_floor start_va
        in case pt_translate m page_table vp of
             None \<Rightarrow> Some (Inl UnwrapNone)
           | Some pte \<Rightarrow>
               let end_va = min (VirtAddr_from_VirtPageNum (VirtPageNum_step vp)) (VirtAddr_from_usize stop)
               in (case page_slice (pte_ppn pte) (VirtAddr_page_offset start_va) end_va of
                    Inl e \<Rightarrow> Some (Inl e)
                  | Inr x \<Rightarrow> byte_buffer_loop m page_table stop (usize_from_VirtAddr end_va) (v @ [x]))
      else Some (Inr v))"

declare byte_buffer_loop.simps [code]

definition translated_byte_buffer ::
  "usize \<Rightarrow> usize \<Rightarrow> usize \<Rightarrow> ('z mm_state_scheme, (nat \<times> nat) list) kernel" where
  "translated_byte_buffer tok ptr len =
     kpartial (\<lambda>s. map_option (map_sum id (\<lambda>v. (v, s)))
       (byte_buffer_loop (pmem s) (from_token tok) (ptr + len) ptr []))"

partial_function (option) copy_out_loop ::
  "(usize \<Rightarrow> u8) \<Rightarrow> PageTable \<Rightarrow> usize \<Rightarrow> usize \<Rightarrow> usize \<Rightarrow> memory \<Rightarrow> memory res option"
where
  "copy_out_loop kbytes page_table stop start start_src m =
     (if start < stop then
        let start_va = VirtAddr_from_usize start;
            vp = VirtAddr_floor start_va
        in case pt_translate m page_table vp of
             None \<Rightarrow> Some (Inl UnwrapNone)
           | Some pte \<Rightarrow>
               let end_va = min (VirtAddr_from_VirtPageNum (VirtPageNum_step vp)) (VirtAddr_from_usize stop)
               in (case page_slice (pte_ppn pte) (VirtAddr_page_offset start_va) end_va of
                    Inl e \<Rightarrow> Some (Inl e)
                  | Inr (a, n) \<Rightarrow>
                      let m = mem_write m a (map (\<lambda>k. kbytes (start_src + of_nat k)) [0..<n]);
                          dlt = usize_from_VirtAddr end_va - start
                      in copy_out_loop kbytes page_table stop (usize_from_VirtAddr end_va)
                           (start_src + dlt) m)
      else Some (Inr m))"

declare copy_out_loop.simps [code]

definition copy_out ::
  "(usize \<Rightarrow> u8) \<Rightarrow> usize \<Rightarrow> usize \<Rightarrow> usize \<Rightarrow> usize \<Rightarrow> ('z mm_state_scheme, unit) kernel" where
  "copy_out kbytes tok ptr src len =
     kpartial (\<lambda>s. map_option (map_sum id (\<lambda>m. ((), s\<lparr>pmem := m\<rparr>)))
       (copy_out_loop kbytes (from_token tok) (ptr + len) ptr src (pmem s)))"

partial_function (option) translate_str_loop ::
  "memory \<Rightarrow> PageTable \<Rightarrow> usize \<Rightarrow> string \<Rightarrow> string res option"
where
  "translate_str_loop m page_table a str =
     (case translate_va m page_table (VirtAddr_from_usize a) of
        None \<Rightarrow> Some (Inl UnwrapNone)
      | Some p \<Rightarrow>
          let ch = m (unat (pa p)) in
          if ch = 0 then Some (Inr str)
          else translate_str_loop m page_table (a + 1) (str @ [char_of_u8 ch]))"

declare translate_str_loop.simps [code]

definition translate_str :: "usize \<Rightarrow> usize \<Rightarrow> ('z mm_state_scheme, string) kernel" where
  "translate_str tok ptr =
     kpartial (\<lambda>s. map_option (map_sum id (\<lambda>str. (str, s)))
       (translate_str_loop (pmem s) (from_token tok) ptr []))"

section \<open>Byte-by-byte meaning\<close>

text \<open>The physical address of a byte of the low half of the address space.\<close>

definition user_addr :: "memory \<Rightarrow> PageTable \<Rightarrow> nat \<Rightarrow> nat option" where
  "user_addr m pt a =
     map_option (\<lambda>e. page_base (pte_ppn e) + a mod 4096)
       (pt_view m pt (VirtPageNum (of_nat (a div 4096))))"

lemma low_va:
  assumes "unat w < 2 ^ 38"
  shows "va (VirtAddr_from_usize w) = w" "usize_from_VirtAddr (VirtAddr w) = w"
proof -
  show "va (VirtAddr_from_usize w) = w"
    using assms by (intro unat_eqI) (simp add: unat_VirtAddr_from_usize)
  show "usize_from_VirtAddr (VirtAddr w) = w"
    using assms by (simp add: usize_from_VirtAddr_def width_defs word_le_nat_alt)
qed

lemma floor_low:
  assumes "unat w < 2 ^ 38"
  shows "VirtAddr_floor (VirtAddr_from_usize w) = VirtPageNum (of_nat (unat w div 4096))"
proof (rule vpn_eqI)
  have "unat w div 4096 < 2 ^ 64" using assms by simp
  then show "unat (vpn (VirtAddr_floor (VirtAddr_from_usize w))) =
      unat (vpn (VirtPageNum (of_nat (unat w div 4096))))"
    using assms by (simp add: unat_floor low_va unat_of_nat_small)
qed

lemma rest_of_page:
  fixes n :: nat
  shows "(n div 4096 + 1) * 4096 - n = 4096 - n mod 4096"
proof -
  have "(q + 1) * 4096 - n = 4096 - r" if "q * 4096 + r = n" for q r :: nat
    using that by auto
  then show ?thesis by (metis div_mult_mod_eq)
qed

text \<open>One round of the page loops: the rest of the page, or the rest of the range.\<close>

lemma page_round:
  assumes se: "unat start < unat stop" "unat stop < 2 ^ 38"
  defines "vp \<equiv> VirtAddr_floor (VirtAddr_from_usize start)"
  defines "end_va \<equiv> min (VirtAddr_from_VirtPageNum (VirtPageNum_step vp)) (VirtAddr_from_usize stop)"
  defines "nxt \<equiv> min ((unat start div 4096 + 1) * 4096) (unat stop)"
  shows "unat (usize_from_VirtAddr end_va) = nxt"
    and "page_slice p (VirtAddr_page_offset (VirtAddr_from_usize start)) end_va =
      Inr (page_base p + unat start mod 4096, nxt - unat start)"
    and "unat start < nxt" "nxt \<le> unat stop" "nxt \<le> (unat start div 4096 + 1) * 4096"
proof -
  have vp: "unat (vpn vp) = unat start div 4096"
    using se by (simp add: vp_def unat_floor low_va)
  have "unat start div 4096 < 2 ^ 26" using se by simp
  then have step: "unat (vpn (VirtPageNum_step vp)) = unat start div 4096 + 1"
    using vp unfolding VirtPageNum_step_def by (simp add: unat_add_small)
  have a: "unat (va (VirtAddr_from_VirtPageNum (VirtPageNum_step vp))) = (unat start div 4096 + 1) * 4096"
    using step \<open>unat start div 4096 < 2 ^ 26\<close> by (subst unat_va_of_vpn) auto
  have b: "unat (va (VirtAddr_from_usize stop)) = unat stop"
    using se by (simp add: low_va)
  have e: "unat (va end_va) = nxt"
    using a b by (auto simp: end_va_def nxt_def min_def less_eq_VirtAddr_def word_le_nat_alt)
  show n: "unat start < nxt" "nxt \<le> unat stop" "nxt \<le> (unat start div 4096 + 1) * 4096"
    using se by (auto simp: nxt_def min_def) 
  have "usize_from_VirtAddr end_va = va end_va"
    using e n(2) se(2) low_va(2) [of "va end_va"] by simp
  then show "unat (usize_from_VirtAddr end_va) = nxt" using e by simp
  have off: "unat (VirtAddr_page_offset (VirtAddr_from_usize start)) = unat start mod 4096"
    using se by (simp add: unat_page_offset low_va)
  have hi: "unat (VirtAddr_page_offset end_va) = nxt mod 4096"
    by (simp add: unat_page_offset e)
  have "unat start div 4096 * 4096 + unat start mod 4096 = unat start" by simp
  show "page_slice p (VirtAddr_page_offset (VirtAddr_from_usize start)) end_va =
      Inr (page_base p + unat start mod 4096, nxt - unat start)"
  proof (cases "nxt = (unat start div 4096 + 1) * 4096")
    case True
    then have "nxt mod 4096 = 0" by simp
    moreover have "nxt - unat start = 4096 - unat start mod 4096"
      using True rest_of_page by simp
    ultimately show ?thesis
      using off hi by (simp add: page_slice_def unat_0_iff [symmetric] del: unat_0_iff)
  next
    case False
    have "nxt < (unat start div 4096 + 1) * 4096" using False n(3) by simp
    with n(1) have "nxt div 4096 = unat start div 4096" 
      by (metis Suc_eq_plus1 div_le_mono le_antisym less_Suc_eq_le less_imp_le_nat less_mult_imp_div_less)
    then have "nxt = unat start div 4096 * 4096 + nxt mod 4096" by (metis div_mult_mod_eq)
    with n(1) have "unat start mod 4096 < nxt mod 4096" "nxt - unat start = nxt mod 4096 - unat start mod 4096"
      using \<open>unat start div 4096 * 4096 + unat start mod 4096 = unat start\<close> by linarith+
    then show ?thesis
      using off hi by (auto simp: page_slice_def Let_def unat_0_iff [symmetric] word_le_nat_alt simp del: unat_0_iff)
  qed
qed


lemma pt_view_translate: "pt_view m pt v = Some e \<Longrightarrow> pt_translate m pt v = Some e"
  by (auto simp: pt_view_def split: option.splits if_splits)

text \<open>The addresses of one chunk, byte by byte.\<close>

lemma user_addr_chunk:
  assumes e: "pt_view m pt (VirtPageNum (of_nat (s div 4096))) = Some e"
    and n: "s < nxt" "nxt \<le> (s div 4096 + 1) * 4096"
  shows "map (\<lambda>a. the (user_addr m pt a)) [s..<nxt] =
    [page_base (pte_ppn e) + s mod 4096..<page_base (pte_ppn e) + s mod 4096 + (nxt - s)]"
proof (rule nth_equalityI)
  fix i assume "i < length (map (\<lambda>a. the (user_addr m pt a)) [s..<nxt])"
  then have i: "i < nxt - s" by simp
  have s: "s = s div 4096 * 4096 + s mod 4096" by simp
  have "i < 4096 - s mod 4096" using i n(2) rest_of_page [of s] by linarith
  then have lt: "s mod 4096 + i < 4096" by linarith
  have "s + i = s div 4096 * 4096 + (s mod 4096 + i)" using s by linarith
  then have "(s + i) div 4096 = s div 4096" "(s + i) mod 4096 = s mod 4096 + i"
    using lt by (metis div_mult_self3 div_less add.right_neutral zero_neq_numeral,
      metis mod_mult_self3 mod_less)
  with e i show "map (\<lambda>a. the (user_addr m pt a)) [s..<nxt] ! i =
      [page_base (pte_ppn e) + s mod 4096..<page_base (pte_ppn e) + s mod 4096 + (nxt - s)] ! i"
    by (simp add: user_addr_def)
qed simp

lemma byte_buffer_loop_spec:
  assumes "unat stop < 2 ^ 38" "unat start \<le> unat stop"
    and "\<And>a. unat start \<le> a \<Longrightarrow> a < unat stop \<Longrightarrow> user_addr m pt a \<noteq> None"
  shows "\<exists>segs. byte_buffer_loop m pt stop start v = Some (Inr (v @ segs)) \<and>
    concat (map (\<lambda>(p, n). [p..<p + n]) segs) =
      map (\<lambda>a. the (user_addr m pt a)) [unat start..<unat stop]"
  using assms(2,3)
proof (induction "unat stop - unat start" arbitrary: start v rule: less_induct)
  case less
  show ?case
  proof (cases "unat start < unat stop")
    case False
    then show ?thesis
      using less.prems by (simp add: byte_buffer_loop.simps word_less_nat_alt)
  next
    case True
    let ?vp = "VirtAddr_floor (VirtAddr_from_usize start)"
    let ?end_va = "min (VirtAddr_from_VirtPageNum (VirtPageNum_step ?vp)) (VirtAddr_from_usize stop)"
    let ?next = "usize_from_VirtAddr ?end_va"
    note rd = page_round [OF True assms(1)]
    have vp: "?vp = VirtPageNum (of_nat (unat start div 4096))"
      using True assms(1) by (intro floor_low) linarith
    obtain e where e: "pt_view m pt (VirtPageNum (of_nat (unat start div 4096))) = Some e"
      using less.prems(2) [of "unat start"] True by (auto simp: user_addr_def)
    let ?x = "(page_base (pte_ppn e) + unat start mod 4096, unat ?next - unat start)"
    have n: "unat start < unat ?next" "unat ?next \<le> unat stop" "unat ?next \<le> (unat start div 4096 + 1) * 4096"
      using rd by simp_all
    have "\<exists>segs. byte_buffer_loop m pt stop ?next (v @ [?x]) = Some (Inr ((v @ [?x]) @ segs)) \<and>
        concat (map (\<lambda>(p, n). [p..<p + n]) segs) =
          map (\<lambda>a. the (user_addr m pt a)) [unat ?next..<unat stop]"
      by (rule less.hyps) (use n less.prems in auto)
    then obtain segs where segs:
      "byte_buffer_loop m pt stop ?next (v @ [?x]) = Some (Inr (v @ ?x # segs))"
      "concat (map (\<lambda>(p, n). [p..<p + n]) segs) =
          map (\<lambda>a. the (user_addr m pt a)) [unat ?next..<unat stop]" by auto
    have "byte_buffer_loop m pt stop start v = byte_buffer_loop m pt stop ?next (v @ [?x])"
      using True pt_view_translate [OF e] rd(2) [of "pte_ppn e"] rd(1)
      by (subst byte_buffer_loop.simps) (simp add: word_less_nat_alt Let_def vp)
    moreover have "[unat start..<unat stop] = [unat start..<unat ?next] @ [unat ?next..<unat stop]"
      using n by (metis le_add_diff_inverse less_imp_le_nat upt_add_eq_append)
    ultimately show ?thesis
      using segs user_addr_chunk [OF e n(1,3)] by (intro exI [of _ "?x # segs"]) simp
  qed
qed

section \<open>Copying out\<close>

lemma pt_translate_same_root: "root_ppn pt = root_ppn pt' \<Longrightarrow> pt_translate m pt = pt_translate m pt'"
  by (simp add: fun_eq_iff pt_translate_def find_pte_eq)

text \<open>Writing a list of bytes to a list of addresses, in order.\<close>

definition scatter :: "memory \<Rightarrow> nat list \<Rightarrow> u8 list \<Rightarrow> memory" where
  "scatter m addrs bytes = foldl (\<lambda>m (a, b). m(a := b)) m (zip addrs bytes)"

lemma scatter_append:
  "length as = length xs \<Longrightarrow> scatter m (as @ bs) (xs @ ys) = scatter (scatter m as xs) bs ys"
  by (simp add: scatter_def)

lemma scatter_other: "x \<notin> set as \<Longrightarrow> scatter m as bs x = m x"
proof (induction as arbitrary: m bs)
  case (Cons a as)
  then show ?case by (cases bs) (auto simp: scatter_def)
qed (simp add: scatter_def)

lemma scatter_nth:
  assumes "distinct as" "k < length as" "length bs = length as"
  shows "scatter m as bs (as ! k) = bs ! k"
  using assms
proof (induction as arbitrary: m bs k)
  case (Cons a as)
  then obtain b bs' where bs: "bs = b # bs'" by (cases bs) auto
  have s: "scatter m (a # as) bs = scatter (m(a := b)) as bs'" by (simp add: scatter_def bs)
  show ?case
  proof (cases k)
    case 0
    with Cons.prems s bs scatter_other [of a as "m(a := b)" bs'] show ?thesis by simp
  next
    case (Suc j)
    with Cons.prems s bs Cons.IH [of j bs'] show ?thesis by simp
  qed
qed simp

lemma mem_write_scatter: "mem_write m a bs = scatter m [a..<a + length bs] bs"
proof
  fix x
  show "mem_write m a bs x = scatter m [a..<a + length bs] bs x"
  proof (cases "a \<le> x \<and> x < a + length bs")
    case True
    then have "[a..<a + length bs] ! (x - a) = x" "x - a < length bs" by auto
    with scatter_nth [of "[a..<a + length bs]" "x - a" bs m] True show ?thesis
      by (simp add: mem_write_def) 
  next
    case False
    then show ?thesis by (auto simp: mem_write_def scatter_other)
  qed
qed


text \<open>A write inside one page leaves every other page alone.\<close>

lemma bytes_write_other:
  assumes "unat (ppn p) < 2 ^ 44" "unat (ppn q) < 2 ^ 44" "q \<noteq> p" "off + length bs \<le> 4096"
  shows "get_bytes_array (mem_write m (page_base p + off) bs) q = get_bytes_array m q"
proof -
  from page_base_less [OF assms(1,2)] assms(3)
  have "page_base p + 4096 \<le> page_base q \<or> page_base q + 4096 \<le> page_base p" by blast
  with assms(4) show ?thesis
    unfolding get_bytes_array_def by (intro mem_read_write_disjoint) auto
qed

lemma user_addr_stable:
  "pt_view m' pt = pt_view m pt \<Longrightarrow> user_addr m' pt = user_addr m pt"
  by (simp add: fun_eq_iff user_addr_def)

text \<open>Byte \<open>a\<close> is mapped to a frame outside \<open>F\<close>.\<close>

definition user_page :: "memory \<Rightarrow> PageTable \<Rightarrow> PhysPageNum set \<Rightarrow> nat \<Rightarrow> bool" where
  "user_page m pt F a \<longleftrightarrow>
     (\<exists>e. pt_view m pt (VirtPageNum (of_nat (a div 4096))) = Some e \<and> pte_ppn e \<notin> F)"

lemma map_offset_split:
  assumes "n \<le> (l :: nat)"
  shows "map (\<lambda>k. f (w + of_nat k)) [0..<l] =
    map (\<lambda>k. f (w + of_nat k)) [0..<n] @ map (\<lambda>k. f (w + of_nat n + of_nat k :: usize)) [0..<l - n]"
  using assms by (intro nth_equalityI) (auto simp: nth_append ac_simps)

lemma copy_out_loop_spec:
  assumes "unat stop < 2 ^ 38" "unat start \<le> unat stop" "pt_wf m (root_ppn pt) F"
    and "\<And>a. unat start \<le> a \<Longrightarrow> a < unat stop \<Longrightarrow> user_page m pt F a"
  shows "copy_out_loop kb pt stop start src m = Some (Inr
      (scatter m (map (\<lambda>a. the (user_addr m pt a)) [unat start..<unat stop])
        (map (\<lambda>k. kb (src + of_nat k)) [0..<unat stop - unat start])))"
  using assms(2-)
proof (induction "unat stop - unat start" arbitrary: start src m rule: less_induct)
  case less
  show ?case
  proof (cases "unat start < unat stop")
    case False
    then show ?thesis
      using less.prems by (simp add: copy_out_loop.simps word_less_nat_alt scatter_def)
  next
    case True
    let ?vp = "VirtAddr_floor (VirtAddr_from_usize start)"
    let ?end_va = "min (VirtAddr_from_VirtPageNum (VirtPageNum_step ?vp)) (VirtAddr_from_usize stop)"
    let ?next = "usize_from_VirtAddr ?end_va"
    note rd = page_round [OF True assms(1)]
    have vp: "?vp = VirtPageNum (of_nat (unat start div 4096))"
      using True assms(1) by (intro floor_low) linarith
    obtain e where e: "pt_view m pt (VirtPageNum (of_nat (unat start div 4096))) = Some e" "pte_ppn e \<notin> F"
      using less.prems(3) [of "unat start"] True by (auto simp: user_page_def)
    let ?n = "unat ?next - unat start"
    let ?bs = "map (\<lambda>k. kb (src + of_nat k)) [0..<?n]"
    let ?a = "page_base (pte_ppn e) + unat start mod 4096"
    let ?m = "mem_write m ?a ?bs"
    let ?ua = "\<lambda>a. the (user_addr m pt a)"
    have n: "unat start < unat ?next" "unat ?next \<le> unat stop" "unat ?next \<le> (unat start div 4096 + 1) * 4096"
      using rd by simp_all
    have w: "?next - start = of_nat ?n"
      using n by (intro unat_eqI) (simp add: unat_sub_small unat_of_nat_small)
    have "unat start mod 4096 + ?n \<le> 4096"
      using n(3) rest_of_page [of "unat start"] by linarith
    then have same: "get_bytes_array ?m p = get_bytes_array m p" if "p \<in> F" for p
      using that e(2) less.prems(2) unfolding pt_wf_def
      by (intro bytes_write_other pte_ppn_bound) auto
    note st = pt_stable [OF less.prems(2) same]
    have "copy_out_loop kb pt stop ?next (src + of_nat ?n) ?m = Some (Inr
      (scatter ?m (map (\<lambda>a. the (user_addr ?m pt a)) [unat ?next..<unat stop])
        (map (\<lambda>k. kb (src + of_nat ?n + of_nat k)) [0..<unat stop - unat ?next])))"
      by (rule less.hyps) (use n less.prems st in \<open>auto simp: user_page_def\<close>)
    moreover have "copy_out_loop kb pt stop start src m =
        copy_out_loop kb pt stop ?next (src + of_nat ?n) ?m"
      using True pt_view_translate [OF e(1)] rd(2) [of "pte_ppn e"] rd(1) w
      by (subst copy_out_loop.simps) (simp add: word_less_nat_alt Let_def vp)
    moreover have "?m = scatter m (map ?ua [unat start..<unat ?next]) ?bs"
      using user_addr_chunk [OF e(1) n(1,3)] by (simp add: mem_write_scatter)
    moreover have "[unat start..<unat stop] = [unat start..<unat ?next] @ [unat ?next..<unat stop]"
      using n by (metis le_add_diff_inverse less_imp_le_nat upt_add_eq_append)
    moreover have "map (\<lambda>k. kb (src + of_nat k)) [0..<unat stop - unat start] =
      ?bs @ map (\<lambda>k. kb (src + of_nat ?n + of_nat k)) [0..<unat stop - unat ?next]"
      using n map_offset_split [of ?n "unat stop - unat start" kb src] by simp
    ultimately show ?thesis
      using user_addr_stable [OF st(2)] by (simp add: scatter_append)
  qed
qed

lemma translate_va_user:
  assumes "user_addr m pt (unat a) = Some x" "unat a < 2 ^ 38"
  shows "\<exists>p. translate_va m pt (VirtAddr_from_usize a) = Some p \<and> unat (pa p) = x"
proof -
  from assms(1) obtain e where e: "pt_view m pt (VirtPageNum (of_nat (unat a div 4096))) = Some e"
    and x: "x = page_base (pte_ppn e) + unat a mod 4096" by (auto simp: user_addr_def)
  from e pt_view_translate have "pt_translate m pt (VirtPageNum (of_nat (unat a div 4096))) = Some e" by blast
  then obtain z where z: "find_pte m pt (VirtPageNum (of_nat (unat a div 4096))) = Some z" "read_pte m z = e"
    by (auto simp: pt_translate_def)
  have b: "unat (ppn (pte_ppn e)) < 2 ^ 44" by (rule pte_ppn_bound)
  then have pb: "page_base (pte_ppn e) = unat (ppn (pte_ppn e)) * 4096" by (simp add: page_base_eq)
  have u: "unat (usize_from_PhysAddr (PhysAddr_from_PhysPageNum (pte_ppn e))) = unat (ppn (pte_ppn e)) * 4096"
    using b by (simp add: usize_from_PhysAddr_def PhysAddr_from_PhysPageNum_def PAGE_SIZE_BITS_def unat_push_bit_small)
  have o: "unat (VirtAddr_page_offset (VirtAddr_from_usize a)) = unat a mod 4096"
    using assms(2) by (simp add: unat_page_offset low_va)
  have "unat (ppn (pte_ppn e)) * 4096 + unat a mod 4096 < 2 ^ 56" using b by simp
  then have "unat (pa (PhysAddr_from_usize (usize_from_PhysAddr (PhysAddr_from_PhysPageNum (pte_ppn e)) +
      VirtAddr_page_offset (VirtAddr_from_usize a)))) = x"
    using u o x pb by (simp add: unat_PhysAddr_from_usize unat_add_small)
  then show ?thesis
    using z floor_low [OF assms(2)] by (simp add: translate_va_def Let_def)
qed

lemma translate_str_loop_spec:
  assumes "unat a + length cs < 2 ^ 38"
    and "\<And>k. k < length cs \<Longrightarrow> \<exists>x. user_addr m pt (unat a + k) = Some x \<and> m x = u8_of_char (cs ! k) \<and> m x \<noteq> 0"
    and "\<exists>x. user_addr m pt (unat a + length cs) = Some x \<and> m x = 0"
  shows "translate_str_loop m pt a str = Some (Inr (str @ cs))"
  using assms
proof (induction cs arbitrary: a str)
  case Nil
  then obtain x where "user_addr m pt (unat a) = Some x" "m x = 0" by auto
  with translate_va_user [OF this(1)] Nil.prems(1) show ?case
    by (subst translate_str_loop.simps) auto
next
  case (Cons c cs)
  then obtain x where x: "user_addr m pt (unat a) = Some x" "m x = u8_of_char c" "m x \<noteq> 0"
    by (metis add_0_right length_greater_0_conv list.distinct(1) nth_Cons_0)
  have a1: "unat (a + 1) = unat a + 1" using Cons.prems(1) by (simp add: unat_add_small)
  have c: "char_of_u8 (m x) = c" using x(2) by simp
  have "translate_str_loop m pt (a + 1) (str @ [c]) = Some (Inr ((str @ [c]) @ cs))"
    using Cons.prems(1) Cons.prems(2) [of "Suc _"] Cons.prems(3) a1
    by (intro Cons.IH) auto
  with translate_va_user [OF x(1)] Cons.prems(1) x c show ?case
    by (subst translate_str_loop.simps) (auto simp: Let_def)
qed

section \<open>What the copies do\<close>

lemma pt_ok_root: "pt_ok lo s pt \<Longrightarrow> unat (ppn (root_ppn pt)) < 2 ^ 44"
  using pt_ok_table(2) [of lo s pt "[]"] by (simp add: good_path_def)

lemma user_addr_same_root:
  assumes "root_ppn pt = root_ppn pt'"
  shows "user_addr m pt = user_addr m pt'"
  unfolding user_addr_def pt_view_same_root [OF assms] ..

lemma scatter_tables:
  assumes F: "\<And>p. p \<in> F \<Longrightarrow> unat (ppn p) < 2 ^ 44"
    and up: "\<And>a. a \<in> A \<Longrightarrow> user_page m pt F a" and p: "p \<in> F"
    and as: "set as = (\<lambda>a. the (user_addr m pt a)) ` A"
  shows "get_bytes_array (scatter m' as bs) p = get_bytes_array m' p"
proof -
  have "scatter m' as bs x = m' x" if x: "page_base p \<le> x" "x < page_base p + 4096" for x
  proof (rule scatter_other, rule notI)
    assume "x \<in> set as"
    then obtain a where a: "a \<in> A" "x = the (user_addr m pt a)" using as by blast
    obtain e where e: "pt_view m pt (VirtPageNum (of_nat (a div 4096))) = Some e" "pte_ppn e \<notin> F"
      using up [OF a(1)] by (auto simp: user_page_def)
    then have xe: "x = page_base (pte_ppn e) + a mod 4096" using a(2) by (simp add: user_addr_def)
    have "pte_ppn e \<noteq> p" using e(2) p by blast
    with page_base_less [OF F [OF p] pte_ppn_bound [of e]]
    have "page_base p + 4096 \<le> page_base (pte_ppn e) \<or> page_base (pte_ppn e) + 4096 \<le> page_base p"
      by blast
    moreover have "a mod 4096 < 4096" by simp
    ultimately show False using x xe by linarith
  qed
  then show ?thesis unfolding get_bytes_array_def by (intro mem_read_cong) auto
qed

text \<open>Two user pages of the demonstration machine, both showing frame 2.\<close>

definition demo_pte :: PageTableEntry where
  "demo_pte = pte_new (PhysPageNum 2) ((PTE_R OR PTE_U) OR PTE_V)"

definition demo_map :: "(mm_state, PageTable) kernel" where
  "demo_map = kbind (PageTable_map (VirtPageNum 0x10) (PhysPageNum 2) (PTE_R OR PTE_U) demo_pt)
     (PageTable_map (VirtPageNum 0x11) (PhysPageNum 2) (PTE_R OR PTE_U))"

definition demo_mapped :: "PageTable \<Rightarrow> mm_state \<Rightarrow> bool" where
  "demo_mapped pt s \<longleftrightarrow> pt_ok 2 s pt \<and> PhysPageNum 2 \<notin> pt_ppns pt \<and>
     pt_view (pmem s) pt (VirtPageNum 0x10) = Some demo_pte \<and>
     pt_view (pmem s) pt (VirtPageNum 0x11) = Some demo_pte \<and>
     get_bytes_array (pmem s) (PhysPageNum 2) = get_bytes_array (pmem demo_mm) (PhysPageNum 2)"

lemma pt_evolve_outside:
  assumes "pt_evolve lo s pt s' pt'" "p \<in> fa_live lo (FRAME_ALLOCATOR s)" "p \<notin> pt_ppns pt"
    "unat (ppn p) < 2 ^ 44"
  shows "p \<notin> pt_ppns pt'" "get_bytes_array (pmem s') p = get_bytes_array (pmem s) p"
    "p \<in> fa_live lo (FRAME_ALLOCATOR s')"
proof -
  from assms(1) obtain fs where fs: "pt_frames pt' = pt_frames pt @ fs"
    "fa_live lo (FRAME_ALLOCATOR s') = fa_live lo (FRAME_ALLOCATOR s) \<union> tracker_ppn ` set fs"
    "fa_live lo (FRAME_ALLOCATOR s) \<inter> tracker_ppn ` set fs = {}"
    unfolding pt_evolve_def frames_added_def by blast
  then show "p \<in> fa_live lo (FRAME_ALLOCATOR s')" using assms(2) by blast
  have "p \<notin> tracker_ppn ` set fs" using fs(3) assms(2) by blast
  then show n: "p \<notin> pt_ppns pt'" using assms(3) by (simp add: pt_ppns_def fs(1) image_Un)
  show "get_bytes_array (pmem s') p = get_bytes_array (pmem s) p"
    using assms(1) pages_keptD [OF _ assms(4) n] by (simp add: pt_evolve_def)
qed

lemma demo_map_ok: "wp demo_map demo_mapped demo_mm"
  unfolding demo_map_def wpe_kbind
proof (rule wpe_mono [OF PageTable_map_spec [OF demo_ok(1)]])
  fix pt s
  assume 1: "pt_map_post 2 (VirtPageNum 0x10) (PhysPageNum 2) (PTE_R OR PTE_U) demo_mm demo_pt s pt"
  then have ok: "pt_ok 2 s pt" and ev: "pt_evolve 2 demo_mm demo_pt s pt"
    and free: "fa_free (FRAME_ALLOCATOR s) \<ge> 3"
    and view: "pt_view (pmem s) pt (VirtPageNum 0x10) = Some demo_pte"
      "pt_view (pmem s) pt (VirtPageNum 0x11) = None"
    by (simp_all add: pt_map_post_def pt_evolve_def demo_ok(2,3) demo_pte_def indexes_eq)
  have "PhysPageNum 2 \<in> fa_live 2 (FRAME_ALLOCATOR demo_mm)" "PhysPageNum 2 \<notin> pt_ppns demo_pt"
    by (simp_all add: demo_mm_def demo_pt_def fa_live_def pt_ppns_def)
  note o1 = pt_evolve_outside [OF ev this, simplified]
  show "wp (PageTable_map (VirtPageNum 0x11) (PhysPageNum 2) (PTE_R OR PTE_U) pt) demo_mapped s"
  proof (rule wpe_mono [OF PageTable_map_spec [OF ok]])
    fix pt' s'
    assume 2: "pt_map_post 2 (VirtPageNum 0x11) (PhysPageNum 2) (PTE_R OR PTE_U) s pt s' pt'"
    then have ev2: "pt_evolve 2 s pt s' pt'" by (simp add: pt_map_post_def)
    from pt_evolve_outside [OF this o1(3) o1(1)] 2 o1(2) view show "demo_mapped pt' s'"
      by (simp add: demo_mapped_def pt_map_post_def pt_evolve_def demo_pte_def indexes_eq)
  qed (use free view in simp)
qed (simp add: demo_ok(2,3))

lemma demo_addr:
  assumes "demo_mapped pt s" "0x10000 \<le> a" "a < 0x12000"
  shows "user_addr (pmem s) pt a = Some (0x2000 + a mod 4096)"
    "user_page (pmem s) pt (pt_ppns pt) a"
proof -
  have "pte_ppn demo_pte = PhysPageNum 2" by (simp add: demo_pte_def pte_ppn_new)
  moreover have "a div 4096 = 0x10 \<or> a div 4096 = 0x11" using assms(2,3) by auto
  ultimately show "user_addr (pmem s) pt a = Some (0x2000 + a mod 4096)"
    "user_page (pmem s) pt (pt_ppns pt) a"
    using assms(1) by (auto simp: user_addr_def user_page_def demo_mapped_def page_base_eq)
qed

lemma demo_byte:
  assumes "demo_mapped pt s" "k < 4096"
  shows "pmem s (0x2000 + k) = pmem demo_mm (0x2000 + k)"
proof -
  have "get_bytes_array (pmem s) (PhysPageNum 2) ! k = get_bytes_array (pmem demo_mm) (PhysPageNum 2) ! k"
    using assms(1) by (simp add: demo_mapped_def)
  then show ?thesis using assms(2) by (simp add: get_bytes_array_def nth_mem_read page_base_eq)
qed

text \<open>C9: for a buffer that lies in the low half of the address space and is mapped
  throughout, \<open>translated_byte_buffer\<close> ends without a panic, and the slices it returns
  are, byte for byte and in order, the physical addresses of the buffer.\<close>

theorem byte_buffer_correct:
  assumes "pt_ok lo s pt" "unat ptr + unat len < 2 ^ 38"
    and "\<And>a. unat ptr \<le> a \<Longrightarrow> a < unat ptr + unat len \<Longrightarrow> user_addr (pmem s) pt a \<noteq> None"
  shows "wp (translated_byte_buffer (pt_token pt) ptr len)
    (\<lambda>segs s'. s' = s \<and> concat (map (\<lambda>(p, n). [p..<p + n]) segs) =
       map (\<lambda>a. the (user_addr (pmem s) pt a)) [unat ptr..<unat ptr + unat len]) s"
proof -
  let ?pt = "from_token (pt_token pt)"
  have root: "root_ppn ?pt = root_ppn pt" by (rule from_token_pt_token [OF pt_ok_root [OF assms(1)]])
  then have ua: "user_addr (pmem s) ?pt = user_addr (pmem s) pt" by (rule user_addr_same_root)
  have stop: "unat (ptr + len) = unat ptr + unat len" using assms(2) by (simp add: unat_add_small)
  have "\<exists>segs. byte_buffer_loop (pmem s) ?pt (ptr + len) ptr [] = Some (Inr ([] @ segs)) \<and>
    concat (map (\<lambda>(p, n). [p..<p + n]) segs) =
      map (\<lambda>a. the (user_addr (pmem s) ?pt a)) [unat ptr..<unat (ptr + len)]"
    by (rule byte_buffer_loop_spec) (use assms(2,3) stop ua in auto)
  then show ?thesis
    by (auto simp: translated_byte_buffer_def kpartial_def wpe_def ua stop)
qed

theorem byte_buffer_correct_witness:
  "wp (kbind demo_map (\<lambda>pt. translated_byte_buffer (pt_token pt) 0x10ffe 4))
     (\<lambda>segs _. concat (map (\<lambda>(p, n). [p..<p + n]) segs) = [0x2ffe, 0x2fff, 0x2000, 0x2001]) demo_mm"
  unfolding wpe_kbind
proof (rule wpe_mono [OF demo_map_ok])
  fix pt s assume d: "demo_mapped pt s"
  have "wp (translated_byte_buffer (pt_token pt) 0x10ffe 4)
    (\<lambda>segs s'. s' = s \<and> concat (map (\<lambda>(p, n). [p..<p + n]) segs) =
       map (\<lambda>a. the (user_addr (pmem s) pt a)) [unat (0x10ffe :: usize)..<unat (0x10ffe :: usize) + unat (4 :: usize)]) s"
    by (rule byte_buffer_correct [of 2]) (use d demo_addr(1) [OF d] in \<open>auto simp: demo_mapped_def\<close>)
  then show "wp (translated_byte_buffer (pt_token pt) 0x10ffe 4)
    (\<lambda>segs _. concat (map (\<lambda>(p, n). [p..<p + n]) segs) = [0x2ffe, 0x2fff, 0x2000, 0x2001]) s"
    by (rule wpe_post) (simp add: upt_rec demo_addr(1) [OF d])
qed simp

text \<open>C11: \<open>copy_out\<close> into a mapped buffer of the low half whose frames are not page
  tables writes the given bytes to the physical addresses of the buffer, in order, and
  changes nothing else; the table stays well-formed and maps the same pages.\<close>

theorem copy_out_correct:
  assumes ok: "pt_ok lo s pt" and b: "unat ptr + unat len < 2 ^ 38"
    and up: "\<And>a. unat ptr \<le> a \<Longrightarrow> a < unat ptr + unat len \<Longrightarrow>
      user_page (pmem s) pt (pt_ppns pt) a"
  shows "wp (copy_out kb (pt_token pt) ptr src len)
    (\<lambda>_ s'. pmem s' = scatter (pmem s)
         (map (\<lambda>a. the (user_addr (pmem s) pt a)) [unat ptr..<unat ptr + unat len])
         (map (\<lambda>k. kb (src + of_nat k)) [0..<unat len]) \<and>
       pt_ok lo s' pt \<and> pt_view (pmem s') pt = pt_view (pmem s) pt) s"
proof -
  let ?pt = "from_token (pt_token pt)"
  have root: "root_ppn ?pt = root_ppn pt" by (rule from_token_pt_token [OF pt_ok_root [OF ok]])
  then have view: "pt_view m ?pt = pt_view m pt" for m by (rule pt_view_same_root)
  then have ua: "user_addr m ?pt = user_addr m pt" for m by (simp add: fun_eq_iff user_addr_def)
  have stop: "unat (ptr + len) = unat ptr + unat len" using b by (simp add: unat_add_small)
  let ?as = "map (\<lambda>a. the (user_addr (pmem s) pt a)) [unat ptr..<unat ptr + unat len]"
  let ?m = "scatter (pmem s) ?as (map (\<lambda>k. kb (src + of_nat k)) [0..<unat len])"
  have wf: "pt_wf (pmem s) (root_ppn pt) (pt_ppns pt)" using ok by (simp add: pt_ok_def)
  have "copy_out_loop kb ?pt (ptr + len) ptr src (pmem s) = Some (Inr
      (scatter (pmem s) (map (\<lambda>a. the (user_addr (pmem s) ?pt a)) [unat ptr..<unat (ptr + len)])
        (map (\<lambda>k. kb (src + of_nat k)) [0..<unat (ptr + len) - unat ptr])))"
    by (rule copy_out_loop_spec [where F = "pt_ppns pt"])
       (use b stop wf up root in \<open>auto simp: user_page_def view\<close>)
  then have run: "copy_out_loop kb ?pt (ptr + len) ptr src (pmem s) = Some (Inr ?m)"
    by (simp add: ua stop)
  have "get_bytes_array ?m p = get_bytes_array (pmem s) p" if "p \<in> pt_ppns pt" for p
    by (rule scatter_tables [where A = "{unat ptr..<unat ptr + unat len}", OF _ _ that])
       (use wf up in \<open>auto simp: pt_wf_def\<close>)
  note st = pt_stable [OF wf this]
  show ?thesis
    using run st ok by (simp add: copy_out_def kpartial_def wpe_def pt_ok_def)
qed

theorem copy_out_correct_witness:
  "wp (kbind demo_map (\<lambda>pt. copy_out (\<lambda>a. ucast a) (pt_token pt) 0x10ffe 5 4))
     (\<lambda>_ s. map (pmem s) [0x2ffe, 0x2fff, 0x2000, 0x2001] = [5, 6, 7, 8]) demo_mm"
  unfolding wpe_kbind
proof (rule wpe_mono [OF demo_map_ok])
  fix pt s assume d: "demo_mapped pt s"
  have "wp (copy_out (\<lambda>a. ucast a) (pt_token pt) 0x10ffe 5 4)
    (\<lambda>_ s'. pmem s' = scatter (pmem s)
         (map (\<lambda>a. the (user_addr (pmem s) pt a)) [unat (0x10ffe :: usize)..<unat (0x10ffe :: usize) + unat (4 :: usize)])
         (map (\<lambda>k. ucast (5 + of_nat k :: usize)) [0..<unat (4 :: usize)]) \<and>
       pt_ok 2 s' pt \<and> pt_view (pmem s') pt = pt_view (pmem s) pt) s"
    by (rule copy_out_correct) (use d demo_addr(2) [OF d] in \<open>auto simp: demo_mapped_def\<close>)
  then show "wp (copy_out (\<lambda>a. ucast a) (pt_token pt) 0x10ffe 5 4)
     (\<lambda>_ s. map (pmem s) [0x2ffe, 0x2fff, 0x2000, 0x2001] = [5, 6, 7, 8]) s"
    by (rule wpe_post) (simp add: upt_rec demo_addr(1) [OF d] scatter_def)
qed simp



end
