(* ===== verification/Memory_Set.thy ===== *)
theory Memory_Set
  imports User_Memory
begin

text \<open>
  \<^verbatim>\<open>mm/memory_set.rs\<close>: address spaces. A \<open>MapArea\<close> is a range of pages with the frames
  it owns, a \<open>MemorySet\<close> a page table with its areas. The symbols of the linker script
  are a parameter (\<open>Linker\<close>), and so is what the crate \<^verbatim>\<open>xmas_elf\<close> reports about
  an executable (\<open>ElfFile\<close>).
\<close>

section \<open>Areas\<close>

datatype MapType = Identical | Framed

type_synonym MapPermission = u8

definition MP_R :: MapPermission where "MP_R = push_bit 1 1"
definition MP_W :: MapPermission where "MP_W = push_bit 2 1"
definition MP_X :: MapPermission where "MP_X = push_bit 3 1"
definition MP_U :: MapPermission where "MP_U = push_bit 4 1"

record MapArea =
  vpn_range :: VPNRange
  data_frames :: "(VirtPageNum \<times> FrameTracker) list"
  map_type :: MapType
  map_perm :: MapPermission

definition MapArea_new :: "VirtAddr \<Rightarrow> VirtAddr \<Rightarrow> MapType \<Rightarrow> MapPermission \<Rightarrow> MapArea res" where
  "MapArea_new start_va end_va ty perm =
     (case SimpleRange_new (VirtAddr_floor start_va) (VirtAddr_ceil end_va) of
        Inl e \<Rightarrow> Inl e
      | Inr rg \<Rightarrow> Inr \<lparr>vpn_range = rg, data_frames = [], map_type = ty, map_perm = perm\<rparr>)"

text \<open>The value a \<^verbatim>\<open>BTreeMap\<close> operation pushes out is dropped, which frees its frame.\<close>

definition drop_old :: "FrameTracker option \<Rightarrow> ('z mm_state_scheme, unit) kernel" where
  "drop_old r = (case r of None \<Rightarrow> kret () | Some f \<Rightarrow> FrameTracker_drop f)"

definition map_one ::
  "VirtPageNum \<Rightarrow> MapArea \<times> PageTable \<Rightarrow> ('z mm_state_scheme, MapArea \<times> PageTable) kernel" where
  "map_one v = (\<lambda>(area, page_table).
     kbind
       (case map_type area of
          Identical \<Rightarrow> kret (PhysPageNum (vpn v), area)
        | Framed \<Rightarrow>
            kbind frame_alloc (\<lambda>r. kbind (kunwrap r) (\<lambda>frame.
            kthen (drop_old (map_of (data_frames area) v))
              (kret (tracker_ppn frame,
                 area\<lparr>data_frames := bt_insert v frame (data_frames area)\<rparr>)))))
     (\<lambda>(p, area).
     kbind (kunwrap (PTEFlags_from_bits (map_perm area))) (\<lambda>flags.
     kbind (PageTable_map v p flags page_table) (\<lambda>page_table.
     kret (area, page_table)))))"

definition unmap_one ::
  "VirtPageNum \<Rightarrow> MapArea \<times> PageTable \<Rightarrow> ('z mm_state_scheme, MapArea \<times> PageTable) kernel" where
  "unmap_one v = (\<lambda>(area, page_table).
     kbind
       (if map_type area = Framed then
          kthen (drop_old (map_of (data_frames area) v))
            (kret (area\<lparr>data_frames := bt_remove v (data_frames area)\<rparr>))
        else kret area)
     (\<lambda>area. kthen (PageTable_unmap v page_table) (kret (area, page_table))))"

definition MapArea_map ::
  "MapArea \<Rightarrow> PageTable \<Rightarrow> ('z mm_state_scheme, MapArea \<times> PageTable) kernel" where
  "MapArea_map area page_table = kfold map_one (vpns (vpn_range area)) (area, page_table)"

definition MapArea_unmap ::
  "MapArea \<Rightarrow> PageTable \<Rightarrow> ('z mm_state_scheme, MapArea \<times> PageTable) kernel" where
  "MapArea_unmap area page_table = kfold unmap_one (vpns (vpn_range area)) (area, page_table)"

definition MapArea_shrink_to ::
  "VirtPageNum \<Rightarrow> MapArea \<Rightarrow> PageTable \<Rightarrow> ('z mm_state_scheme, MapArea \<times> PageTable) kernel" where
  "MapArea_shrink_to new_end area page_table =
     kbind (kres (SimpleRange_new new_end (get_end (vpn_range area)))) (\<lambda>rg.
     kbind (kfold unmap_one (vpns rg) (area, page_table)) (\<lambda>(area, page_table).
     kbind (kres (SimpleRange_new (get_start (vpn_range area)) new_end)) (\<lambda>rg.
     kret (area\<lparr>vpn_range := rg\<rparr>, page_table))))"

definition MapArea_append_to ::
  "VirtPageNum \<Rightarrow> MapArea \<Rightarrow> PageTable \<Rightarrow> ('z mm_state_scheme, MapArea \<times> PageTable) kernel" where
  "MapArea_append_to new_end area page_table =
     kbind (kres (SimpleRange_new (get_end (vpn_range area)) new_end)) (\<lambda>rg.
     kbind (kfold map_one (vpns rg) (area, page_table)) (\<lambda>(area, page_table).
     kbind (kres (SimpleRange_new (get_start (vpn_range area)) new_end)) (\<lambda>rg.
     kret (area\<lparr>vpn_range := rg\<rparr>, page_table))))"

text \<open>
  The copying loop. Slicing the data at \<open>start\<close> and stopping once \<open>start\<close> reaches its
  length is the same as consuming the data page by page.
\<close>

function copy_data_loop ::
  "VirtPageNum \<Rightarrow> PageTable \<Rightarrow> u8 list \<Rightarrow> ('z mm_state_scheme, unit) kernel" where
  "copy_data_loop current_vpn page_table data =
     (let src = take 4096 data in
      kbind (kget (\<lambda>s. pt_translate (pmem s) page_table current_vpn)) (\<lambda>r.
      kbind (kunwrap r) (\<lambda>pte.
      kthen (kmodify (\<lambda>s. s\<lparr>pmem := mem_write (pmem s) (page_base (pte_ppn pte)) src\<rparr>))
        (if length data \<le> 4096 then kret ()
         else copy_data_loop (VirtPageNum_step current_vpn) page_table (drop 4096 data)))))"
  by pat_completeness auto
termination by (relation "measure (\<lambda>(_, _, data). length data)") auto

definition copy_data ::
  "u8 list \<Rightarrow> MapArea \<Rightarrow> PageTable \<Rightarrow> ('z mm_state_scheme, unit) kernel" where
  "copy_data data area page_table =
     kthen (kassert (map_type area = Framed))
       (copy_data_loop (get_start (vpn_range area)) page_table data)"

definition from_another :: "MapArea \<Rightarrow> MapArea res" where
  "from_another another =
     (case SimpleRange_new (get_start (vpn_range another)) (get_end (vpn_range another)) of
        Inl e \<Rightarrow> Inl e
      | Inr rg \<Rightarrow> Inr \<lparr>vpn_range = rg, data_frames = [], map_type = map_type another,
                     map_perm = map_perm another\<rparr>)"

text \<open>Dropping an area drops the trackers of its \<^verbatim>\<open>BTreeMap\<close> in key order.\<close>

definition drop_area :: "MapArea \<Rightarrow> ('z mm_state_scheme, unit) kernel" where
  "drop_area area = drop_trackers (map snd (data_frames area))"

section \<open>Address spaces\<close>

record MemorySet =
  page_table :: PageTable
  areas :: "MapArea list"

definition new_bare :: "('z mm_state_scheme, MemorySet) kernel" where
  "new_bare = kbind PageTable_new (\<lambda>pt. kret \<lparr>page_table = pt, areas = []\<rparr>)"

definition ms_token :: "MemorySet \<Rightarrow> usize" where
  "ms_token ms = pt_token (page_table ms)"

definition ms_push ::
  "MapArea \<Rightarrow> u8 list option \<Rightarrow> MemorySet \<Rightarrow> ('z mm_state_scheme, MemorySet) kernel" where
  "ms_push area data ms =
     kbind (MapArea_map area (page_table ms)) (\<lambda>(area, pt).
     kthen (case data of None \<Rightarrow> kret () | Some d \<Rightarrow> copy_data d area pt)
       (kret (ms\<lparr>page_table := pt, areas := areas ms @ [area]\<rparr>)))"

definition insert_framed_area ::
  "VirtAddr \<Rightarrow> VirtAddr \<Rightarrow> MapPermission \<Rightarrow> MemorySet \<Rightarrow> ('z mm_state_scheme, MemorySet) kernel" where
  "insert_framed_area start_va end_va permission ms =
     kbind (kres (MapArea_new start_va end_va Framed permission)) (\<lambda>area. ms_push area None ms)"

record Linker =
  stext :: usize
  etext :: usize
  srodata :: usize
  erodata :: usize
  sdata :: usize
  edata :: usize
  sbss_with_stack :: usize
  ebss :: usize
  ekernel :: usize
  strampoline :: usize

definition map_trampoline :: "Linker \<Rightarrow> MemorySet \<Rightarrow> ('z mm_state_scheme, MemorySet) kernel" where
  "map_trampoline ld ms =
     kbind (kres (VirtPageNum_from_VirtAddr (VirtAddr_from_usize TRAMPOLINE))) (\<lambda>v.
     kbind (kres (PhysPageNum_from_PhysAddr (PhysAddr_from_usize (strampoline ld)))) (\<lambda>p.
     kbind (PageTable_map v p (PTE_R OR PTE_X) (page_table ms)) (\<lambda>pt.
     kret (ms\<lparr>page_table := pt\<rparr>))))"

definition push_identical ::
  "usize \<Rightarrow> usize \<Rightarrow> MapPermission \<Rightarrow> MemorySet \<Rightarrow> ('z mm_state_scheme, MemorySet) kernel" where
  "push_identical a b perm ms =
     kbind (kres (MapArea_new (VirtAddr_from_usize a) (VirtAddr_from_usize b) Identical perm))
       (\<lambda>area. ms_push area None ms)"

definition MMIO :: "(usize \<times> usize) list" where
  "MMIO = [(0x10001000, 0x1000)]"

definition new_kernel :: "Linker \<Rightarrow> ('z mm_state_scheme, MemorySet) kernel" where
  "new_kernel ld =
     kbind new_bare (\<lambda>ms.
     kbind (map_trampoline ld ms) (\<lambda>ms.
     kbind (push_identical (stext ld) (etext ld) (MP_R OR MP_X) ms) (\<lambda>ms.
     kbind (push_identical (srodata ld) (erodata ld) MP_R ms) (\<lambda>ms.
     kbind (push_identical (sdata ld) (edata ld) (MP_R OR MP_W) ms) (\<lambda>ms.
     kbind (push_identical (sbss_with_stack ld) (ebss ld) (MP_R OR MP_W) ms) (\<lambda>ms.
     kbind (push_identical (ekernel ld) MEMORY_END (MP_R OR MP_W) ms) (\<lambda>ms.
     kfold (\<lambda>(a, n) ms. push_identical a (a + n) (MP_R OR MP_W) ms) MMIO ms)))))))"

subsection \<open>Loading an executable\<close>

datatype PhType = PhLoad | PhOther

record ProgramHeader =
  ph_type :: "PhType res"
  ph_virtual_addr :: u64
  ph_mem_size :: u64
  ph_offset :: u64
  ph_file_size :: u64
  ph_is_read :: bool
  ph_is_write :: bool
  ph_is_execute :: bool

record ElfFile =
  elf_magic :: "u8 list"
  elf_ph_count :: u16
  elf_program_header :: "nat \<Rightarrow> ProgramHeader res"
  elf_input :: "u8 list"
  elf_entry_point :: u64

definition elf_slice :: "u8 list \<Rightarrow> usize \<Rightarrow> usize \<Rightarrow> u8 list res" where
  "elf_slice xs a b =
     (if a \<le> b \<and> unat b \<le> length xs then Inr (slice (unat a) (unat b) xs) else Inl OutOfBounds)"

definition segment_perm :: "ProgramHeader \<Rightarrow> MapPermission" where
  "segment_perm ph = MP_U OR (if ph_is_read ph then MP_R else 0) OR
     (if ph_is_write ph then MP_W else 0) OR (if ph_is_execute ph then MP_X else 0)"

definition load_segment ::
  "ElfFile \<Rightarrow> ProgramHeader \<Rightarrow> MemorySet \<Rightarrow> ('z mm_state_scheme, MemorySet \<times> VirtPageNum) kernel" where
  "load_segment elf ph ms =
     (let start_va = VirtAddr_from_usize (ph_virtual_addr ph);
          end_va = VirtAddr_from_usize (ph_virtual_addr ph + ph_mem_size ph)
      in kbind (kres (MapArea_new start_va end_va Framed (segment_perm ph))) (\<lambda>area.
         let max_end_vpn = get_end (vpn_range area);
             align = ph_offset ph - ph_offset ph mod 4096
         in kbind (kres (elf_slice (elf_input elf) align (ph_offset ph + ph_file_size ph))) (\<lambda>data.
            kbind (ms_push area (Some data) ms) (\<lambda>ms. kret (ms, max_end_vpn)))))"

definition load_segments ::
  "ElfFile \<Rightarrow> MemorySet \<Rightarrow> ('z mm_state_scheme, MemorySet \<times> VirtPageNum) kernel" where
  "load_segments elf ms =
     kfold (\<lambda>i (ms, max_end_vpn).
        kbind (kres (map_sum (\<lambda>_. UnwrapErr) id (elf_program_header elf i))) (\<lambda>ph.
        kbind (kres (map_sum (\<lambda>_. UnwrapErr) id (ph_type ph))) (\<lambda>ty.
        if ty = PhLoad then load_segment elf ph ms else kret (ms, max_end_vpn))))
       [0..<unat (elf_ph_count elf)] (ms, VirtPageNum 0)"

definition from_elf ::
  "Linker \<Rightarrow> ElfFile \<Rightarrow> ('z mm_state_scheme, MemorySet \<times> usize \<times> usize \<times> usize) kernel" where
  "from_elf ld elf =
     kbind new_bare (\<lambda>ms.
     kbind (map_trampoline ld ms) (\<lambda>ms.
     kthen (kassert (elf_magic elf = [0x7f, 0x45, 0x4c, 0x46]))
     (kbind (load_segments elf ms) (\<lambda>(ms, max_end_vpn).
      let max_end_va = VirtAddr_from_VirtPageNum max_end_vpn;
          user_stack_top = TRAPFRAME - USER_STACK_SIZE;
          user_stack_bottom = user_stack_top - USER_STACK_SIZE * 2
      in kbind (insert_framed_area (VirtAddr_from_usize user_stack_bottom)
                  (VirtAddr_from_usize user_stack_top) (MP_R OR MP_W OR MP_U) ms) (\<lambda>ms.
         kbind (insert_framed_area (VirtAddr_from_usize TRAPFRAME)
                  (VirtAddr_from_usize TRAMPOLINE) (MP_R OR MP_W) ms) (\<lambda>ms.
         kret (ms, usize_from_VirtAddr max_end_va, user_stack_top, elf_entry_point elf)))))))"

subsection \<open>Operations on a space\<close>

definition ms_translate :: "memory \<Rightarrow> MemorySet \<Rightarrow> VirtPageNum \<Rightarrow> PageTableEntry option" where
  "ms_translate m ms v = pt_translate m (page_table ms) v"

definition update_area ::
  "(MapArea \<Rightarrow> PageTable \<Rightarrow> ('z mm_state_scheme, MapArea \<times> PageTable) kernel) \<Rightarrow>
   VirtAddr \<Rightarrow> MemorySet \<Rightarrow> ('z mm_state_scheme, bool \<times> MemorySet) kernel" where
  "update_area f start ms =
     (case find_index (\<lambda>a. get_start (vpn_range a) = VirtAddr_floor start) (areas ms) of
        Some i \<Rightarrow>
          kbind (f (areas ms ! i) (page_table ms)) (\<lambda>(area, pt).
          kret (True, ms\<lparr>page_table := pt, areas := (areas ms)[i := area]\<rparr>))
      | None \<Rightarrow> kret (False, ms))"

definition ms_shrink_to ::
  "VirtAddr \<Rightarrow> VirtAddr \<Rightarrow> MemorySet \<Rightarrow> ('z mm_state_scheme, bool \<times> MemorySet) kernel" where
  "ms_shrink_to start new_end = update_area (MapArea_shrink_to (VirtAddr_ceil new_end)) start"

definition ms_append_to ::
  "VirtAddr \<Rightarrow> VirtAddr \<Rightarrow> MemorySet \<Rightarrow> ('z mm_state_scheme, bool \<times> MemorySet) kernel" where
  "ms_append_to start new_end = update_area (MapArea_append_to (VirtAddr_ceil new_end)) start"

definition copy_page ::
  "MemorySet \<Rightarrow> MemorySet \<Rightarrow> VirtPageNum \<Rightarrow> ('z mm_state_scheme, unit) kernel" where
  "copy_page user_space ms v =
     kbind (kget (\<lambda>s. ms_translate (pmem s) user_space v)) (\<lambda>r. kbind (kunwrap r) (\<lambda>src.
     kbind (kget (\<lambda>s. ms_translate (pmem s) ms v)) (\<lambda>r. kbind (kunwrap r) (\<lambda>dst.
     kmodify (\<lambda>s. s\<lparr>pmem := mem_write (pmem s) (page_base (pte_ppn dst))
       (get_bytes_array (pmem s) (pte_ppn src))\<rparr>)))))"

definition copy_area ::
  "MemorySet \<Rightarrow> MapArea \<Rightarrow> MemorySet \<Rightarrow> ('z mm_state_scheme, MemorySet) kernel" where
  "copy_area user_space area ms =
     kbind (kres (from_another area)) (\<lambda>new_area.
     kbind (ms_push new_area None ms) (\<lambda>ms.
     kthen (kfold (\<lambda>v _. copy_page user_space ms v) (vpns (vpn_range area)) ()) (kret ms)))"

definition from_existed_user ::
  "Linker \<Rightarrow> MemorySet \<Rightarrow> ('z mm_state_scheme, MemorySet) kernel" where
  "from_existed_user ld user_space =
     kbind new_bare (\<lambda>ms.
     kbind (map_trampoline ld ms) (\<lambda>ms.
     kfold (copy_area user_space) (areas user_space) ms))"

definition get_areas_end :: "MemorySet \<Rightarrow> VirtPageNum res" where
  "get_areas_end ms =
     (if 2 \<le> length (areas ms)
      then Inr (get_end (vpn_range (areas ms ! (length (areas ms) - 2))))
      else Inl UnwrapNone)"

text \<open>Dropping a space: the trackers of the table, then the areas.\<close>

definition drop_memory_set :: "MemorySet \<Rightarrow> ('z mm_state_scheme, unit) kernel" where
  "drop_memory_set ms =
     kthen (drop_trackers (pt_frames (page_table ms)))
       (kfold (\<lambda>area _. drop_area area) (areas ms) ())"

section \<open>What an operation leaves alone\<close>

lemma indexes_inj:
  assumes "unat (vpn v) < 2 ^ 27" "unat (vpn w) < 2 ^ 27"
  shows "indexes w = indexes v \<longleftrightarrow> w = v"
proof
  have dec: "unat (vpn u) = (unat (vpn u) div 2 ^ 18 mod 512 * 512 + unat (vpn u) div 2 ^ 9 mod 512) * 512 +
      unat (vpn u) mod 512" if "unat (vpn u) < 2 ^ 27" for u
  proof -
    have "unat (vpn u) div 2 ^ 18 < 512" using that by simp
    moreover have "unat (vpn u) div 2 ^ 18 = unat (vpn u) div 2 ^ 9 div 512"
      by (simp add: div_mult2_eq [symmetric])
    ultimately show ?thesis by simp
  qed
  assume "indexes w = indexes v"
  then have "map unat (indexes w) = map unat (indexes v)" by simp
  then have e: "unat (vpn w) div 2 ^ 18 mod 512 = unat (vpn v) div 2 ^ 18 mod 512"
    "unat (vpn w) div 2 ^ 9 mod 512 = unat (vpn v) div 2 ^ 9 mod 512"
    "unat (vpn w) mod 512 = unat (vpn v) mod 512"
    unfolding unat_indexes by simp_all
  show "w = v"
    by (rule vpn_eqI, rule trans [OF dec [OF assms(2)] trans [OF _ dec [OF assms(1), symmetric]]])
       (simp only: e)
qed simp

text \<open>
  \<open>keeps lo K s s'\<close>: the frames of \<open>K\<close> are live in \<open>s'\<close> with the bytes they had in
  \<open>s\<close>. With \<open>K\<close> the frames of all other owners, this is memory isolation.
\<close>

definition keeps :: "usize \<Rightarrow> PhysPageNum set \<Rightarrow> 'z mm_state_scheme \<Rightarrow> 'z mm_state_scheme \<Rightarrow> bool" where
  "keeps lo K s s' \<longleftrightarrow> fa_inv lo (FRAME_ALLOCATOR s') \<and> K \<subseteq> fa_live lo (FRAME_ALLOCATOR s') \<and>
     (\<forall>p\<in>K. get_bytes_array (pmem s') p = get_bytes_array (pmem s) p) \<and>
     mm_state.more s' = mm_state.more s"

lemma keeps_refl:
  "fa_inv lo (FRAME_ALLOCATOR s) \<Longrightarrow> K \<subseteq> fa_live lo (FRAME_ALLOCATOR s) \<Longrightarrow> keeps lo K s s"
  by (simp add: keeps_def)

lemma keeps_trans: "keeps lo K s s1 \<Longrightarrow> keeps lo K s1 s2 \<Longrightarrow> keeps lo K s s2"
  by (simp add: keeps_def)

lemma keeps_mono: "keeps lo K s s' \<Longrightarrow> L \<subseteq> K \<Longrightarrow> keeps lo L s s'"
  by (auto simp: keeps_def)

lemma keeps_bytes: "keeps lo K s s' \<Longrightarrow> p \<in> K \<Longrightarrow> get_bytes_array (pmem s') p = get_bytes_array (pmem s) p"
  by (simp add: keeps_def)

lemma keeps_live: "keeps lo K s s' \<Longrightarrow> p \<in> K \<Longrightarrow> p \<in> fa_live lo (FRAME_ALLOCATOR s')"
  by (auto simp: keeps_def)

abbreviation live :: "usize \<Rightarrow> 'z mm_state_scheme \<Rightarrow> PhysPageNum set" where
  "live lo s \<equiv> fa_live lo (FRAME_ALLOCATOR s)"

lemma pt_evolve_live:
  assumes "pt_evolve lo s pt s' pt'"
  shows "live lo s' - pt_ppns pt' = live lo s - pt_ppns pt" "pt_ppns pt \<subseteq> pt_ppns pt'"
proof -
  from assms obtain fs where fs: "pt_frames pt' = pt_frames pt @ fs"
    "live lo s' = live lo s \<union> tracker_ppn ` set fs" "live lo s \<inter> tracker_ppn ` set fs = {}"
    unfolding pt_evolve_def frames_added_def by blast
  have "pt_ppns pt' = pt_ppns pt \<union> tracker_ppn ` set fs" by (simp add: pt_ppns_def fs(1) image_Un)
  with fs(2,3) show "live lo s' - pt_ppns pt' = live lo s - pt_ppns pt" "pt_ppns pt \<subseteq> pt_ppns pt'"
    by blast+
qed

lemma pt_evolve_keeps:
  assumes ev: "pt_evolve lo s pt s' pt'" and ok: "pt_ok lo s pt"
  shows "keeps lo (live lo s - pt_ppns pt) s s'"
proof -
  have inv: "fa_inv lo (FRAME_ALLOCATOR s)" using ok by (simp add: pt_ok_def)
  have "p \<in> live lo s' \<and> get_bytes_array (pmem s') p = get_bytes_array (pmem s) p"
    if "p \<in> live lo s - pt_ppns pt" for p
    using pt_evolve_outside [OF ev, of p] that fa_live_bound [OF inv, of p] by simp
  then show ?thesis
    using ev by (auto simp: keeps_def pt_evolve_def pt_ok_def)
qed

text \<open>The state after a successful \<open>frame_alloc\<close>.\<close>

definition alloc_state :: "PhysPageNum \<Rightarrow> StackFrameAllocator \<Rightarrow> 'z mm_state_scheme \<Rightarrow> 'z mm_state_scheme" where
  "alloc_state f a s = s\<lparr>FRAME_ALLOCATOR := a, pmem := mem_fill (pmem s) (page_base f) 4096 0\<rparr>"

lemma alloc_state_keeps:
  assumes inv: "fa_inv lo (FRAME_ALLOCATOR s)"
    and al: "fa_inv lo a" "f \<notin> live lo s" "fa_live lo a = insert f (live lo s)" "unat (ppn f) < 2 ^ 44"
  shows "keeps lo (live lo s) s (alloc_state f a s)"
    "get_bytes_array (pmem (alloc_state f a s)) f = replicate 4096 0"
proof -
  have "get_bytes_array (mem_fill (pmem s) (page_base f) 4096 0) p = get_bytes_array (pmem s) p"
    if "p \<in> live lo s" for p
    using that al(2,4) fa_live_bound [OF inv that] by (intro get_bytes_array_fill_other) auto
  with al show "keeps lo (live lo s) s (alloc_state f a s)"
    by (auto simp: keeps_def alloc_state_def)
  have "pmem (alloc_state f a s) = mem_fill (pmem s) (page_base f) 4096 0"
    by (simp add: alloc_state_def)
  then show "get_bytes_array (pmem (alloc_state f a s)) f = replicate 4096 0"
    by (simp only: get_bytes_array_def mem_read_fill_same)
qed

lemma keeps_pt_ok:
  assumes ok: "pt_ok lo s pt" and k: "keeps lo K s s'" and sub: "pt_ppns pt \<subseteq> K"
  shows "pt_ok lo s' pt" "pt_view (pmem s') pt = pt_view (pmem s) pt"
proof -
  have "get_bytes_array (pmem s') p = get_bytes_array (pmem s) p" if "p \<in> pt_ppns pt" for p
    using that k sub by (auto simp: keeps_def)
  with ok pt_stable [of "pmem s" pt "pt_ppns pt" "pmem s'"] k sub
  show "pt_ok lo s' pt" "pt_view (pmem s') pt = pt_view (pmem s) pt"
    unfolding pt_ok_def keeps_def by blast+
qed


section \<open>Mapping pages\<close>

definition area_pte :: "MapArea \<Rightarrow> VirtPageNum \<Rightarrow> PageTableEntry" where
  "area_pte area v = pte_new
     (case map_type area of Identical \<Rightarrow> PhysPageNum (vpn v)
      | Framed \<Rightarrow> tracker_ppn (the (map_of (data_frames area) v)))
     (map_perm area OR PTE_V)"

definition area_ppns :: "MapArea \<Rightarrow> PhysPageNum set" where
  "area_ppns area = (tracker_ppn \<circ> snd) ` set (data_frames area)"

text \<open>
  The progress of a loop of \<open>map_one\<close> from \<open>(s, area, pt)\<close> after the pages \<open>xs\<close>: the
  pages of \<open>xs\<close> were unmapped and now show the area's frames, which are new and zero;
  nothing else changed, neither in the view nor in the rest of memory.
\<close>

definition map_progress ::
  "usize \<Rightarrow> 'z mm_state_scheme \<Rightarrow> MapArea \<Rightarrow> PageTable \<Rightarrow> VirtPageNum list \<Rightarrow>
   MapArea \<Rightarrow> PageTable \<Rightarrow> 'z mm_state_scheme \<Rightarrow> FrameTracker list \<Rightarrow> bool" where
  "map_progress lo s area pt xs area' pt' s' new \<longleftrightarrow>
     area' = area\<lparr>data_frames := data_frames area'\<rparr> \<and>
     bt_ok (data_frames area') \<and>
     fst ` set (data_frames area') =
       fst ` set (data_frames area) \<union> (if map_type area = Framed then set xs else {}) \<and>
     (\<forall>w. w \<notin> set xs \<longrightarrow> map_of (data_frames area') w = map_of (data_frames area) w) \<and>
     mset (map snd (data_frames area')) = mset (map snd (data_frames area)) + mset new \<and>
     distinct (map tracker_ppn new) \<and> tracker_ppn ` set new \<inter> (live lo s \<union> pt_ppns pt') = {} \<and>
     (\<forall>f\<in>tracker_ppn ` set new. get_bytes_array (pmem s') f = replicate 4096 0) \<and>
     pt_ok lo s' pt' \<and> root_ppn pt' = root_ppn pt \<and> pt_ppns pt \<subseteq> pt_ppns pt' \<and>
     live lo s' - pt_ppns pt' = (live lo s - pt_ppns pt) \<union> tracker_ppn ` set new \<and>
     keeps lo (live lo s - pt_ppns pt) s s' \<and>
     (\<forall>w\<in>set xs. pt_view (pmem s) pt w = None) \<and>
     (\<forall>w. unat (vpn w) < 2 ^ 27 \<longrightarrow> pt_view (pmem s') pt' w =
        (if w \<in> set xs then Some (area_pte area' w) else pt_view (pmem s) pt w)) \<and>
     fa_free (FRAME_ALLOCATOR s) \<le> fa_free (FRAME_ALLOCATOR s') + 3 * length xs"

lemma map_progress_refl:
  assumes "pt_ok lo s pt" "bt_ok (data_frames area)"
  shows "map_progress lo s area pt [] area pt s []"
  using assms by (auto simp: map_progress_def pt_ok_def intro: keeps_refl)

lemma kunwrap_flags: "kbind (kunwrap (PTEFlags_from_bits b)) f = f b"
  by (simp add: PTEFlags_from_bits_total kunwrap_def kbind_def kret_def)

text \<open>One page of an identity-mapped area.\<close>

lemma map_progress_identical:
  assumes pr: "map_progress lo s area pt xs area1 pt1 s1 new" and ty: "map_type area = Identical"
    and v: "v \<notin> set xs" "unat (vpn v) < 2 ^ 27"
    and post: "pt_map_post lo v (PhysPageNum (vpn v)) (map_perm area) s1 pt1 s2 pt2"
  shows "map_progress lo s area pt (xs @ [v]) area1 pt2 s2 new"
proof -
  have ev: "pt_evolve lo s1 pt1 s2 pt2" and v1: "pt_view (pmem s1) pt1 v = None"
    and vw: "\<And>w. pt_view (pmem s2) pt2 w = (if indexes w = indexes v
        then Some (pte_new (PhysPageNum (vpn v)) (map_perm area OR PTE_V)) else pt_view (pmem s1) pt1 w)"
    and fr: "fa_free (FRAME_ALLOCATOR s1) \<le> fa_free (FRAME_ALLOCATOR s2) + 2"
    using post by (auto simp: pt_map_post_def)
  have ok1: "pt_ok lo s1 pt1" and a1: "area1 = area\<lparr>data_frames := data_frames area1\<rparr>"
    using pr by (auto simp: map_progress_def)
  have ty1: "map_type area1 = Identical" "map_perm area1 = map_perm area"
    by (subst a1, simp add: ty)+
  note lv = pt_evolve_live [OF ev] and kp = pt_evolve_keeps [OF ev ok1]
  have new1: "tracker_ppn ` set new \<subseteq> live lo s1 - pt_ppns pt1"
    and sub1: "live lo s - pt_ppns pt \<subseteq> live lo s1 - pt_ppns pt1"
    using pr by (auto simp: map_progress_def)
  have "pt_view (pmem s) pt v = None"
    using pr v v1 by (auto simp: map_progress_def)
  moreover have "keeps lo (live lo s - pt_ppns pt) s s2"
    using pr keeps_mono [OF kp sub1] by (auto simp: map_progress_def intro: keeps_trans)
  moreover have "get_bytes_array (pmem s2) f = replicate 4096 0" if "f \<in> tracker_ppn ` set new" for f
    using pr that keeps_bytes [OF kp, of f] new1 by (auto simp: map_progress_def)
  moreover have "tracker_ppn ` set new \<inter> pt_ppns pt2 = {}"
    using new1 lv(1) by blast
  moreover have "pt_view (pmem s2) pt2 w =
      (if w \<in> set (xs @ [v]) then Some (area_pte area1 w) else pt_view (pmem s) pt w)"
    if "unat (vpn w) < 2 ^ 27" for w
    using pr that vw [of w] indexes_inj [OF v(2) that] ty1
    by (auto simp: map_progress_def area_pte_def)
  moreover have "pt_ok lo s2 pt2" "root_ppn pt2 = root_ppn pt1"
    using ev by (simp_all add: pt_evolve_def)
  ultimately show ?thesis
    using pr lv fr ty unfolding map_progress_def by (auto simp: Int_Un_distrib)
qed

text \<open>One page of a framed area: a new frame, then the entry.\<close>

lemma map_progress_framed:
  assumes pr: "map_progress lo s area pt xs area1 pt1 s1 new" and ty: "map_type area = Framed"
    and v: "v \<notin> set xs" "unat (vpn v) < 2 ^ 27" "v \<notin> fst ` set (data_frames area)"
    and al: "fa_inv lo a" "f \<notin> live lo s1" "fa_live lo a = insert f (live lo s1)"
      "unat (ppn f) < 2 ^ 44" "fa_free (FRAME_ALLOCATOR s1) = Suc (fa_free a)"
    and post: "pt_map_post lo v f (map_perm area) (alloc_state f a s1) pt1 s2 pt2"
  shows "map_progress lo s area pt (xs @ [v])
    (area1\<lparr>data_frames := bt_insert v \<lparr>tracker_ppn = f\<rparr> (data_frames area1)\<rparr>) pt2 s2
    (new @ [\<lparr>tracker_ppn = f\<rparr>])" (is "map_progress _ _ _ _ _ ?area _ _ ?new")
proof -
  let ?sa = "alloc_state f a s1"
  have ok1: "pt_ok lo s1 pt1" and a1: "area1 = area\<lparr>data_frames := data_frames area1\<rparr>"
    and inv1: "fa_inv lo (FRAME_ALLOCATOR s1)"
    using pr by (auto simp: map_progress_def pt_ok_def)
  have ty1: "map_type area1 = Framed" "map_perm area1 = map_perm area"
    by (subst a1, simp add: ty)+
  have live_a: "live lo ?sa = insert f (live lo s1)" using al(3) by (simp add: alloc_state_def)
  note ka = alloc_state_keeps [OF inv1 al(1-4)]
  have "pt_ppns pt1 \<subseteq> live lo s1" using ok1 by (simp add: pt_ok_def)
  note oka = keeps_pt_ok [OF ok1 ka(1) this]
  have ev: "pt_evolve lo ?sa pt1 s2 pt2" and va: "pt_view (pmem ?sa) pt1 v = None"
    and vw: "\<And>w. pt_view (pmem s2) pt2 w = (if indexes w = indexes v
        then Some (pte_new f (map_perm area OR PTE_V)) else pt_view (pmem ?sa) pt1 w)"
    and fr: "fa_free (FRAME_ALLOCATOR ?sa) \<le> fa_free (FRAME_ALLOCATOR s2) + 2"
    using post by (auto simp: pt_map_post_def)
  note lv = pt_evolve_live [OF ev] and kp = pt_evolve_keeps [OF ev oka(1)]
  have fpt: "f \<notin> pt_ppns pt1" using al(2) \<open>pt_ppns pt1 \<subseteq> live lo s1\<close> by blast
  have new1: "tracker_ppn ` set new \<subseteq> live lo s1 - pt_ppns pt1"
    and sub1: "live lo s - pt_ppns pt \<subseteq> live lo s1 - pt_ppns pt1"
    using pr by (auto simp: map_progress_def)
  have fs: "f \<notin> live lo s" 
    using pr al(2) \<open>pt_ppns pt1 \<subseteq> live lo s1\<close> by (auto simp: map_progress_def)
  have fnew: "f \<notin> tracker_ppn ` set new" using new1 al(2) by blast
  have kall: "keeps lo (live lo s1 - pt_ppns pt1) s1 s2"
  proof (rule keeps_trans)
    show "keeps lo (live lo s1 - pt_ppns pt1) s1 ?sa" by (rule keeps_mono [OF ka(1)]) blast
    show "keeps lo (live lo s1 - pt_ppns pt1) ?sa s2" by (rule keeps_mono [OF kp]) (use live_a in blast)
  qed
  have zero: "get_bytes_array (pmem s2) g = replicate 4096 0" if "g \<in> tracker_ppn ` set ?new" for g
  proof (cases "g = f")
    case True
    then show ?thesis using keeps_bytes [OF kp, of f] live_a fpt ka(2) by simp
  next
    case False
    then have "g \<in> tracker_ppn ` set new" using that by auto
    then show ?thesis using pr keeps_bytes [OF kall, of g] new1 by (auto simp: map_progress_def)
  qed
  have keys: "v \<notin> fst ` set (data_frames area1)"
    using pr v ty by (auto simp: map_progress_def)
  have view: "pt_view (pmem s2) pt2 w =
      (if w \<in> set (xs @ [v]) then Some (area_pte ?area w) else pt_view (pmem s) pt w)"
    if "unat (vpn w) < 2 ^ 27" for w
  proof -
    have "pt_view (pmem s1) pt1 w =
        (if w \<in> set xs then Some (area_pte area1 w) else pt_view (pmem s) pt w)"
      using pr that by (auto simp: map_progress_def)
    moreover have "area_pte ?area w = area_pte area1 w" if "w \<noteq> v"
      using that by (simp add: area_pte_def ty1)
    moreover have "area_pte ?area v = pte_new f (map_perm area OR PTE_V)"
      by (simp add: area_pte_def ty1)
    ultimately show ?thesis
      using vw [of w] indexes_inj [OF v(2) that] v(1) oka(2) by auto
  qed
  show ?thesis
    unfolding map_progress_def
  proof (intro conjI)
    show "?area = area\<lparr>data_frames := data_frames ?area\<rparr>" by (subst a1) simp
    show "bt_ok (data_frames ?area)" using pr by (simp add: map_progress_def bt_ok_insert)
    show "fst ` set (data_frames ?area) = fst ` set (data_frames area) \<union>
        (if map_type area = Framed then set (xs @ [v]) else {})"
      using pr ty by (auto simp: map_progress_def keys_bt_insert)
    show "\<forall>w. w \<notin> set (xs @ [v]) \<longrightarrow> map_of (data_frames ?area) w = map_of (data_frames area) w"
      using pr by (auto simp: map_progress_def)
    show "mset (map snd (data_frames ?area)) = mset (map snd (data_frames area)) + mset ?new"
      using pr mset_bt_insert [OF keys] by (simp add: map_progress_def)
    show "distinct (map tracker_ppn ?new)" using pr fnew by (auto simp: map_progress_def)
    show "tracker_ppn ` set ?new \<inter> (live lo s \<union> pt_ppns pt2) = {}"
      using pr fs new1 lv(1) live_a fpt by (auto simp: map_progress_def)
    show "\<forall>f\<in>tracker_ppn ` set ?new. get_bytes_array (pmem s2) f = replicate 4096 0"
      using zero by blast
    show "pt_ok lo s2 pt2" using ev by (simp add: pt_evolve_def)
    show "root_ppn pt2 = root_ppn pt" using ev pr by (simp add: pt_evolve_def map_progress_def)
    show "pt_ppns pt \<subseteq> pt_ppns pt2" using lv(2) pr by (auto simp: map_progress_def)
    show "live lo s2 - pt_ppns pt2 = live lo s - pt_ppns pt \<union> tracker_ppn ` set ?new"
      using lv(1) live_a fpt pr by (auto simp: map_progress_def)
    show "keeps lo (live lo s - pt_ppns pt) s s2"
      using pr keeps_mono [OF kall sub1] by (auto simp: map_progress_def intro: keeps_trans)
    show "\<forall>w\<in>set (xs @ [v]). pt_view (pmem s) pt w = None"
      using pr va v oka(2) by (auto simp: map_progress_def)
    show "\<forall>w. unat (vpn w) < 2 ^ 27 \<longrightarrow> pt_view (pmem s2) pt2 w =
        (if w \<in> set (xs @ [v]) then Some (area_pte ?area w) else pt_view (pmem s) pt w)"
      using view by blast
    show "fa_free (FRAME_ALLOCATOR s) \<le> fa_free (FRAME_ALLOCATOR s2) + 3 * length (xs @ [v])"
      using pr fr al(5) by (simp add: map_progress_def alloc_state_def)
  qed
qed

lemma map_one_step:
  assumes pr: "map_progress lo s area pt xs area1 pt1 s1 new"
    and v: "v \<notin> set xs" "unat (vpn v) < 2 ^ 27" "v \<notin> fst ` set (data_frames area)"
  shows "wpe (map_one v (area1, pt1))
    (\<lambda>(area2, pt2) s2. \<exists>new2. map_progress lo s area pt (xs @ [v]) area2 pt2 s2 new2)
    (\<lambda>e. e = AssertFailed \<and> pt_view (pmem s) pt v \<noteq> None \<or>
         e = UnwrapNone \<and> fa_free (FRAME_ALLOCATOR s1) < 3) s1"
proof -
  have ok1: "pt_ok lo s1 pt1" and a1: "area1 = area\<lparr>data_frames := data_frames area1\<rparr>"
    and inv1: "fa_inv lo (FRAME_ALLOCATOR s1)" and vv: "pt_view (pmem s1) pt1 v = pt_view (pmem s) pt v"
    using pr v by (auto simp: map_progress_def pt_ok_def)
  have same: "map_type area1 = map_type area" "map_perm area1 = map_perm area" by (subst a1, simp)+
  show ?thesis
  proof (cases "map_type area")
    case Identical
    have "wpe (PageTable_map v (PhysPageNum (vpn v)) (map_perm area) pt1)
      (\<lambda>pt2 s2. \<exists>new2. map_progress lo s area pt (xs @ [v]) area1 pt2 s2 new2)
      (\<lambda>e. e = AssertFailed \<and> pt_view (pmem s) pt v \<noteq> None \<or>
           e = UnwrapNone \<and> fa_free (FRAME_ALLOCATOR s1) < 3) s1"
      by (rule wpe_mono [OF PageTable_map_spec [OF ok1]])
         (use map_progress_identical [OF pr Identical v(1,2)] vv in auto)
    then show ?thesis by (simp add: map_one_def same Identical PTEFlags_from_bits_total)
  next
    case Framed
    have none: "map_of (data_frames area1) v = None"
      using pr v Framed by (auto simp: map_progress_def map_of_eq_None_iff)
    have step: "wpe (PageTable_map v f (map_perm area) pt1)
      (\<lambda>pt2 s2. \<exists>new2. map_progress lo s area pt (xs @ [v])
         (area1\<lparr>data_frames := bt_insert v \<lparr>tracker_ppn = f\<rparr> (data_frames area1)\<rparr>) pt2 s2 new2)
      (\<lambda>e. e = AssertFailed \<and> pt_view (pmem s) pt v \<noteq> None \<or>
           e = UnwrapNone \<and> fa_free (FRAME_ALLOCATOR s1) < 3) (alloc_state f a s1)"
      if al: "fa_inv lo a" "f \<notin> live lo s1" "fa_live lo a = insert f (live lo s1)"
        "unat (ppn f) < 2 ^ 44" "fa_free (FRAME_ALLOCATOR s1) = Suc (fa_free a)" for f a
    proof -
      have "pt_ppns pt1 \<subseteq> live lo s1" using ok1 by (simp add: pt_ok_def)
      note oka = keeps_pt_ok [OF ok1 alloc_state_keeps(1) [OF inv1 al(1-4)] this]
      show ?thesis
        by (rule wpe_mono [OF PageTable_map_spec [OF oka(1)]])
           (use map_progress_framed [OF pr Framed v al] vv oka(2) al(5) in \<open>auto simp: alloc_state_def\<close>)
    qed
    show ?thesis
      unfolding map_one_def
      by (simp add: same Framed PTEFlags_from_bits_total none drop_old_def, rule wpe_frame_alloc [OF inv1])
         (use step in \<open>simp_all add: alloc_state_def\<close>)
  qed
qed


text \<open>Any loop of \<open>map_one\<close> over distinct pages not yet in the area.\<close>

lemma map_loop:
  assumes ok: "pt_ok lo s pt" "bt_ok (data_frames area)"
    and vs: "distinct vs" "\<forall>v\<in>set vs. unat (vpn v) < 2 ^ 27"
      "set vs \<inter> fst ` set (data_frames area) = {}"
  shows "wpe (kfold map_one vs (area, pt))
    (\<lambda>(area', pt') s'. \<exists>new. map_progress lo s area pt vs area' pt' s' new)
    (\<lambda>e. e = AssertFailed \<and> (\<exists>v\<in>set vs. pt_view (pmem s) pt v \<noteq> None) \<or>
         e = UnwrapNone \<and> fa_free (FRAME_ALLOCATOR s) < 3 * length vs) s"
proof -
  let ?I = "\<lambda>xs x s'. \<exists>new. map_progress lo s area pt xs (fst x) (snd x) s' new"
  have "wpe (kfold map_one vs (area, pt)) (?I vs)
    (\<lambda>e. e = AssertFailed \<and> (\<exists>v\<in>set vs. pt_view (pmem s) pt v \<noteq> None) \<or>
         e = UnwrapNone \<and> fa_free (FRAME_ALLOCATOR s) < 3 * length vs) s"
  proof (rule wpe_kfold [where I = ?I])
    show "?I [] (area, pt) s" using map_progress_refl [OF ok] by auto
  next
    fix xs v ys x s1
    assume e: "vs = xs @ v # ys" and "?I xs x s1"
    then obtain new where pr: "map_progress lo s area pt xs (fst x) (snd x) s1 new" by blast
    have v: "v \<notin> set xs" "unat (vpn v) < 2 ^ 27" "v \<notin> fst ` set (data_frames area)"
      using vs e by auto
    have fr: "fa_free (FRAME_ALLOCATOR s) \<le> fa_free (FRAME_ALLOCATOR s1) + 3 * length xs"
      using pr by (simp add: map_progress_def)
    show "wpe (map_one v x) (?I (xs @ [v]))
      (\<lambda>e. e = AssertFailed \<and> (\<exists>v\<in>set vs. pt_view (pmem s) pt v \<noteq> None) \<or>
         e = UnwrapNone \<and> fa_free (FRAME_ALLOCATOR s) < 3 * length vs) s1"
      by (rule wpe_mono [OF map_one_step [OF pr v, unfolded prod.collapse]]) (use fr e in auto)
  qed
  then show ?thesis by (rule wpe_mono) (auto simp: case_prod_beta)
qed

section \<open>Unmapping pages\<close>

lemma mset_bt_remove:
  assumes "distinct (map fst xs)" "map_of xs k = Some v"
  shows "mset xs = add_mset (k, v) (mset (bt_remove k xs))"
  using assms
proof (induction xs)
  case (Cons x xs)
  show ?case
  proof (cases "fst x = k")
    case True
    with Cons.prems have x: "x = (k, v)" by (cases x) auto
    have "bt_remove k xs = xs"
      using Cons.prems True by (auto simp: bt_remove_def filter_id_conv image_iff)
    with x show ?thesis by (simp add: bt_remove_def)
  next
    case False
    with Cons.prems have "mset xs = add_mset (k, v) (mset (bt_remove k xs))"
      by (intro Cons.IH) (auto split: if_splits)
    with False show ?thesis by (cases x) (simp add: bt_remove_def)
  qed
qed simp

text \<open>The frames of an area are its own: pairwise different, live, and no tables.\<close>

definition area_owns :: "usize \<Rightarrow> 'z mm_state_scheme \<Rightarrow> PageTable \<Rightarrow> MapArea \<Rightarrow> bool" where
  "area_owns lo s pt area \<longleftrightarrow> bt_ok (data_frames area) \<and>
     distinct (map (tracker_ppn \<circ> snd) (data_frames area)) \<and>
     area_ppns area \<subseteq> live lo s - pt_ppns pt"

definition unmap_progress ::
  "usize \<Rightarrow> 'z mm_state_scheme \<Rightarrow> MapArea \<Rightarrow> PageTable \<Rightarrow> VirtPageNum list \<Rightarrow>
   MapArea \<Rightarrow> 'z mm_state_scheme \<Rightarrow> FrameTracker list \<Rightarrow> bool" where
  "unmap_progress lo s area pt xs area' s' old \<longleftrightarrow>
     area' = area\<lparr>data_frames := data_frames area'\<rparr> \<and>
     (\<forall>w. map_of (data_frames area') w =
        (if map_type area = Framed \<and> w \<in> set xs then None else map_of (data_frames area) w)) \<and>
     mset (map snd (data_frames area)) = mset (map snd (data_frames area')) + mset old \<and>
     area_owns lo s' pt area' \<and> pt_ok lo s' pt \<and>
     live lo s' = live lo s - tracker_ppn ` set old \<and>
     keeps lo (live lo s - pt_ppns pt - tracker_ppn ` set old) s s' \<and>
     (\<forall>w. unat (vpn w) < 2 ^ 27 \<longrightarrow> pt_view (pmem s') pt w =
        (if w \<in> set xs then None else pt_view (pmem s) pt w))"

lemma unmap_progress_refl:
  assumes "pt_ok lo s pt" "area_owns lo s pt area"
  shows "unmap_progress lo s area pt [] area s []"
  using assms by (auto simp: unmap_progress_def pt_ok_def intro!: keeps_refl)

lemma unmap_keeps:
  assumes ok: "pt_ok lo s pt" and ev: "pt_evolve lo s pt s' pt" and a: "FRAME_ALLOCATOR s' = FRAME_ALLOCATOR s"
  shows "keeps lo (live lo s - pt_ppns pt) s s'" "live lo s' = live lo s"
  using pt_evolve_keeps [OF ev ok] a by simp_all

text \<open>Giving a frame back changes no byte.\<close>

lemma dealloc_keeps:
  assumes ok: "pt_ok lo s pt" and p: "p \<in> live lo s - pt_ppns pt"
  shows "\<exists>s'. frame_dealloc p s = Inr ((), s') \<and> pt_ok lo s' pt \<and> pmem s' = pmem s \<and>
    live lo s' = live lo s - {p} \<and> keeps lo (live lo s - {p}) s s'"
proof -
  have inv: "fa_inv lo (FRAME_ALLOCATOR s)" using ok by (simp add: pt_ok_def)
  from frame_dealloc_live [OF inv, of p] p obtain a where
    a: "frame_dealloc p s = Inr ((), s\<lparr>FRAME_ALLOCATOR := a\<rparr>)" "fa_inv lo a"
      "fa_live lo a = live lo s - {p}" by blast
  let ?s = "s\<lparr>FRAME_ALLOCATOR := a\<rparr>"
  have "pt_ok lo ?s pt" using ok a p by (auto simp: pt_ok_def)
  moreover have "keeps lo (live lo s - {p}) s ?s" using a by (simp add: keeps_def)
  ultimately show ?thesis using a by (intro exI [of _ ?s]) simp
qed

text \<open>The table part of a step, once the frame has been given back.\<close>

lemma unmap_finish:
  assumes okd: "pt_ok lo sd pt" and ld: "live lo sd = live lo s - tracker_ppn ` set old"
    and kd: "keeps lo (live lo s - pt_ppns pt - tracker_ppn ` set old) s sd"
    and a2: "area2 = area\<lparr>data_frames := data_frames area2\<rparr>"
    and m2: "\<And>w. map_of (data_frames area2) w =
      (if map_type area = Framed \<and> w \<in> set (xs @ [v]) then None else map_of (data_frames area) w)"
    and ms2: "mset (map snd (data_frames area)) = mset (map snd (data_frames area2)) + mset old"
    and own2: "area_owns lo sd pt area2"
    and view: "\<And>w. unat (vpn w) < 2 ^ 27 \<Longrightarrow> pt_view (pmem sd) pt w =
      (if w \<in> set xs then None else pt_view (pmem s) pt w)"
    and v: "v \<notin> set xs" "unat (vpn v) < 2 ^ 27" "pt_view (pmem s) pt v \<noteq> None"
  shows "wp (PageTable_unmap v pt) (\<lambda>_ s2. unmap_progress lo s area pt (xs @ [v]) area2 s2 old) sd"
proof (rule wpe_mono [OF PageTable_unmap_spec [OF okd]])
  fix u s2
  assume h: "pt_evolve lo sd pt s2 pt \<and> pt_view (pmem sd) pt v \<noteq> None \<and>
    FRAME_ALLOCATOR s2 = FRAME_ALLOCATOR sd \<and>
    (\<forall>w. pt_view (pmem s2) pt w = (if indexes w = indexes v then None else pt_view (pmem sd) pt w))"
  note uk = unmap_keeps [OF okd conjunct1 [OF h]]
  have "keeps lo (live lo s - pt_ppns pt - tracker_ppn ` set old) sd s2"
    using uk(1) h ld by (auto intro: keeps_mono)
  with kd have "keeps lo (live lo s - pt_ppns pt - tracker_ppn ` set old) s s2" by (rule keeps_trans)
  moreover have "pt_view (pmem s2) pt w = (if w \<in> set (xs @ [v]) then None else pt_view (pmem s) pt w)"
    if "unat (vpn w) < 2 ^ 27" for w
    using h view [OF that] indexes_inj [OF v(2) that] by auto
  moreover have "area_owns lo s2 pt area2" using own2 h by (simp add: area_owns_def)
  moreover have "pt_ok lo s2 pt" using h by (simp add: pt_evolve_def)
  ultimately show "unmap_progress lo s area pt (xs @ [v]) area2 s2 old"
    using a2 m2 ms2 ld h by (simp add: unmap_progress_def)
qed (use v view in auto)

text \<open>Taking a frame out of an area and giving it back to the allocator.\<close>

lemma release_frame:
  assumes ok: "pt_ok lo s pt" and own: "area_owns lo s pt area"
    and f: "map_of (data_frames area) v = Some f"
  defines "area2 \<equiv> area\<lparr>data_frames := bt_remove v (data_frames area)\<rparr>"
  shows "\<exists>sd. frame_dealloc (tracker_ppn f) s = Inr ((), sd) \<and> pt_ok lo sd pt \<and> pmem sd = pmem s \<and>
    live lo sd = live lo s - {tracker_ppn f} \<and> keeps lo (live lo s - {tracker_ppn f}) s sd \<and>
    area_owns lo sd pt area2 \<and>
    mset (map snd (data_frames area)) = add_mset f (mset (map snd (data_frames area2)))"
proof -
  let ?p = "tracker_ppn f"
  have bt: "bt_ok (data_frames area)" "distinct (map (tracker_ppn \<circ> snd) (data_frames area))"
    "area_ppns area \<subseteq> live lo s - pt_ppns pt"
    using own by (auto simp: area_owns_def)
  have mr: "mset (data_frames area) = add_mset (v, f) (mset (data_frames area2))"
    using mset_bt_remove [OF bt_ok_distinct [OF bt(1)] f] by (simp add: area2_def)
  have p: "?p \<in> live lo s - pt_ppns pt"
    using bt(3) map_of_SomeD [OF f] by (force simp: area_ppns_def)
  from dealloc_keeps [OF ok p] obtain sd where sd: "frame_dealloc ?p s = Inr ((), sd)"
    "pt_ok lo sd pt" "pmem sd = pmem s" "live lo sd = live lo s - {?p}"
    "keeps lo (live lo s - {?p}) s sd" by blast
  have "mset (map (tracker_ppn \<circ> snd) (data_frames area)) =
      mset (?p # map (tracker_ppn \<circ> snd) (data_frames area2))"
    using arg_cong [OF mr, of "image_mset (tracker_ppn \<circ> snd)"] by simp
  then have d: "distinct (?p # map (tracker_ppn \<circ> snd) (data_frames area2))"
    using bt(2) mset_eq_imp_distinct_iff by blast
  then have "?p \<notin> area_ppns area2" by (simp add: area_ppns_def)
  moreover have "area_ppns area2 \<subseteq> area_ppns area" by (auto simp: area_ppns_def area2_def bt_remove_def)
  ultimately have "area_ppns area2 \<subseteq> live lo sd - pt_ppns pt" using bt(3) sd(4) by blast
  then have "area_owns lo sd pt area2"
    using d bt_ok_remove [OF bt(1)] by (simp add: area_owns_def area2_def)
  then show ?thesis using sd arg_cong [OF mr, of "image_mset snd"] by simp
qed

lemma unmap_one_step:
  assumes pr: "unmap_progress lo s area pt xs area1 s1 old"
    and v: "v \<notin> set xs" "unat (vpn v) < 2 ^ 27" "pt_view (pmem s) pt v \<noteq> None"
      "map_type area = Framed \<Longrightarrow> v \<in> dom (map_of (data_frames area))"
  shows "wp (unmap_one v (area1, pt))
    (\<lambda>(area2, pt2) s2. pt2 = pt \<and> (\<exists>old2. unmap_progress lo s area pt (xs @ [v]) area2 s2 old2)) s1"
proof -
  have a1: "area1 = area\<lparr>data_frames := data_frames area1\<rparr>" and ok1: "pt_ok lo s1 pt"
    and own1: "area_owns lo s1 pt area1"
    and k1: "keeps lo (live lo s - pt_ppns pt - tracker_ppn ` set old) s s1"
    and l1: "live lo s1 = live lo s - tracker_ppn ` set old"
    and ms1: "mset (map snd (data_frames area)) = mset (map snd (data_frames area1)) + mset old"
    and map1: "\<And>w. map_of (data_frames area1) w =
        (if map_type area = Framed \<and> w \<in> set xs then None else map_of (data_frames area) w)"
    and view1: "\<And>w. unat (vpn w) < 2 ^ 27 \<Longrightarrow> pt_view (pmem s1) pt w =
        (if w \<in> set xs then None else pt_view (pmem s) pt w)"
    using pr by (auto simp: unmap_progress_def)
  have same: "map_type area1 = map_type area" by (subst a1) simp
  show ?thesis
  proof (cases "map_type area")
    case Identical
    have "wp (PageTable_unmap v pt) (\<lambda>_ s2. unmap_progress lo s area pt (xs @ [v]) area1 s2 old) s1"
      using map1 Identical by (intro unmap_finish [OF ok1 l1 k1 a1 _ ms1 own1 view1 v(1-3)]) simp_all
    then show ?thesis
      by (simp add: unmap_one_def same Identical) (erule wpe_post, blast)
  next
    case Framed
    with v obtain f where f: "map_of (data_frames area) v = Some f" by auto
    then have f1: "map_of (data_frames area1) v = Some f" using map1 v(1) by simp
    let ?area2 = "area1\<lparr>data_frames := bt_remove v (data_frames area1)\<rparr>"
    from release_frame [OF ok1 own1 f1] obtain sd where
      sd: "frame_dealloc (tracker_ppn f) s1 = Inr ((), sd)" "pt_ok lo sd pt" "pmem sd = pmem s1"
        "live lo sd = live lo s1 - {tracker_ppn f}" "keeps lo (live lo s1 - {tracker_ppn f}) s1 sd"
        "area_owns lo sd pt ?area2"
        "mset (map snd (data_frames area1)) = add_mset f (mset (map snd (data_frames ?area2)))"
      by blast
    have "wp (PageTable_unmap v pt)
        (\<lambda>_ s2. unmap_progress lo s area pt (xs @ [v]) ?area2 s2 (old @ [f])) sd"
    proof (rule unmap_finish [OF sd(2)])
      show "live lo sd = live lo s - tracker_ppn ` set (old @ [f])" using sd(4) l1 by auto
      show "keeps lo (live lo s - pt_ppns pt - tracker_ppn ` set (old @ [f])) s sd"
        by (rule keeps_trans [OF keeps_mono [OF k1] keeps_mono [OF sd(5)]]) (use l1 in auto)
      show "?area2 = area\<lparr>data_frames := data_frames ?area2\<rparr>" by (subst a1) simp
      show "map_of (data_frames ?area2) w = (if map_type area = Framed \<and> w \<in> set (xs @ [v])
          then None else map_of (data_frames area) w)" for w
        using map1 Framed by simp
      show "mset (map snd (data_frames area)) = mset (map snd (data_frames ?area2)) + mset (old @ [f])"
        using ms1 sd(7) by simp
    qed (use sd(3,6) view1 v in auto)
    then have "wp (PageTable_unmap v pt)
        (\<lambda>_ s2. \<exists>old2. unmap_progress lo s area pt (xs @ [v]) ?area2 s2 old2) sd"
      by (rule wpe_post) blast
    then have "wp (frame_dealloc (tracker_ppn f)) (\<lambda>_. wp (PageTable_unmap v pt)
        (\<lambda>_ s2. \<exists>old2. unmap_progress lo s area pt (xs @ [v]) ?area2 s2 old2)) s1"
      using sd(1) by (simp add: wpe_def [of "frame_dealloc (tracker_ppn f)"])
    then show ?thesis
      by (simp add: unmap_one_def same Framed f1 drop_old_def FrameTracker_drop_def)
  qed
qed

lemma unmap_loop:
  assumes ok: "pt_ok lo s pt" "area_owns lo s pt area"
    and vs: "distinct vs" "\<forall>v\<in>set vs. unat (vpn v) < 2 ^ 27 \<and> pt_view (pmem s) pt v \<noteq> None"
      "map_type area = Framed \<Longrightarrow> set vs \<subseteq> dom (map_of (data_frames area))"
  shows "wp (kfold unmap_one vs (area, pt))
    (\<lambda>(area', pt') s'. pt' = pt \<and> (\<exists>old. unmap_progress lo s area pt vs area' s' old)) s"
proof -
  let ?I = "\<lambda>xs x s'. snd x = pt \<and> (\<exists>old. unmap_progress lo s area pt xs (fst x) s' old)"
  have "wp (kfold unmap_one vs (area, pt)) (?I vs) s"
  proof (rule wpe_kfold [where I = ?I])
    show "?I [] (area, pt) s" using unmap_progress_refl [OF ok] by auto
  next
    fix xs v ys x s1
    assume e: "vs = xs @ v # ys" and "?I xs x s1"
    then obtain old where pr: "unmap_progress lo s area pt xs (fst x) s1 old" and x: "snd x = pt" by blast
    have "wp (unmap_one v (fst x, pt))
      (\<lambda>(area2, pt2) s2. pt2 = pt \<and> (\<exists>old2. unmap_progress lo s area pt (xs @ [v]) area2 s2 old2)) s1"
      by (rule unmap_one_step [OF pr]) (use vs e in auto)
    then show "wp (unmap_one v x) (?I (xs @ [v])) s1"
      using x by (cases x) (auto elim!: wpe_post)
  qed
  then show ?thesis by (rule wpe_post) (auto simp: case_prod_beta)
qed

end
