(* ===== verification/Address_Space.thy ===== *)
theory Address_Space
  imports Memory_Set
begin

text \<open>
  The invariant of an address space (\<open>ms_ok\<close>: the page table maps exactly the pages of
  the areas, every page to a frame of its own, and all frames are live and owned once)
  and what the operations of \<^verbatim>\<open>mm/memory_set.rs\<close> do to it: \<open>push\<close>, \<open>shrink_to\<close>,
  \<open>append_to\<close>, dropping, and the copy made by fork.
\<close>

section \<open>The invariant of an address space\<close>

definition area_ok :: "MapArea \<Rightarrow> bool" where
  "area_ok a \<longleftrightarrow> get_start (vpn_range a) \<le> get_end (vpn_range a) \<and>
     unat (vpn (get_end (vpn_range a))) \<le> 2 ^ 27 \<and> bt_ok (data_frames a) \<and>
     fst ` set (data_frames a) = (if map_type a = Framed then set (vpns (vpn_range a)) else {})"

definition area_trackers :: "MapArea \<Rightarrow> FrameTracker list" where
  "area_trackers a = map snd (data_frames a)"

definition ms_trackers :: "MemorySet \<Rightarrow> FrameTracker list" where
  "ms_trackers ms = pt_frames (page_table ms) @ concat (map area_trackers (areas ms))"

definition ms_ppns :: "MemorySet \<Rightarrow> PhysPageNum set" where
  "ms_ppns ms = tracker_ppn ` set (ms_trackers ms)"

definition ms_pages :: "MemorySet \<Rightarrow> VirtPageNum list" where
  "ms_pages ms = concat (map (\<lambda>a. vpns (vpn_range a)) (areas ms))"

definition TRAMPOLINE_VPN :: VirtPageNum where
  "TRAMPOLINE_VPN = VirtPageNum 0x7ffffff"

text \<open>
  What a space maps according to its areas; \<open>T\<close> is the entry of the trampoline page,
  which belongs to no area.
\<close>

definition ms_view ::
  "PageTableEntry option \<Rightarrow> MapArea list \<Rightarrow> VirtPageNum \<Rightarrow> PageTableEntry option" where
  "ms_view T as w =
     (case find (\<lambda>a. w \<in> set (vpns (vpn_range a))) as of
        Some a \<Rightarrow> Some (area_pte a w)
      | None \<Rightarrow> if w = TRAMPOLINE_VPN then T else None)"

definition ms_ok ::
  "PageTableEntry option \<Rightarrow> usize \<Rightarrow> 'z mm_state_scheme \<Rightarrow> MemorySet \<Rightarrow> bool" where
  "ms_ok T lo s ms \<longleftrightarrow> pt_ok lo s (page_table ms) \<and> (\<forall>a\<in>set (areas ms). area_ok a) \<and>
     distinct (ms_pages ms) \<and> (T \<noteq> None \<longrightarrow> TRAMPOLINE_VPN \<notin> set (ms_pages ms)) \<and>
     distinct (map tracker_ppn (ms_trackers ms)) \<and> ms_ppns ms \<subseteq> live lo s \<and>
     (\<forall>w. unat (vpn w) < 2 ^ 27 \<longrightarrow> pt_view (pmem s) (page_table ms) w = ms_view T (areas ms) w)"

lemma area_page_small:
  assumes "area_ok a" "w \<in> set (vpns (vpn_range a))"
  shows "unat (vpn w) < 2 ^ 27"
  using assms by (auto simp: area_ok_def set_vpns less_VirtPageNum_def word_less_nat_alt)

lemma area_ppns_trackers: "area_ppns a = tracker_ppn ` set (area_trackers a)"
  by (simp add: area_ppns_def area_trackers_def image_comp)

lemma ms_ppns_eq:
  "ms_ppns ms = pt_ppns (page_table ms) \<union> (\<Union>a\<in>set (areas ms). area_ppns a)"
  by (auto simp: ms_ppns_def ms_trackers_def pt_ppns_def area_trackers_def area_ppns_def)

lemma ms_ok_area_owns:
  assumes ok: "ms_ok T lo s ms" and a: "a \<in> set (areas ms)"
  shows "area_owns lo s (page_table ms) a"
proof -
  obtain xs ys where ar: "areas ms = xs @ a # ys" using a by (auto simp: in_set_conv_decomp)
  have d: "distinct (map tracker_ppn (ms_trackers ms))" and l: "ms_ppns ms \<subseteq> live lo s"
    and "area_ok a" using ok a by (auto simp: ms_ok_def)
  have "distinct (map tracker_ppn (area_trackers a))"
    "pt_ppns (page_table ms) \<inter> tracker_ppn ` set (area_trackers a) = {}"
    using d by (auto simp: ms_trackers_def ar pt_ppns_def)
  moreover have "area_ppns a \<subseteq> live lo s" using l a by (auto simp: ms_ppns_eq)
  moreover have "map (tracker_ppn \<circ> snd) (data_frames a) = map tracker_ppn (area_trackers a)"
    by (simp add: area_trackers_def)
  ultimately show ?thesis
    using \<open>area_ok a\<close> unfolding area_owns_def area_ok_def area_ppns_trackers by auto
qed

lemma ms_view_None:
  "ms_view T as w = None \<longleftrightarrow>
     (\<forall>a\<in>set as. w \<notin> set (vpns (vpn_range a))) \<and> (w = TRAMPOLINE_VPN \<longrightarrow> T = None)"
proof (cases "find (\<lambda>a. w \<in> set (vpns (vpn_range a))) as")
  case None
  then have "\<forall>a\<in>set as. w \<notin> set (vpns (vpn_range a))" by (auto simp: find_None_iff)
  then show ?thesis using None by (simp add: ms_view_def)
next
  case (Some a)
  then have "a \<in> set as" "w \<in> set (vpns (vpn_range a))" by (auto simp: find_Some_iff)
  then show ?thesis using Some by (auto simp: ms_view_def)
qed

lemma ms_view_append:
  assumes "\<And>v. v \<in> set (vpns (vpn_range a)) \<Longrightarrow> ms_view T as v = None"
  shows "ms_view T (as @ [a]) w =
    (if w \<in> set (vpns (vpn_range a)) then Some (area_pte a w) else ms_view T as w)"
proof (cases "find (\<lambda>a. w \<in> set (vpns (vpn_range a))) as")
  case None
  then show ?thesis by (simp add: ms_view_def find_append)
next
  case (Some b)
  then have "b \<in> set as" "w \<in> set (vpns (vpn_range b))" by (auto simp: find_Some_iff)
  then have "w \<notin> set (vpns (vpn_range a))" using assms [of w] by (auto simp: ms_view_None)
  then show ?thesis using Some by (simp add: ms_view_def find_append)
qed

lemma others_unchanged:
  "L' - P' = (L - P) \<union> N \<Longrightarrow> N \<inter> (L \<union> P') = {} \<Longrightarrow> L' - (P' \<union> D \<union> N) = L - (P \<union> D)"
  by blast

text \<open>The state of affairs after a new area has been mapped into a space.\<close>

lemma push_area:
  assumes ok: "ms_ok T lo s ms" and new: "data_frames area = []"
    and rg: "get_start (vpn_range area) \<le> get_end (vpn_range area)"
      "unat (vpn (get_end (vpn_range area))) \<le> 2 ^ 27"
    and pr: "map_progress lo s area (page_table ms) (vpns (vpn_range area)) area' pt' s' fs"
  shows "ms_ok T lo s' (ms\<lparr>page_table := pt', areas := areas ms @ [area']\<rparr>)" (is "ms_ok _ _ _ ?ms")
    and "live lo s' - ms_ppns (ms\<lparr>page_table := pt', areas := areas ms @ [area']\<rparr>) = live lo s - ms_ppns ms"
proof -
  have rg': "vpn_range area' = vpn_range area" "map_type area' = map_type area"
    using pr by (metis MapArea.surjective MapArea.update_convs(2) MapArea.select_convs(1,3) map_progress_def)+
  have okpt: "pt_ok lo s (page_table ms)" and ar: "\<forall>a\<in>set (areas ms). area_ok a"
    and dp: "distinct (ms_pages ms)" and dt: "distinct (map tracker_ppn (ms_trackers ms))"
    and lv: "ms_ppns ms \<subseteq> live lo s"
    and view: "\<And>w. unat (vpn w) < 2 ^ 27 \<Longrightarrow> pt_view (pmem s) (page_table ms) w = ms_view T (areas ms) w"
    using ok by (auto simp: ms_ok_def)
  have "area_ok area'" using pr rg rg' new by (auto simp: area_ok_def map_progress_def)
  note small = area_page_small [OF this, unfolded rg']
  have free: "ms_view T (areas ms) w = None" if "w \<in> set (vpns (vpn_range area))" for w
    using pr that view [OF small [OF that]] by (auto simp: map_progress_def)
  have trk: "mset (area_trackers area') = mset fs"
    using pr new by (simp add: map_progress_def area_trackers_def)
  then have trk': "set (area_trackers area') = set fs" "distinct (map tracker_ppn (area_trackers area'))"
    using pr by (metis mset_eq_setD, metis map_progress_def mset_eq_imp_distinct_iff mset_map)
  have fsn: "tracker_ppn ` set fs \<inter> (live lo s \<union> pt_ppns pt') = {}" "pt_ok lo s' pt'"
    "live lo s' - pt_ppns pt' = live lo s - pt_ppns (page_table ms) \<union> tracker_ppn ` set fs"
    using pr by (auto simp: map_progress_def)
  have ppns: "ms_ppns ?ms = pt_ppns pt' \<union> (\<Union>a\<in>set (areas ms). area_ppns a) \<union> tracker_ppn ` set fs"
    using trk'(1) by (simp add: ms_ppns_eq area_ppns_trackers [of area'] Un_ac)
  have data: "(\<Union>a\<in>set (areas ms). area_ppns a) \<subseteq> live lo s - pt_ppns (page_table ms)"
    using ms_ok_area_owns [OF ok] by (auto simp: area_owns_def)
  have ptl: "pt_ppns pt' \<subseteq> live lo s'" "pt_ppns (page_table ms) \<subseteq> live lo s"
    using fsn(2) okpt by (auto simp: pt_ok_def)
  show "ms_ok T lo s' ?ms"
    unfolding ms_ok_def
  proof (intro conjI)
    show "pt_ok lo s' (page_table ?ms)" using fsn(2) by simp
    show "\<forall>a\<in>set (areas ?ms). area_ok a" using ar \<open>area_ok area'\<close> by auto
    have "set (vpns (vpn_range area)) \<inter> set (ms_pages ms) = {}"
      using free by (fastforce simp: ms_pages_def ms_view_None)
    then show "distinct (ms_pages ?ms)"
      using dp distinct_vpns by (auto simp: ms_pages_def rg')
    show "T \<noteq> None \<longrightarrow> TRAMPOLINE_VPN \<notin> set (ms_pages ?ms)"
    proof
      assume T: "T \<noteq> None"
      then have "TRAMPOLINE_VPN \<notin> set (ms_pages ms)" using ok by (simp add: ms_ok_def)
      moreover have "TRAMPOLINE_VPN \<notin> set (vpns (vpn_range area))"
        using T free ms_view_None by blast
      ultimately show "TRAMPOLINE_VPN \<notin> set (ms_pages ?ms)" by (simp add: ms_pages_def rg')
    qed
    show "ms_ppns ?ms \<subseteq> live lo s'" using ppns data fsn(3) ptl by blast
    have d: "distinct (map tracker_ppn (pt_frames pt'))" using fsn(2) by (simp add: pt_ok_def)
    have "distinct (map tracker_ppn (concat (map area_trackers (areas ms))))"
      using dt by (simp add: ms_trackers_def)
    moreover have "tracker_ppn ` set (concat (map area_trackers (areas ms))) = (\<Union>a\<in>set (areas ms). area_ppns a)"
      by (auto simp: area_ppns_trackers)
    moreover have "pt_ppns pt' \<inter> (\<Union>a\<in>set (areas ms). area_ppns a) = {}"
      using data fsn(3) by blast
    moreover have "tracker_ppn ` set fs \<inter> (\<Union>a\<in>set (areas ms). area_ppns a) = {}"
      "tracker_ppn ` set fs \<inter> pt_ppns pt' = {}" using data fsn(1) by blast+
    ultimately show "distinct (map tracker_ppn (ms_trackers ?ms))"
      using d trk' by (auto simp: ms_trackers_def pt_ppns_def)
    show "\<forall>w. unat (vpn w) < 2 ^ 27 \<longrightarrow> pt_view (pmem s') (page_table ?ms) w = ms_view T (areas ?ms) w"
      using pr view ms_view_append [of area' T "areas ms"] free
      by (auto simp: map_progress_def rg')
  qed
  show "live lo s' - ms_ppns ?ms = live lo s - ms_ppns ms"
    unfolding ppns ms_ppns_eq [of ms] using others_unchanged [OF fsn(3,1)] .
qed

section \<open>Pushing an area\<close>

lemma range_small:
  assumes "unat (vpn (get_end rg)) \<le> 2 ^ 27" "v \<in> set (vpns rg)"
  shows "unat (vpn v) < 2 ^ 27"
  using assms by (auto simp: set_vpns less_VirtPageNum_def word_less_nat_alt)

lemma ms_push_None:
  "ms_push area None ms = kbind (MapArea_map area (page_table ms))
     (\<lambda>x. kret (ms\<lparr>page_table := snd x, areas := areas ms @ [fst x]\<rparr>))"
  by (simp add: ms_push_def kdefs fun_eq_iff split: sum.split prod.split)

lemma ms_push_spec:
  assumes ok: "ms_ok T lo s ms" and new: "data_frames area = []"
    and rg: "get_start (vpn_range area) \<le> get_end (vpn_range area)"
      "unat (vpn (get_end (vpn_range area))) \<le> 2 ^ 27"
  shows "wpe (ms_push area None ms)
    (\<lambda>ms' s'. \<exists>area' fs. areas ms' = areas ms @ [area'] \<and> root_ppn (page_table ms') = root_ppn (page_table ms) \<and>
       map_progress lo s area (page_table ms) (vpns (vpn_range area)) area' (page_table ms') s' fs \<and>
       ms_ok T lo s' ms' \<and> live lo s' - ms_ppns ms' = live lo s - ms_ppns ms)
    (\<lambda>e. e = AssertFailed \<and> (\<exists>v\<in>set (vpns (vpn_range area)). ms_view T (areas ms) v \<noteq> None) \<or>
         e = UnwrapNone \<and> fa_free (FRAME_ALLOCATOR s) < 3 * length (vpns (vpn_range area))) s"
proof -
  have okpt: "pt_ok lo s (page_table ms)" using ok by (simp add: ms_ok_def)
  have view: "pt_view (pmem s) (page_table ms) v = ms_view T (areas ms) v"
    if "v \<in> set (vpns (vpn_range area))" for v
    using ok range_small [OF rg(2) that] by (simp add: ms_ok_def)
  have "wpe (kfold map_one (vpns (vpn_range area)) (area, page_table ms))
    (\<lambda>(area', pt') s'. \<exists>fs. map_progress lo s area (page_table ms) (vpns (vpn_range area)) area' pt' s' fs)
    (\<lambda>e. e = AssertFailed \<and> (\<exists>v\<in>set (vpns (vpn_range area)). pt_view (pmem s) (page_table ms) v \<noteq> None) \<or>
         e = UnwrapNone \<and> fa_free (FRAME_ALLOCATOR s) < 3 * length (vpns (vpn_range area))) s"
    by (rule map_loop [OF okpt _ distinct_vpns]) (use new range_small [OF rg(2)] in \<open>auto simp: bt_ok_def\<close>)
  then show ?thesis
    unfolding ms_push_None wpe_kbind wpe_kret MapArea_map_def
  proof (rule wpe_mono)
    fix x s'
    assume "(case x of (area', pt') \<Rightarrow> \<lambda>s'. \<exists>fs. map_progress lo s area (page_table ms)
      (vpns (vpn_range area)) area' pt' s' fs) s'"
    then obtain fs where pr:
      "map_progress lo s area (page_table ms) (vpns (vpn_range area)) (fst x) (snd x) s' fs"
      by (auto simp: case_prod_beta)
    then have "root_ppn (snd x) = root_ppn (page_table ms)" by (simp add: map_progress_def)
    with pr push_area [OF ok new rg pr]
    show "\<exists>area' fs. areas (ms\<lparr>page_table := snd x, areas := areas ms @ [fst x]\<rparr>) = areas ms @ [area'] \<and>
        root_ppn (page_table (ms\<lparr>page_table := snd x, areas := areas ms @ [fst x]\<rparr>)) = root_ppn (page_table ms) \<and>
        map_progress lo s area (page_table ms) (vpns (vpn_range area)) area'
          (page_table (ms\<lparr>page_table := snd x, areas := areas ms @ [fst x]\<rparr>)) s' fs \<and>
        ms_ok T lo s' (ms\<lparr>page_table := snd x, areas := areas ms @ [fst x]\<rparr>) \<and>
        live lo s' - ms_ppns (ms\<lparr>page_table := snd x, areas := areas ms @ [fst x]\<rparr>) = live lo s - ms_ppns ms"
      by (intro exI [of _ "fst x"] exI [of _ fs]) simp
  qed (use view in auto)
qed

section \<open>Shrinking and growing an area\<close>

lemma ms_view_hit:
  assumes "distinct (concat (map (\<lambda>a. vpns (vpn_range a)) as))" "a \<in> set as" "w \<in> set (vpns (vpn_range a))"
  shows "ms_view T as w = Some (area_pte a w)"
  using assms
proof (induction as)
  case (Cons b as)
  show ?case
  proof (cases "w \<in> set (vpns (vpn_range b))")
    case True
    then have "a = b" using Cons.prems by auto
    with True show ?thesis by (simp add: ms_view_def)
  next
    case False
    then have "ms_view T as w = Some (area_pte a w)" using Cons by auto
    with False show ?thesis by (simp add: ms_view_def)
  qed
qed simp

lemma ms_view_miss:
  assumes "\<And>a. a \<in> set as \<Longrightarrow> w \<notin> set (vpns (vpn_range a))"
  shows "ms_view T as w = (if w = TRAMPOLINE_VPN then T else None)"
proof -
  have "find (\<lambda>a. w \<in> set (vpns (vpn_range a))) as = None" using assms by (auto simp: find_None_iff)
  then show ?thesis by (simp add: ms_view_def)
qed

text \<open>Replacing one area by a smaller one whose extra frames were given back.\<close>

lemma replace_area:
  assumes ok: "ms_ok T lo s ms" and ar: "areas ms = xs @ a # ys"
    and a': "area_ok a'" "set (vpns (vpn_range a')) \<subseteq> set (vpns (vpn_range a))"
      "\<And>w. w \<in> set (vpns (vpn_range a')) \<Longrightarrow> area_pte a' w = area_pte a w"
    and tr: "mset (area_trackers a) = mset (area_trackers a') + mset old"
    and pt: "pt_ok lo s' (page_table ms)" and lv: "live lo s' = live lo s - tracker_ppn ` set old"
    and view: "\<And>w. unat (vpn w) < 2 ^ 27 \<Longrightarrow> pt_view (pmem s') (page_table ms) w =
      (if w \<in> set (vpns (vpn_range a)) - set (vpns (vpn_range a')) then None
       else pt_view (pmem s) (page_table ms) w)"
  shows "ms_ok T lo s' (ms\<lparr>areas := xs @ a' # ys\<rparr>)" (is "ms_ok _ _ _ ?ms")
    and "live lo s' - ms_ppns (ms\<lparr>areas := xs @ a' # ys\<rparr>) = live lo s - ms_ppns ms"
    and "ms_ppns ms = ms_ppns (ms\<lparr>areas := xs @ a' # ys\<rparr>) \<union> tracker_ppn ` set old"
proof -
  have pg: "distinct (ms_pages ms)" and dt: "distinct (map tracker_ppn (ms_trackers ms))"
    and sub: "ms_ppns ms \<subseteq> live lo s"
    using ok by (auto simp: ms_ok_def)
  have mt: "mset (map tracker_ppn (ms_trackers ms)) = mset (map tracker_ppn (ms_trackers ?ms @ old))"
    using tr by (simp add: ms_trackers_def ar)
  then have dt': "distinct (map tracker_ppn (ms_trackers ?ms @ old))"
    using dt mset_eq_imp_distinct_iff by blast
  have "tracker_ppn ` set (ms_trackers ms) = tracker_ppn ` set (ms_trackers ?ms @ old)"
    using mset_eq_setD [OF mt] by (simp add: image_Un)
  then show pp: "ms_ppns ms = ms_ppns ?ms \<union> tracker_ppn ` set old"
    by (simp add: ms_ppns_def image_Un)
  have dj: "ms_ppns ?ms \<inter> tracker_ppn ` set old = {}" using dt' by (auto simp: ms_ppns_def)
  show "live lo s' - ms_ppns ?ms = live lo s - ms_ppns ms" using lv pp by blast
  have pages: "distinct (ms_pages ?ms)" "set (ms_pages ?ms) \<subseteq> set (ms_pages ms)"
    using pg a'(2) distinct_vpns [of "vpn_range a'"] by (auto simp: ms_pages_def ar)
  have "pt_view (pmem s') (page_table ms) w = ms_view T (xs @ a' # ys) w"
    if w: "unat (vpn w) < 2 ^ 27" for w
  proof -
    have old: "pt_view (pmem s) (page_table ms) w = ms_view T (xs @ a # ys) w"
      using ok w ar by (simp add: ms_ok_def)
    have d: "distinct (concat (map (\<lambda>a. vpns (vpn_range a)) (xs @ a # ys)))"
      "distinct (concat (map (\<lambda>a. vpns (vpn_range a)) (xs @ a' # ys)))"
      using pg pages(1) by (simp_all add: ms_pages_def ar)
    consider (new) "w \<in> set (vpns (vpn_range a'))"
      | (gone) "w \<in> set (vpns (vpn_range a))" "w \<notin> set (vpns (vpn_range a'))"
      | (other) b where "b \<in> set xs \<union> set ys" "w \<in> set (vpns (vpn_range b))"
      | (none) "\<forall>b\<in>set xs \<union> set ys \<union> {a}. w \<notin> set (vpns (vpn_range b))" by blast
    then show ?thesis
    proof cases
      case new
      then show ?thesis
        using view [OF w] old a'(2,3) ms_view_hit [OF d(1), of a w] ms_view_hit [OF d(2), of a' w] by auto
    next
      case gone
      have "w \<notin> set (vpns (vpn_range b))" if "b \<in> set (xs @ a' # ys)" for b
        using gone d(1) that by auto
      moreover have "w \<noteq> TRAMPOLINE_VPN \<or> T = None"
        using ok gone(1) by (auto simp: ms_ok_def ms_pages_def ar)
      ultimately show ?thesis using view [OF w] gone ms_view_miss [of "xs @ a' # ys" w T] by auto
    next
      case other
      then have "w \<notin> set (vpns (vpn_range a))" using d(1) by auto
      then show ?thesis
        using view [OF w] old other ms_view_hit [OF d(1), of b w] ms_view_hit [OF d(2), of b w] by auto
    next
      case none
      have "ms_view T (xs @ a' # ys) w = (if w = TRAMPOLINE_VPN then T else None)"
        by (rule ms_view_miss) (use none a'(2) in auto)
      moreover have "ms_view T (xs @ a # ys) w = (if w = TRAMPOLINE_VPN then T else None)"
        by (rule ms_view_miss) (use none in auto)
      ultimately show ?thesis using view [OF w] old none by simp
    qed
  qed
  then show "ms_ok T lo s' ?ms"
    using ok pt a'(1) ar pages dt' dj sub lv pp by (auto simp: ms_ok_def)
qed


text \<open>The bookkeeping at the end of \<open>shrink_to\<close>.\<close>

lemma shrink_finish:
  assumes ok: "ms_ok T lo s ms" and ar: "areas ms = xs @ a # ys"
    and ne: "get_start (vpn_range a) \<le> ne" "ne \<le> get_end (vpn_range a)"
    and pr: "unmap_progress lo s a (page_table ms) (vpns \<lparr>range_l = ne, range_r = get_end (vpn_range a)\<rparr>) a1 s' old"
  defines "a' \<equiv> a1\<lparr>vpn_range := \<lparr>range_l = get_start (vpn_range a), range_r = ne\<rparr>\<rparr>"
  shows "vpn_range a1 = vpn_range a \<and> ms_ok T lo s' (ms\<lparr>areas := xs @ a' # ys\<rparr>) \<and>
      map_type a1 = map_type a \<and> map_perm a1 = map_perm a \<and>
      live lo s' - ms_ppns (ms\<lparr>areas := xs @ a' # ys\<rparr>) = live lo s - ms_ppns ms \<and>
      keeps lo (live lo s' - pt_ppns (page_table ms)) s s'"
proof -
  let ?pt = "page_table ms" and ?rg = "\<lparr>range_l = ne, range_r = get_end (vpn_range a)\<rparr>"
  have aok: "area_ok a" using ok ar by (auto simp: ms_ok_def)
  have sub: "set (vpns ?rg) \<subseteq> set (vpns (vpn_range a))"
    using ne by (auto simp: set_vpns get_start_def get_end_def)
  have a1: "a1 = a\<lparr>data_frames := data_frames a1\<rparr>" using pr by (simp add: unmap_progress_def)
  have same: "vpn_range a1 = vpn_range a" "map_type a1 = map_type a" "map_perm a1 = map_perm a"
    by (subst a1, simp)+
  have pages: "set (vpns (vpn_range a')) = set (vpns (vpn_range a)) - set (vpns ?rg)"
    using ne by (auto simp: a'_def set_vpns get_start_def get_end_def)
  have dom': "map_of (data_frames a1) w =
      (if map_type a = Framed \<and> w \<in> set (vpns ?rg) then None else map_of (data_frames a) w)" for w
    using pr by (simp add: unmap_progress_def)
  then have "dom (map_of (data_frames a1)) =
      dom (map_of (data_frames a)) - (if map_type a = Framed then set (vpns ?rg) else {})"
    by (auto simp: dom_def split: if_splits)
  then have "area_ok a'"
    using aok ne pr pages same unfolding area_ok_def a'_def
    by (auto simp: dom_map_of_conv_image_fst unmap_progress_def area_owns_def get_start_def get_end_def
        less_eq_VirtPageNum_def word_le_nat_alt)
  moreover have "area_pte a' w = area_pte a w" if "w \<in> set (vpns (vpn_range a'))" for w
    using that dom' [of w] same pages by (cases "map_type a") (auto simp: area_pte_def a'_def)
  moreover have "pt_view (pmem s') ?pt w =
      (if w \<in> set (vpns (vpn_range a)) - set (vpns (vpn_range a')) then None else pt_view (pmem s) ?pt w)"
    if "unat (vpn w) < 2 ^ 27" for w
    using pr that pages sub by (auto simp: unmap_progress_def)
  moreover have "mset (area_trackers a) = mset (area_trackers a') + mset old"
    "pt_ok lo s' ?pt" "live lo s' = live lo s - tracker_ppn ` set old"
    using pr by (simp_all add: unmap_progress_def area_trackers_def a'_def)
  ultimately have "ms_ok T lo s' (ms\<lparr>areas := xs @ a' # ys\<rparr>)"
    "live lo s' - ms_ppns (ms\<lparr>areas := xs @ a' # ys\<rparr>) = live lo s - ms_ppns ms"
    using replace_area [OF ok ar, of a' old s'] pages by auto
  moreover have "keeps lo (live lo s' - pt_ppns ?pt) s s'"
    using pr by (auto simp: unmap_progress_def intro: keeps_mono)
  ultimately show ?thesis using same by simp
qed

lemma shrink_area:
  assumes ok: "ms_ok T lo s ms" and ar: "areas ms = xs @ a # ys"
    and ne: "get_start (vpn_range a) \<le> ne" "ne \<le> get_end (vpn_range a)"
  shows "wp (MapArea_shrink_to ne a (page_table ms))
    (\<lambda>(a', pt') s'. pt' = page_table ms \<and>
       vpn_range a' = \<lparr>range_l = get_start (vpn_range a), range_r = ne\<rparr> \<and>
       map_type a' = map_type a \<and> map_perm a' = map_perm a \<and>
       ms_ok T lo s' (ms\<lparr>areas := xs @ a' # ys\<rparr>) \<and>
       live lo s' - ms_ppns (ms\<lparr>areas := xs @ a' # ys\<rparr>) = live lo s - ms_ppns ms \<and>
       keeps lo (live lo s' - pt_ppns (page_table ms)) s s') s"
proof -
  let ?pt = "page_table ms" and ?rg = "\<lparr>range_l = ne, range_r = get_end (vpn_range a)\<rparr>"
  have aok: "area_ok a" and okpt: "pt_ok lo s ?pt" and d: "distinct (ms_pages ms)"
    using ok ar by (auto simp: ms_ok_def)
  have own: "area_owns lo s ?pt a" using ms_ok_area_owns [OF ok, of a] ar by simp
  have sub: "set (vpns ?rg) \<subseteq> set (vpns (vpn_range a))"
    using ne by (auto simp: set_vpns get_start_def get_end_def)
  have mapped: "pt_view (pmem s) ?pt v \<noteq> None" "unat (vpn v) < 2 ^ 27"
    if "v \<in> set (vpns ?rg)" for v
  proof -
    show sm: "unat (vpn v) < 2 ^ 27" using area_page_small [OF aok] sub that by blast
    have "ms_view T (areas ms) v = Some (area_pte a v)"
      using ms_view_hit [of "areas ms" a v T] d ar sub that by (auto simp: ms_pages_def)
    then show "pt_view (pmem s) ?pt v \<noteq> None" using ok sm by (simp add: ms_ok_def)
  qed
  have keys: "set (vpns ?rg) \<subseteq> dom (map_of (data_frames a))" if "map_type a = Framed"
    using aok that sub by (simp add: area_ok_def dom_map_of_conv_image_fst)
  have loop: "wp (kfold unmap_one (vpns ?rg) (a, ?pt))
    (\<lambda>(a1, pt') s'. pt' = ?pt \<and> (\<exists>old. unmap_progress lo s a ?pt (vpns ?rg) a1 s' old)) s"
    by (rule unmap_loop [OF okpt own distinct_vpns]) (use mapped keys in auto)
  have r1: "SimpleRange_new ne (get_end (vpn_range a)) = Inr ?rg"
    and r2: "SimpleRange_new (get_start (vpn_range a)) ne = Inr \<lparr>range_l = get_start (vpn_range a), range_r = ne\<rparr>"
    using ne by (simp_all add: SimpleRange_new_def)
  show ?thesis
    unfolding MapArea_shrink_to_def wpe_kbind wpe_kres r1
    using loop by (auto simp: r2 elim!: wpe_post dest!: shrink_finish [OF ok ar ne])
qed

section \<open>Dropping a space\<close>

lemma drop_trackers_spec:
  assumes "fa_inv lo (FRAME_ALLOCATOR s)" "distinct (map tracker_ppn ts)" "tracker_ppn ` set ts \<subseteq> live lo s"
  shows "wp (drop_trackers ts)
    (\<lambda>_ s'. pmem s' = pmem s \<and> live lo s' = live lo s - tracker_ppn ` set ts \<and>
       keeps lo (live lo s - tracker_ppn ` set ts) s s') s"
  unfolding drop_trackers_def
proof (rule wpe_kfold [where I = "\<lambda>xs _ s'. pmem s' = pmem s \<and> live lo s' = live lo s - tracker_ppn ` set xs \<and>
       keeps lo (live lo s - tracker_ppn ` set xs) s s'"])
  show "pmem s = pmem s \<and> live lo s = live lo s - tracker_ppn ` set [] \<and>
    keeps lo (live lo s - tracker_ppn ` set []) s s"
    using assms(1) by (simp add: keeps_refl)
next
  fix xs f ys u s1
  assume e: "ts = xs @ f # ys" and I: "pmem s1 = pmem s \<and> live lo s1 = live lo s - tracker_ppn ` set xs \<and>
       keeps lo (live lo s - tracker_ppn ` set xs) s s1"
  have "tracker_ppn f \<in> live lo s1" using assms(2,3) I e by auto
  moreover have "fa_inv lo (FRAME_ALLOCATOR s1)" using I by (simp add: keeps_def)
  ultimately obtain a where a: "frame_dealloc (tracker_ppn f) s1 = Inr ((), s1\<lparr>FRAME_ALLOCATOR := a\<rparr>)"
    "fa_inv lo a" "fa_live lo a = live lo s1 - {tracker_ppn f}" using frame_dealloc_live by blast
  then have "wp (frame_dealloc (tracker_ppn f)) (\<lambda>_ s'. s' = s1\<lparr>FRAME_ALLOCATOR := a\<rparr>) s1"
    by (simp add: wpe_def)
  then show "wp (FrameTracker_drop f) (\<lambda>_ s'. pmem s' = pmem s \<and>
       live lo s' = live lo s - tracker_ppn ` set (xs @ [f]) \<and>
       keeps lo (live lo s - tracker_ppn ` set (xs @ [f])) s s') s1"
    unfolding FrameTracker_drop_def
    by (rule wpe_post) (use I a in \<open>auto simp: keeps_def\<close>)
qed

lemma drop_areas_eq:
  "kfold (\<lambda>area _. drop_area area) as () =
     (drop_trackers (concat (map area_trackers as)) :: ('z mm_state_scheme, unit) kernel)"
proof (induction as)
  case (Cons a as)
  have "kfold (\<lambda>area _. drop_area area) (a # as) () =
      (kbind (drop_trackers (area_trackers a)) (\<lambda>_. drop_trackers (concat (map area_trackers as)))
       :: ('z mm_state_scheme, unit) kernel)"
  proof -
    have "kfold (\<lambda>area _. drop_area area) as =
        (\<lambda>_. drop_trackers (concat (map area_trackers as)) :: ('z mm_state_scheme, unit) kernel)"
      using Cons.IH by (simp add: fun_eq_iff)
    then show ?thesis by (simp add: drop_area_def area_trackers_def)
  qed
  also have "\<dots> = drop_trackers (concat (map area_trackers (a # as)))"
    by (simp add: drop_trackers_def kfold_append)
  finally show ?case .
qed (simp add: drop_trackers_def)

lemma drop_memory_set_eq: "drop_memory_set ms = drop_trackers (ms_trackers ms)"
  unfolding drop_memory_set_def drop_areas_eq
  by (simp add: drop_trackers_def ms_trackers_def kfold_append kdefs fun_eq_iff split: sum.split)

section \<open>Fresh spaces\<close>

lemma ms_ok_bare:
  assumes "pt_ok lo s pt" "\<And>v. pt_view (pmem s) pt v = None"
  shows "ms_ok None lo s \<lparr>page_table = pt, areas = []\<rparr>"
  using assms by (auto simp: ms_ok_def ms_pages_def ms_trackers_def ms_ppns_def pt_ok_def pt_ppns_def
      ms_view_def)

lemma new_bare_spec:
  assumes "fa_inv lo (FRAME_ALLOCATOR s)"
  shows "wpe new_bare
    (\<lambda>ms s'. ms_ok None lo s' ms \<and> areas ms = [] \<and> keeps lo (live lo s) s s' \<and>
       ms_ppns ms \<inter> live lo s = {} \<and> live lo s' = live lo s \<union> ms_ppns ms \<and>
       fa_free (FRAME_ALLOCATOR s) \<le> fa_free (FRAME_ALLOCATOR s') + 1)
    (\<lambda>e. e = UnwrapNone \<and> fa_free (FRAME_ALLOCATOR s) < 1) s"
  unfolding new_bare_def wpe_kbind wpe_kret
proof (rule wpe_mono [OF PageTable_new_spec [OF assms]], elim conjE, intro conjI)
  fix pt s'
  assume ok: "pt_ok lo s' pt" and v: "\<forall>v. pt_view (pmem s') pt v = None"
    and root: "pt_ppns pt = {root_ppn pt}" and more: "mm_state.more s' = mm_state.more s"
    and fr: "frames_added lo (FRAME_ALLOCATOR s) [] (FRAME_ALLOCATOR s') (pt_frames pt)"
    and pk: "pages_kept (pt_ppns pt) (pmem s) (pmem s')"
  let ?ms = "\<lparr>page_table = pt, areas = []\<rparr>"
  have pp: "ms_ppns ?ms = pt_ppns pt" by (simp add: ms_ppns_def ms_trackers_def pt_ppns_def)
  from fr have lv: "live lo s' = live lo s \<union> pt_ppns pt" "live lo s \<inter> pt_ppns pt = {}"
    and free: "fa_free (FRAME_ALLOCATOR s) = fa_free (FRAME_ALLOCATOR s') + length (pt_frames pt)"
    by (auto simp: frames_added_def pt_ppns_def)
  show "ms_ok None lo s' ?ms" using ok v by (intro ms_ok_bare) auto
  show "areas ?ms = []" by simp
  have "get_bytes_array (pmem s') p = get_bytes_array (pmem s) p" if "p \<in> live lo s" for p
    using pages_keptD [OF pk fa_live_bound [OF assms that]] lv(2) that by blast
  then show "keeps lo (live lo s) s s'"
    using ok lv more by (auto simp: keeps_def pt_ok_def)
  show "ms_ppns ?ms \<inter> live lo s = {}" "live lo s' = live lo s \<union> ms_ppns ?ms" using lv pp by auto
  have "length (pt_frames pt) = card (set (map tracker_ppn (pt_frames pt)))"
    using ok distinct_card [of "map tracker_ppn (pt_frames pt)"] by (simp add: pt_ok_def)
  also have "\<dots> = 1" using root by (simp add: pt_ppns_def)
  finally show "fa_free (FRAME_ALLOCATOR s) \<le> fa_free (FRAME_ALLOCATOR s') + 1" using free by simp
qed simp

text \<open>The entry of the trampoline page, for a page-aligned trampoline.\<close>

definition trampoline_pte :: "Linker \<Rightarrow> PageTableEntry" where
  "trampoline_pte ld =
     pte_new (PhysAddr_floor (PhysAddr_from_usize (strampoline ld))) ((PTE_R OR PTE_X) OR PTE_V)"

lemma trampoline_vpn: "VirtPageNum_from_VirtAddr (VirtAddr_from_usize TRAMPOLINE) = Inr TRAMPOLINE_VPN"
  by (simp add: VirtPageNum_from_VirtAddr_def VirtAddr_from_usize_def config_defs width_defs
      VirtAddr_page_offset_def VirtAddr_floor_def TRAMPOLINE_VPN_def)

lemma map_trampoline_spec:
  assumes ok: "ms_ok None lo s ms" and ar: "areas ms = []"
    and al: "PhysAddr_page_offset (PhysAddr_from_usize (strampoline ld)) = 0"
  shows "wpe (map_trampoline ld ms)
    (\<lambda>ms' s'. ms_ok (Some (trampoline_pte ld)) lo s' ms' \<and> areas ms' = [] \<and>
       keeps lo (live lo s - ms_ppns ms) s s' \<and> live lo s' - ms_ppns ms' = live lo s - ms_ppns ms \<and>
       fa_free (FRAME_ALLOCATOR s) \<le> fa_free (FRAME_ALLOCATOR s') + 2)
    (\<lambda>e. e = UnwrapNone \<and> fa_free (FRAME_ALLOCATOR s) < 2) s"
proof -
  let ?p = "PhysAddr_floor (PhysAddr_from_usize (strampoline ld))"
  have okpt: "pt_ok lo s (page_table ms)" using ok by (simp add: ms_ok_def)
  have none: "pt_view (pmem s) (page_table ms) w = None" if "unat (vpn w) < 2 ^ 27" for w
    using ok ar that by (simp add: ms_ok_def ms_view_def)
  have sm: "unat (vpn TRAMPOLINE_VPN) < 2 ^ 27" by (simp add: TRAMPOLINE_VPN_def)
  have pp: "ms_ppns (ms\<lparr>page_table := pt\<rparr>) = pt_ppns pt" for pt
    using ar by (simp add: ms_ppns_def ms_trackers_def pt_ppns_def)
  have pp0: "ms_ppns ms = pt_ppns (page_table ms)" using pp [of "page_table ms"] by simp
  have post: "ms_ok (Some (trampoline_pte ld)) lo s' (ms\<lparr>page_table := pt'\<rparr>) \<and>
      areas (ms\<lparr>page_table := pt'\<rparr>) = [] \<and> keeps lo (live lo s - ms_ppns ms) s s' \<and>
      live lo s' - ms_ppns (ms\<lparr>page_table := pt'\<rparr>) = live lo s - ms_ppns ms \<and>
      fa_free (FRAME_ALLOCATOR s) \<le> fa_free (FRAME_ALLOCATOR s') + 2"
    if p: "pt_map_post lo TRAMPOLINE_VPN ?p (PTE_R OR PTE_X) s (page_table ms) s' pt'" for pt' s'
  proof -
    have ev: "pt_evolve lo s (page_table ms) s' pt'" using p by (simp add: pt_map_post_def)
    have "pt_view (pmem s') pt' w = ms_view (Some (trampoline_pte ld)) [] w" if "unat (vpn w) < 2 ^ 27" for w
      using p none [OF that] indexes_inj [OF sm that]
      by (simp add: pt_map_post_def ms_view_def trampoline_pte_def)
    moreover have "pt_ok lo s' pt'" using ev by (simp add: pt_evolve_def)
    ultimately have "ms_ok (Some (trampoline_pte ld)) lo s' (ms\<lparr>page_table := pt'\<rparr>)"
      using ar by (auto simp: ms_ok_def ms_pages_def ms_trackers_def pp pt_ok_def)
    then show ?thesis
      using ar pt_evolve_live [OF ev] pt_evolve_keeps [OF ev okpt] p pp0
      by (simp add: pp pt_map_post_def)
  qed
  have "wpe (PageTable_map TRAMPOLINE_VPN ?p (PTE_R OR PTE_X) (page_table ms))
     (\<lambda>pt' s'. pt_map_post lo TRAMPOLINE_VPN ?p (PTE_R OR PTE_X) s (page_table ms) s' pt')
     (\<lambda>e. e = AssertFailed \<and> pt_view (pmem s) (page_table ms) TRAMPOLINE_VPN \<noteq> None \<or>
         e = UnwrapNone \<and> fa_free (FRAME_ALLOCATOR s) < 2) s"
    by (rule PageTable_map_spec [OF okpt])
  then show ?thesis
    unfolding map_trampoline_def wpe_kbind wpe_kres wpe_kret
    using al by (auto simp: trampoline_vpn PhysPageNum_from_PhysAddr_def none [OF sm]
        elim!: wpe_mono dest!: post)
qed

section \<open>Fork\<close>

text \<open>The bytes a page shows through a space.\<close>

definition page_content :: "memory \<Rightarrow> PageTable \<Rightarrow> VirtPageNum \<Rightarrow> u8 list option" where
  "page_content m pt v = map_option (\<lambda>e. get_bytes_array m (pte_ppn e)) (pt_view m pt v)"

lemma write_page:
  assumes "length bs = 4096" "fa_inv lo (FRAME_ALLOCATOR s)" "p \<in> live lo s"
  defines "s' \<equiv> s\<lparr>pmem := mem_write (pmem s) (page_base p) bs\<rparr>"
  shows "get_bytes_array (pmem s') p = bs" "keeps lo (live lo s - {p}) s s'" "live lo s' = live lo s"
proof -
  show "get_bytes_array (pmem s') p = bs"
    using mem_read_write_same [of "pmem s" "page_base p" bs] assms(1)
    by (simp add: s'_def get_bytes_array_def)
  have "get_bytes_array (mem_write (pmem s) (page_base p + 0) bs) q = get_bytes_array (pmem s) q"
    if "q \<in> live lo s - {p}" for q
    using that assms fa_live_bound [OF assms(2)] by (intro bytes_write_other) auto
  then show "keeps lo (live lo s - {p}) s s'" "live lo s' = live lo s"
    using assms(2) by (auto simp: keeps_def s'_def)
qed

lemma ms_ok_keeps:
  assumes ok: "ms_ok T lo s ms" and k: "keeps lo K s s'" "pt_ppns (page_table ms) \<subseteq> K"
    and lv: "live lo s' = live lo s"
  shows "ms_ok T lo s' ms" "pt_view (pmem s') (page_table ms) = pt_view (pmem s) (page_table ms)"
proof -
  have "pt_ok lo s (page_table ms)" using ok by (simp add: ms_ok_def)
  note st = keeps_pt_ok [OF this k]
  show "pt_view (pmem s') (page_table ms) = pt_view (pmem s) (page_table ms)" by (rule st(2))
  show "ms_ok T lo s' ms" using ok st lv by (simp add: ms_ok_def)
qed

text \<open>What a framed page of a space maps to.\<close>

lemma ms_ok_page:
  assumes ok: "ms_ok T lo s ms" and a: "a \<in> set (areas ms)" "map_type a = Framed"
    and v: "v \<in> set (vpns (vpn_range a))"
  obtains f where "map_of (data_frames a) v = Some f" "tracker_ppn f \<in> area_ppns a"
    "pt_view (pmem s) (page_table ms) v = Some (area_pte a v)" "pte_ppn (area_pte a v) = tracker_ppn f"
    "tracker_ppn f \<in> live lo s - pt_ppns (page_table ms)"
proof -
  have aok: "area_ok a" using ok a by (simp add: ms_ok_def)
  then have "v \<in> dom (map_of (data_frames a))"
    using a v by (simp add: area_ok_def dom_map_of_conv_image_fst)
  then obtain f where f: "map_of (data_frames a) v = Some f" by auto
  then have fa: "tracker_ppn f \<in> area_ppns a" by (force simp: area_ppns_def dest: map_of_SomeD)
  have own: "tracker_ppn f \<in> live lo s - pt_ppns (page_table ms)"
    using ms_ok_area_owns [OF ok a(1)] fa by (auto simp: area_owns_def)
  have "fa_inv lo (FRAME_ALLOCATOR s)" using ok by (simp add: ms_ok_def pt_ok_def)
  then have "unat (ppn (tracker_ppn f)) < 2 ^ 44" using own fa_live_bound by blast
  then have pe: "pte_ppn (area_pte a v) = tracker_ppn f"
    using f a(2) by (simp add: area_pte_def pte_ppn_new)
  have "ms_view T (areas ms) v = Some (area_pte a v)"
    using ok a v by (intro ms_view_hit) (auto simp: ms_ok_def ms_pages_def)
  then have "pt_view (pmem s) (page_table ms) v = Some (area_pte a v)"
    using ok area_page_small [OF aok v] by (simp add: ms_ok_def)
  with that f fa own pe show ?thesis by blast
qed

lemma copy_page_spec:
  assumes p: "pt_view (pmem s) (page_table parent) v = Some e"
    and c: "pt_view (pmem s) (page_table ms) v = Some d"
    and live: "fa_inv lo (FRAME_ALLOCATOR s)" "pte_ppn d \<in> live lo s"
  shows "wp (copy_page parent ms v)
    (\<lambda>_ s'. get_bytes_array (pmem s') (pte_ppn d) = get_bytes_array (pmem s) (pte_ppn e) \<and>
       keeps lo (live lo s - {pte_ppn d}) s s' \<and> live lo s' = live lo s \<and>
       FRAME_ALLOCATOR s' = FRAME_ALLOCATOR s) s"
proof -
  have "length (get_bytes_array (pmem s) (pte_ppn e)) = 4096" by (simp add: get_bytes_array_def)
  note w = write_page [OF this live]
  show ?thesis
    using w pt_view_translate [OF p] pt_view_translate [OF c]
    by (simp add: copy_page_def ms_translate_def)
qed

lemma area_frames_differ:
  assumes "area_owns lo s pt a" "map_of (data_frames a) v = Some f" "map_of (data_frames a) w = Some g" "w \<noteq> v"
  shows "tracker_ppn g \<noteq> tracker_ppn f"
proof -
  have "distinct (map (tracker_ppn \<circ> snd) (data_frames a))" using assms(1) by (simp add: area_owns_def)
  moreover have "(w, g) \<in> set (data_frames a)" "(v, f) \<in> set (data_frames a)"
    using assms(2,3) by (auto dest: map_of_SomeD)
  ultimately show ?thesis
    using assms(4) by (auto simp: distinct_map dest!: inj_onD [of _ _ "(w, g)" "(v, f)"])
qed

text \<open>The loop that copies the pages of one area into the child's new area.\<close>

lemma copy_pages_spec:
  assumes ok: "ms_ok T lo s ms" and a: "a \<in> set (areas ms)" "map_type a = Framed"
    and par: "pt_ok lo s (page_table parent)" "pt_ppns (page_table parent) \<subseteq> L"
      "\<And>v. v \<in> set (vpns (vpn_range a)) \<Longrightarrow>
        \<exists>e. pt_view (pmem s) (page_table parent) v = Some e \<and> pte_ppn e \<in> L"
    and L: "L \<subseteq> live lo s - ms_ppns ms"
  shows "wp (kfold (\<lambda>v _. copy_page parent ms v) (vpns (vpn_range a)) ())
    (\<lambda>_ s'. ms_ok T lo s' ms \<and> live lo s' = live lo s \<and> keeps lo (live lo s - area_ppns a) s s' \<and>
       FRAME_ALLOCATOR s' = FRAME_ALLOCATOR s \<and>
       (\<forall>v\<in>set (vpns (vpn_range a)).
          page_content (pmem s') (page_table ms) v = page_content (pmem s) (page_table parent) v)) s"
proof -
  let ?I = "\<lambda>xs (_ :: unit) s'. live lo s' = live lo s \<and> keeps lo (live lo s - area_ppns a) s s' \<and>
    FRAME_ALLOCATOR s' = FRAME_ALLOCATOR s \<and>
    (\<forall>v\<in>set xs. get_bytes_array (pmem s') (pte_ppn (area_pte a v)) =
       get_bytes_array (pmem s) (pte_ppn (the (pt_view (pmem s) (page_table parent) v))))"
  have inv: "fa_inv lo (FRAME_ALLOCATOR s)" using ok by (simp add: ms_ok_def pt_ok_def)
  have own: "area_owns lo s (page_table ms) a" by (rule ms_ok_area_owns [OF ok a(1)])
  have ptK: "pt_ppns (page_table ms) \<subseteq> live lo s - area_ppns a"
    using own ok by (auto simp: area_owns_def ms_ok_def pt_ok_def)
  have LK: "L \<subseteq> live lo s - area_ppns a" using L a(1) by (auto simp: ms_ppns_eq)
  have "wp (kfold (\<lambda>v _. copy_page parent ms v) (vpns (vpn_range a)) ()) (?I (vpns (vpn_range a))) s"
  proof (rule wpe_kfold [where I = ?I])
    show "?I [] () s" using inv by (auto intro: keeps_refl)
  next
    fix xs v ys u s1
    assume e: "vpns (vpn_range a) = xs @ v # ys" and I: "?I xs u s1"
    have v: "v \<in> set (vpns (vpn_range a))" and vx: "v \<notin> set xs"
      using e distinct_vpns [of "vpn_range a"] by auto
    have k1: "keeps lo (live lo s - area_ppns a) s s1" and l1: "live lo s1 = live lo s" using I by auto
    note ok1 = ms_ok_keeps [OF ok k1 ptK l1]
    obtain f where f: "map_of (data_frames a) v = Some f" "tracker_ppn f \<in> area_ppns a"
      "pt_view (pmem s1) (page_table ms) v = Some (area_pte a v)" "pte_ppn (area_pte a v) = tracker_ppn f"
      "tracker_ppn f \<in> live lo s1 - pt_ppns (page_table ms)"
      using ms_ok_page [OF ok1(1) a v] by blast
    obtain pe where pe: "pt_view (pmem s) (page_table parent) v = Some pe" "pte_ppn pe \<in> L"
      using par(3) v by blast
    have pv: "pt_view (pmem s1) (page_table parent) v = Some pe"
      using keeps_pt_ok(2) [OF par(1) k1] par(2) LK pe(1) by simp
    have src: "get_bytes_array (pmem s1) (pte_ppn pe) = get_bytes_array (pmem s) (pte_ppn pe)"
      using keeps_bytes [OF k1] pe(2) LK by blast
    have inv1: "fa_inv lo (FRAME_ALLOCATOR s1)" using k1 by (simp add: keeps_def)
    show "wp (copy_page parent ms v) (?I (xs @ [v])) s1"
    proof (rule wpe_post [OF copy_page_spec [OF pv f(3) inv1]])
      show "pte_ppn (area_pte a v) \<in> live lo s1" using f by simp
    next
      fix u2 s2
      assume h: "get_bytes_array (pmem s2) (pte_ppn (area_pte a v)) = get_bytes_array (pmem s1) (pte_ppn pe) \<and>
        keeps lo (live lo s1 - {pte_ppn (area_pte a v)}) s1 s2 \<and> live lo s2 = live lo s1 \<and>
        FRAME_ALLOCATOR s2 = FRAME_ALLOCATOR s1"
      have "keeps lo (live lo s - area_ppns a) s1 s2"
        by (rule keeps_mono [of lo "live lo s1 - {pte_ppn (area_pte a v)}"]) (use h f(2,4) l1 in auto)
      with k1 have "keeps lo (live lo s - area_ppns a) s s2" by (rule keeps_trans)
      moreover have "get_bytes_array (pmem s2) (pte_ppn (area_pte a w)) =
          get_bytes_array (pmem s1) (pte_ppn (area_pte a w))" if "w \<in> set xs" for w
      proof -
        have w: "w \<in> set (vpns (vpn_range a))" using that e by auto
        obtain g where g: "map_of (data_frames a) w = Some g" "pte_ppn (area_pte a w) = tracker_ppn g"
          "tracker_ppn g \<in> live lo s1 - pt_ppns (page_table ms)"
          using ms_ok_page [OF ok1(1) a w] by blast
        have "tracker_ppn g \<noteq> tracker_ppn f"
          using area_frames_differ [OF own f(1) g(1)] that vx by blast
        then show ?thesis using h f(4) g by (auto simp: keeps_def)
      qed
      ultimately show "?I (xs @ [v]) u2 s2" using h I l1 pe src by auto
    qed
  qed
  then show ?thesis
  proof (rule wpe_post)
    fix u s'
    assume h: "?I (vpns (vpn_range a)) u s'"
    note ok' = ms_ok_keeps [OF ok _ ptK, of s'] 
    have "page_content (pmem s') (page_table ms) v = page_content (pmem s) (page_table parent) v"
      if "v \<in> set (vpns (vpn_range a))" for v
    proof -
      have "pt_view (pmem s') (page_table ms) v = Some (area_pte a v)"
        using ms_ok_page [OF ok a that] ok'(2) h by metis
      then show ?thesis using par(3) [OF that] h that by (auto simp: page_content_def)
    qed
    then show "ms_ok T lo s' ms \<and> live lo s' = live lo s \<and> keeps lo (live lo s - area_ppns a) s s' \<and>
       FRAME_ALLOCATOR s' = FRAME_ALLOCATOR s \<and>
       (\<forall>v\<in>set (vpns (vpn_range a)).
          page_content (pmem s') (page_table ms) v = page_content (pmem s) (page_table parent) v)"
      using h ok'(1) by blast
  qed
qed


text \<open>
  The state of a fork after the areas \<open>done\<close> of the parent: the child is a well-formed
  space made of copies of these areas, everything that was live before is untouched,
  and every copied page has the parent's bytes.
\<close>

definition same_shape :: "MapArea \<Rightarrow> MapArea \<Rightarrow> bool" where
  "same_shape a b \<longleftrightarrow> vpn_range a = vpn_range b \<and> map_type a = map_type b \<and> map_perm a = map_perm b"

definition fork_progress ::
  "PageTableEntry option \<Rightarrow> usize \<Rightarrow> 'z mm_state_scheme \<Rightarrow> MemorySet \<Rightarrow> MapArea list \<Rightarrow>
   MemorySet \<Rightarrow> 'z mm_state_scheme \<Rightarrow> bool" where
  "fork_progress T lo s parent as ms s' \<longleftrightarrow>
     ms_ok T lo s' ms \<and> list_all2 same_shape (areas ms) as \<and> keeps lo (live lo s) s s' \<and>
     ms_ppns ms \<inter> live lo s = {} \<and> live lo s' = live lo s \<union> ms_ppns ms \<and>
     (\<forall>a\<in>set as. \<forall>v\<in>set (vpns (vpn_range a)).
        page_content (pmem s') (page_table ms) v = page_content (pmem s) (page_table parent) v) \<and>
     fa_free (FRAME_ALLOCATOR s) \<le>
       fa_free (FRAME_ALLOCATOR s') + 3 + 3 * (\<Sum>a\<leftarrow>as. length (vpns (vpn_range a)))"

lemma ms_view_shape:
  assumes "list_all2 same_shape as bs"
  shows "concat (map (\<lambda>a. vpns (vpn_range a)) as) = concat (map (\<lambda>a. vpns (vpn_range a)) bs)"
  using assms by (induction rule: list_all2_induct) (auto simp: same_shape_def)

lemma page_content_keeps:
  assumes "pt_ok lo s pt" "keeps lo K s s'" "pt_ppns pt \<subseteq> K" "pt_view (pmem s) pt v = Some e" "pte_ppn e \<in> K"
  shows "page_content (pmem s') pt v = page_content (pmem s) pt v"
  using keeps_pt_ok(2) [OF assms(1-3)] keeps_bytes [OF assms(2,5)] assms(4) by (simp add: page_content_def)

text \<open>A parent's page, seen from any later state that left its frames alone.\<close>

lemma parent_page:
  assumes ok: "ms_ok T lo s ms" "\<forall>a\<in>set (areas ms). map_type a = Framed" and a: "a \<in> set (areas ms)"
    and v: "v \<in> set (vpns (vpn_range a))" and k: "keeps lo (live lo s) s s'"
  shows "\<exists>e. pt_view (pmem s') (page_table ms) v = Some e \<and> pte_ppn e \<in> live lo s"
    "page_content (pmem s') (page_table ms) v = page_content (pmem s) (page_table ms) v"
proof -
  have pt: "pt_ok lo s (page_table ms)" "pt_ppns (page_table ms) \<subseteq> live lo s"
    using ok by (auto simp: ms_ok_def pt_ok_def)
  have "map_type a = Framed" using ok(2) a by blast
  from ms_ok_page [OF ok(1) a this v] obtain f where
    "map_of (data_frames a) v = Some f" "tracker_ppn f \<in> area_ppns a" and
    f: "pt_view (pmem s) (page_table ms) v = Some (area_pte a v)"
    "pte_ppn (area_pte a v) = tracker_ppn f" "tracker_ppn f \<in> live lo s - pt_ppns (page_table ms)" .
  then show "page_content (pmem s') (page_table ms) v = page_content (pmem s) (page_table ms) v"
    by (intro page_content_keeps [OF pt(1) k pt(2)]) auto
  show "\<exists>e. pt_view (pmem s') (page_table ms) v = Some e \<and> pte_ppn e \<in> live lo s"
    using keeps_pt_ok(2) [OF pt(1) k pt(2)] f by auto
qed

text \<open>Pages copied earlier keep their bytes while the next area is added and filled.\<close>

lemma fork_old_pages:
  assumes ok1: "ms_ok T lo s1 ms" and b: "b \<in> set (areas ms)" "map_type b = Framed" "v \<in> set (vpns (vpn_range b))"
    and push: "map_progress lo s1 na (page_table ms) (vpns (vpn_range na)) area' (page_table ms2) s2 fs"
      "v \<notin> set (vpns (vpn_range na))" "area_ppns area' = tracker_ppn ` set fs"
    and ok2: "ms_ok T lo s2 ms2" and an: "area' \<in> set (areas ms2)"
    and cp: "keeps lo (live lo s2 - area_ppns area') s2 s3"
  shows "page_content (pmem s3) (page_table ms2) v = page_content (pmem s1) (page_table ms) v"
proof -
  from ms_ok_page [OF ok1 b] obtain f where
    "map_of (data_frames b) v = Some f" "tracker_ppn f \<in> area_ppns b" and
    f: "pt_view (pmem s1) (page_table ms) v = Some (area_pte b v)"
    "pte_ppn (area_pte b v) = tracker_ppn f" "tracker_ppn f \<in> live lo s1 - pt_ppns (page_table ms)" .
  have "area_ok b" using ok1 b by (simp add: ms_ok_def)
  from area_page_small [OF this b(3)] have v2: "pt_view (pmem s2) (page_table ms2) v = Some (area_pte b v)"
    using push f by (auto simp: map_progress_def)
  have k12: "keeps lo (live lo s1 - pt_ppns (page_table ms)) s1 s2"
    and new: "tracker_ppn ` set fs \<inter> live lo s1 = {}"
    using push by (auto simp: map_progress_def)
  have fl: "tracker_ppn f \<in> live lo s2 - area_ppns area'"
    using keeps_live [OF k12 f(3)] new f(3) push(3) by blast
  have "pt_ok lo s2 (page_table ms2)" "pt_ppns (page_table ms2) \<subseteq> live lo s2 - area_ppns area'"
    using ok2 ms_ok_area_owns [OF ok2 an] by (auto simp: ms_ok_def pt_ok_def area_owns_def)
  from page_content_keeps [OF this(1) cp this(2) v2] fl f(2)
  have "page_content (pmem s3) (page_table ms2) v = page_content (pmem s2) (page_table ms2) v" by simp
  also have "\<dots> = page_content (pmem s1) (page_table ms) v"
    using v2 f keeps_bytes [OF k12 f(3)] by (simp add: page_content_def)
  finally show ?thesis .
qed

lemma fork_after_copy:
  assumes pok: "ms_ok T' lo s parent" "\<forall>a\<in>set (areas parent). map_type a = Framed"
    and ar: "areas parent = xs @ a # ys" and pr: "fork_progress T lo s parent xs ms s1"
    and na: "na = \<lparr>vpn_range = vpn_range a, data_frames = [], map_type = map_type a, map_perm = map_perm a\<rparr>"
    and push: "map_progress lo s1 na (page_table ms) (vpns (vpn_range a)) area' (page_table ms2) s2 fs"
      "areas ms2 = areas ms @ [area']" "ms_ok T lo s2 ms2" "live lo s2 - ms_ppns ms2 = live lo s1 - ms_ppns ms"
    and cp: "ms_ok T lo s3 ms2" "live lo s3 = live lo s2" "keeps lo (live lo s2 - area_ppns area') s2 s3"
      "FRAME_ALLOCATOR s3 = FRAME_ALLOCATOR s2"
      "\<And>v. v \<in> set (vpns (vpn_range a)) \<Longrightarrow>
         page_content (pmem s3) (page_table ms2) v = page_content (pmem s2) (page_table parent) v"
    and ks: "keeps lo (live lo s) s s2"
  shows "fork_progress T lo s parent (xs @ [a]) ms2 s3"
proof -
  have ok1: "ms_ok T lo s1 ms" and dj: "ms_ppns ms \<inter> live lo s = {}" and l1: "live lo s1 = live lo s \<union> ms_ppns ms"
    and sh: "list_all2 same_shape (areas ms) xs"
    and cont: "\<And>b v. b \<in> set xs \<Longrightarrow> v \<in> set (vpns (vpn_range b)) \<Longrightarrow>
        page_content (pmem s1) (page_table ms) v = page_content (pmem s) (page_table parent) v"
    using pr by (auto simp: fork_progress_def)
  have l2: "live lo s2 - ms_ppns ms2 = live lo s" using push(4) l1 dj by blast
  have "mset (map snd (data_frames area')) = mset fs" using push(1) na by (simp add: map_progress_def)
  from mset_eq_setD [OF this] have ap: "area_ppns area' = tracker_ppn ` set fs"
    by (simp add: area_ppns_trackers area_trackers_def)
  have a': "area' = na\<lparr>data_frames := data_frames area'\<rparr>" using push(1) by (simp add: map_progress_def)
  have shape: "same_shape area' a" unfolding same_shape_def by (subst a', subst a', subst a', simp add: na)
  have rgs: "vpn_range na = vpn_range a" by (simp add: na)
  have old: "page_content (pmem s3) (page_table ms2) v = page_content (pmem s) (page_table parent) v"
    if b: "b \<in> set xs" "v \<in> set (vpns (vpn_range b))" for b v
  proof -
    obtain b' where b': "b' \<in> set (areas ms)" "same_shape b' b"
      using sh b(1) by (metis in_set_conv_nth list_all2_conv_all_nth)
    have "map_type b' = Framed" "v \<in> set (vpns (vpn_range b'))"
      using b' b pok(2) ar by (auto simp: same_shape_def)
    moreover have "v \<notin> set (vpns (vpn_range a))"
      using pok(1) b by (auto simp: ms_ok_def ms_pages_def ar)
    ultimately show ?thesis
      using fork_old_pages [OF ok1 b'(1), of v na area' ms2 s2 fs s3] push cp(3) ap rgs cont b by simp
  qed
  have nw: "page_content (pmem s3) (page_table ms2) v = page_content (pmem s) (page_table parent) v"
    if "v \<in> set (vpns (vpn_range a))" for v
    using cp(5) [OF that] parent_page(2) [OF pok _ that ks] ar by simp
  have "keeps lo (live lo s) s2 s3"
    by (rule keeps_mono [OF cp(3)]) (use l2 ap push(2) in \<open>auto simp: ms_ppns_eq\<close>)
  with ks have "keeps lo (live lo s) s s3" by (rule keeps_trans)
  moreover have "ms_ppns ms2 \<subseteq> live lo s2" using push(3) by (simp add: ms_ok_def)
  ultimately show ?thesis
    using old nw cp(1,2,4) l2 sh shape push(1,2) pr
    by (auto simp: fork_progress_def list_all2_append list_all2_lengthD map_progress_def)
qed

lemma sum_pages_le:
  "areas parent = xs @ a # ys \<Longrightarrow>
   (\<Sum>a\<leftarrow>xs. length (vpns (vpn_range a))) + length (vpns (vpn_range a)) \<le> length (ms_pages parent)"
  by (simp add: ms_pages_def length_concat comp_def)

lemma copy_area_step:
  assumes pok: "ms_ok T' lo s parent" "\<forall>a\<in>set (areas parent). map_type a = Framed"
    and ar: "areas parent = xs @ a # ys" and tr: "TRAMPOLINE_VPN \<notin> set (ms_pages parent)"
    and pr: "fork_progress T lo s parent xs ms s1"
  shows "wpe (copy_area parent a ms) (fork_progress T lo s parent (xs @ [a]))
    (\<lambda>e. e = UnwrapNone \<and> fa_free (FRAME_ALLOCATOR s) < 3 + 3 * length (ms_pages parent)) s1"
    (is "wpe _ _ ?E _")
proof -
  have aok: "area_ok a" and fr: "map_type a = Framed" and ain: "a \<in> set (areas parent)"
    using pok ar by (auto simp: ms_ok_def)
  let ?na = "\<lparr>vpn_range = vpn_range a, data_frames = [], map_type = map_type a, map_perm = map_perm a\<rparr>"
  have na: "from_another a = Inr ?na"
    using aok by (simp add: from_another_def SimpleRange_new_def area_ok_def get_start_def get_end_def)
  have ok1: "ms_ok T lo s1 ms" and k1: "keeps lo (live lo s) s s1"
    and dj: "ms_ppns ms \<inter> live lo s = {}" and l1: "live lo s1 = live lo s \<union> ms_ppns ms"
    and sh: "list_all2 same_shape (areas ms) xs"
    and free: "fa_free (FRAME_ALLOCATOR s) \<le>
       fa_free (FRAME_ALLOCATOR s1) + 3 + 3 * (\<Sum>a\<leftarrow>xs. length (vpns (vpn_range a)))"
    using pr by (auto simp: fork_progress_def)
  have unmapped: "ms_view T (areas ms) v = None" if "v \<in> set (vpns (vpn_range a))" for v
  proof -
    have "v \<notin> set (concat (map (\<lambda>a. vpns (vpn_range a)) (areas ms)))"
      unfolding ms_view_shape [OF sh] using pok(1) that by (auto simp: ms_ok_def ms_pages_def ar)
    moreover have "v \<noteq> TRAMPOLINE_VPN" using tr that by (auto simp: ms_pages_def ar)
    ultimately show ?thesis by (auto simp: ms_view_None)
  qed
  have ptok: "pt_ok lo s (page_table parent)" "pt_ppns (page_table parent) \<subseteq> live lo s"
    using pok by (auto simp: ms_ok_def pt_ok_def)
  have cont: "wpe (kthen (kfold (\<lambda>v _. copy_page parent ms2 v) (vpns (vpn_range a)) ()) (kret ms2))
      (fork_progress T lo s parent (xs @ [a])) ?E s2"
    if push: "map_progress lo s1 ?na (page_table ms) (vpns (vpn_range a)) area' (page_table ms2) s2 fs"
      "areas ms2 = areas ms @ [area']" "ms_ok T lo s2 ms2" "live lo s2 - ms_ppns ms2 = live lo s1 - ms_ppns ms"
    for ms2 s2 area' fs
  proof -
    have "area' = ?na\<lparr>data_frames := data_frames area'\<rparr>" using push(1) by (simp add: map_progress_def)
    then have a': "vpn_range area' = vpn_range a" "map_type area' = Framed"
      using fr by (metis MapArea.select_convs(1) MapArea.update_convs(2),
        metis MapArea.select_convs(3) MapArea.update_convs(2))
    have "live lo s \<subseteq> live lo s1 - pt_ppns (page_table ms)"
      using l1 dj by (auto simp: ms_ppns_eq)
    then have "keeps lo (live lo s) s1 s2"
      using push(1) by (auto simp: map_progress_def intro: keeps_mono)
    with k1 have k2: "keeps lo (live lo s) s s2" by (rule keeps_trans)
    have Lsub: "live lo s \<subseteq> live lo s2 - ms_ppns ms2" using push(4) l1 dj by blast
    have "wp (kfold (\<lambda>v _. copy_page parent ms2 v) (vpns (vpn_range area')) ())
      (\<lambda>_ s3. ms_ok T lo s3 ms2 \<and> live lo s3 = live lo s2 \<and> keeps lo (live lo s2 - area_ppns area') s2 s3 \<and>
       FRAME_ALLOCATOR s3 = FRAME_ALLOCATOR s2 \<and>
       (\<forall>v\<in>set (vpns (vpn_range area')).
          page_content (pmem s3) (page_table ms2) v = page_content (pmem s2) (page_table parent) v)) s2"
      by (rule copy_pages_spec [OF push(3) _ a'(2) keeps_pt_ok(1) [OF ptok(1) k2 ptok(2)] ptok(2) _ Lsub])
         (use push(2) a'(1) parent_page(1) [OF pok ain _ k2] in auto)
    then have "wp (kfold (\<lambda>v _. copy_page parent ms2 v) (vpns (vpn_range a)) ())
      (\<lambda>_. fork_progress T lo s parent (xs @ [a]) ms2) s2"
      unfolding a'(1)
      by (rule wpe_post) (use fork_after_copy [OF pok ar pr refl push _ _ _ _ _ k2] in blast)
    then show ?thesis by (simp add: wp_wpe)
  qed
  have "wpe (ms_push ?na None ms)
    (\<lambda>ms2. wpe (kthen (kfold (\<lambda>v _. copy_page parent ms2 v) (vpns (vpn_range a)) ()) (kret ms2))
      (fork_progress T lo s parent (xs @ [a])) ?E) ?E s1"
  proof (rule wpe_mono [OF ms_push_spec [OF ok1, of ?na]])
    show "data_frames ?na = []" "get_start (vpn_range ?na) \<le> get_end (vpn_range ?na)"
      "unat (vpn (get_end (vpn_range ?na))) \<le> 2 ^ 27" using aok by (auto simp: area_ok_def)
  next
    fix ms2 s2
    assume "\<exists>area' fs. areas ms2 = areas ms @ [area'] \<and> root_ppn (page_table ms2) = root_ppn (page_table ms) \<and>
       map_progress lo s1 ?na (page_table ms) (vpns (vpn_range ?na)) area' (page_table ms2) s2 fs \<and>
       ms_ok T lo s2 ms2 \<and> live lo s2 - ms_ppns ms2 = live lo s1 - ms_ppns ms"
    then show "wpe (kthen (kfold (\<lambda>v _. copy_page parent ms2 v) (vpns (vpn_range a)) ()) (kret ms2))
      (fork_progress T lo s parent (xs @ [a])) ?E s2" using cont by (auto simp del: wpe_kthen)
  next
    fix e
    assume "e = AssertFailed \<and> (\<exists>v\<in>set (vpns (vpn_range ?na)). ms_view T (areas ms) v \<noteq> None) \<or>
         e = UnwrapNone \<and> fa_free (FRAME_ALLOCATOR s1) < 3 * length (vpns (vpn_range ?na))"
    then show "?E e" using unmapped free sum_pages_le [OF ar] by auto
  qed
  then show ?thesis by (simp add: copy_area_def na)
qed

section \<open>A concrete space\<close>

text \<open>A machine with 256 free frames and a program with two data pages, on which the
  theorems below are applied.\<close>

definition demo_ld :: Linker where
  "demo_ld = \<lparr>stext = 0x80200000, etext = 0x80210000, srodata = 0x80210000, erodata = 0x80220000,
     sdata = 0x80220000, edata = 0x80230000, sbss_with_stack = 0x80230000, ebss = 0x80400000,
     ekernel = 0x80400000, strampoline = 0x80201000\<rparr>"

definition demo_machine :: mm_state where
  "demo_machine = \<lparr>pmem = (\<lambda>_. 0),
     FRAME_ALLOCATOR = \<lparr>fa_current = 0x80400, fa_end = 0x80500, recycled = []\<rparr>\<rparr>"

definition demo_area :: MapArea where
  "demo_area = \<lparr>vpn_range = \<lparr>range_l = VirtPageNum 1, range_r = VirtPageNum 3\<rparr>, data_frames = [],
     map_type = Framed, map_perm = MP_R OR MP_W OR MP_U\<rparr>"

definition demo_space :: "(mm_state, MemorySet) kernel" where
  "demo_space = kbind new_bare (\<lambda>ms. kbind (map_trampoline demo_ld ms) (\<lambda>ms. ms_push demo_area None ms))"

definition demo_ready :: "MemorySet \<Rightarrow> mm_state \<Rightarrow> bool" where
  "demo_ready ms s \<longleftrightarrow> ms_ok (Some (trampoline_pte demo_ld)) 0x80400 s ms \<and>
     (\<exists>a. areas ms = [a] \<and> same_shape a demo_area) \<and> 200 \<le> fa_free (FRAME_ALLOCATOR s)"

lemma demo_area_pages: "vpns (vpn_range demo_area) = [VirtPageNum 1, VirtPageNum 2]"
  by (simp add: demo_area_def vpns_def get_start_def get_end_def upt_rec)

lemma demo_area_new:
  "MapArea_new (VirtAddr_from_usize 0x1000) (VirtAddr_from_usize 0x3000) Framed (MP_R OR MP_W OR MP_U) =
     Inr demo_area"
  by (simp add: MapArea_new_def SimpleRange_new_def VirtAddr_from_usize_def VirtAddr_floor_def
      VirtAddr_ceil_def width_defs PAGE_SIZE_def less_eq_VirtPageNum_def demo_area_def)

lemma demo_machine_inv: "fa_inv 0x80400 (FRAME_ALLOCATOR demo_machine)"
    "fa_free (FRAME_ALLOCATOR demo_machine) = 256"
  by (simp_all add: demo_machine_def fa_inv_def fa_free_def)

lemma demo_space_ok: "wp demo_space demo_ready demo_machine"
  unfolding demo_space_def wpe_kbind
proof (rule wpe_mono [OF new_bare_spec [OF demo_machine_inv(1)]], elim conjE)
  fix ms1 and s1 :: mm_state
  assume 1: "ms_ok None 0x80400 s1 ms1" "areas ms1 = []"
    "fa_free (FRAME_ALLOCATOR demo_machine) \<le> fa_free (FRAME_ALLOCATOR s1) + 1"
  have al: "PhysAddr_page_offset (PhysAddr_from_usize (strampoline demo_ld)) = 0"
    by (simp add: demo_ld_def PhysAddr_page_offset_def PhysAddr_from_usize_def width_defs PAGE_SIZE_def)
  show "wp (map_trampoline demo_ld ms1) (\<lambda>ms. wp (ms_push demo_area None ms) demo_ready) s1"
  proof (rule wpe_mono [OF map_trampoline_spec [OF 1(1,2) al]], elim conjE)
    fix ms2 and s2 :: mm_state
    assume 2: "ms_ok (Some (trampoline_pte demo_ld)) 0x80400 s2 ms2" "areas ms2 = []"
      "fa_free (FRAME_ALLOCATOR s1) \<le> fa_free (FRAME_ALLOCATOR s2) + 2"
    have sm: "data_frames demo_area = []" "get_start (vpn_range demo_area) \<le> get_end (vpn_range demo_area)"
      "unat (vpn (get_end (vpn_range demo_area))) \<le> 2 ^ 27"
      by (simp_all add: demo_area_def get_start_def get_end_def less_eq_VirtPageNum_def)
    show "wp (ms_push demo_area None ms2) demo_ready s2"
    proof (rule wpe_mono [OF ms_push_spec [OF 2(1) sm]])
      fix ms3 and s3 :: mm_state
      assume "\<exists>area' fs. areas ms3 = areas ms2 @ [area'] \<and> root_ppn (page_table ms3) = root_ppn (page_table ms2) \<and>
        map_progress 0x80400 s2 demo_area (page_table ms2) (vpns (vpn_range demo_area)) area' (page_table ms3) s3 fs \<and>
        ms_ok (Some (trampoline_pte demo_ld)) 0x80400 s3 ms3 \<and>
        live 0x80400 s3 - ms_ppns ms3 = live 0x80400 s2 - ms_ppns ms2"
      then obtain area' fs where h: "areas ms3 = [area']"
        "map_progress 0x80400 s2 demo_area (page_table ms2) (vpns (vpn_range demo_area)) area' (page_table ms3) s3 fs"
        "ms_ok (Some (trampoline_pte demo_ld)) 0x80400 s3 ms3" using 2(2) by auto
      have a': "area' = demo_area\<lparr>data_frames := data_frames area'\<rparr>" using h(2) by (simp add: map_progress_def)
      have "same_shape area' demo_area" unfolding same_shape_def by (subst a', subst a', subst a', simp)
      moreover have "fa_free (FRAME_ALLOCATOR s2) \<le> fa_free (FRAME_ALLOCATOR s3) + 6"
        using h(2) by (simp add: map_progress_def demo_area_pages)
      ultimately show "demo_ready ms3 s3"
        using h 1(3) 2(3) demo_machine_inv(2) by (auto simp: demo_ready_def)
    next
      fix e
      assume "e = AssertFailed \<and> (\<exists>v\<in>set (vpns (vpn_range demo_area)).
          ms_view (Some (trampoline_pte demo_ld)) (areas ms2) v \<noteq> None) \<or>
        e = UnwrapNone \<and> fa_free (FRAME_ALLOCATOR s2) < 3 * length (vpns (vpn_range demo_area))"
      then show False
        using 1(3) 2 demo_machine_inv(2)
        by (auto simp: demo_area_pages ms_view_def TRAMPOLINE_VPN_def)
    qed
  qed (use 1(3) demo_machine_inv(2) in simp)
qed (simp add: demo_machine_inv(2))

section \<open>Adding and removing memory\<close>

lemma MapArea_new_small:
  assumes "MapArea_new (VirtAddr_from_usize a) (VirtAddr_from_usize b) ty perm = Inr area"
  shows "get_start (vpn_range area) \<le> get_end (vpn_range area)" "data_frames area = []"
    "unat (vpn (get_end (vpn_range area))) \<le> 2 ^ 27" "map_type area = ty" "map_perm area = perm"
    "get_start (vpn_range area) = VirtAddr_floor (VirtAddr_from_usize a)"
    "get_end (vpn_range area) = VirtAddr_ceil (VirtAddr_from_usize b)"
proof -
  show "get_start (vpn_range area) \<le> get_end (vpn_range area)" "data_frames area = []"
    "map_type area = ty" "map_perm area = perm"
    "get_start (vpn_range area) = VirtAddr_floor (VirtAddr_from_usize a)"
    and e: "get_end (vpn_range area) = VirtAddr_ceil (VirtAddr_from_usize b)"
    using assms by (auto simp: MapArea_new_def SimpleRange_new_def get_start_def get_end_def
        split: if_splits)
  have "unat (va (VirtAddr_from_usize b)) < 2 ^ 39" by (simp add: unat_VirtAddr_from_usize)
  then have "unat (vpn (VirtAddr_ceil (VirtAddr_from_usize b))) \<le> 2 ^ 27"
    by (subst unat_ceil) auto
  then show "unat (vpn (get_end (vpn_range area))) \<le> 2 ^ 27" using e by simp
qed


lemma push_contents:
  assumes ok: "ms_ok T lo s ms" and ok': "ms_ok T lo s' ms'" and ar: "areas ms' = areas ms @ [area']"
    and fr: "map_type area = Framed" "data_frames area = []"
    and pr: "map_progress lo s area (page_table ms) (vpns (vpn_range area)) area' (page_table ms') s' fs"
  shows "\<And>v. v \<in> set (vpns (vpn_range area)) \<Longrightarrow>
      page_content (pmem s') (page_table ms') v = Some (replicate 4096 0)"
    "\<And>a v. a \<in> set (areas ms) \<Longrightarrow> map_type a = Framed \<Longrightarrow> v \<in> set (vpns (vpn_range a)) \<Longrightarrow>
      page_content (pmem s') (page_table ms') v = page_content (pmem s) (page_table ms) v"
proof -
  have a': "area' = area\<lparr>data_frames := data_frames area'\<rparr>" using pr by (simp add: map_progress_def)
  have same: "vpn_range area' = vpn_range area" "map_type area' = Framed"
    by (subst a', simp add: fr)+
  have "mset (map snd (data_frames area')) = mset fs" using pr fr by (simp add: map_progress_def)
  from mset_eq_setD [OF this] have ap: "area_ppns area' = tracker_ppn ` set fs"
    by (simp add: area_ppns_trackers area_trackers_def)
  have in': "area' \<in> set (areas ms')" by (simp add: ar)
  fix v assume v: "v \<in> set (vpns (vpn_range area))"
  then have "v \<in> set (vpns (vpn_range area'))" by (simp add: same)
  from ms_ok_page [OF ok' in' same(2) this] obtain f where
    "map_of (data_frames area') v = Some f" and
    f: "tracker_ppn f \<in> area_ppns area'" "pt_view (pmem s') (page_table ms') v = Some (area_pte area' v)"
    "pte_ppn (area_pte area' v) = tracker_ppn f" "tracker_ppn f \<in> live lo s' - pt_ppns (page_table ms')" .
  then show "page_content (pmem s') (page_table ms') v = Some (replicate 4096 0)"
    using pr ap by (simp only: page_content_def map_progress_def option.map)
next
  fix a v assume a: "a \<in> set (areas ms)" "map_type a = Framed" and v: "v \<in> set (vpns (vpn_range a))"
  from ms_ok_page [OF ok a v] obtain f where
    "map_of (data_frames a) v = Some f" "tracker_ppn f \<in> area_ppns a" and
    f: "pt_view (pmem s) (page_table ms) v = Some (area_pte a v)"
    "pte_ppn (area_pte a v) = tracker_ppn f" "tracker_ppn f \<in> live lo s - pt_ppns (page_table ms)" .
  have "area_ok a" using ok a by (simp add: ms_ok_def)
  note sm = area_page_small [OF this v]
  have "v \<notin> set (vpns (vpn_range area))" using pr f(1) by (auto simp: map_progress_def)
  then have "pt_view (pmem s') (page_table ms') v = Some (area_pte a v)"
    using pr sm f(1) by (simp add: map_progress_def)
  moreover have k: "keeps lo (live lo s - pt_ppns (page_table ms)) s s'" using pr by (simp add: map_progress_def)
  ultimately show "page_content (pmem s') (page_table ms') v = page_content (pmem s) (page_table ms) v"
    using f keeps_bytes [OF k f(3)] by (simp add: page_content_def)
qed

text \<open>C2: \<open>insert_framed_area\<close> adds one area for exactly the requested pages, which
  were unmapped and now read as zeros; the other framed pages of the space keep their
  bytes, the frames of all other owners are untouched, and every frame taken is owned
  by the space. It panics only if the range is reversed or overlaps a mapped page, or
  if fewer than three frames per new page are free.\<close>

theorem insert_framed_area_correct:
  assumes ok: "ms_ok T lo s ms"
    and area: "MapArea_new (VirtAddr_from_usize a) (VirtAddr_from_usize b) Framed perm = Inr area"
  shows "wpe (insert_framed_area (VirtAddr_from_usize a) (VirtAddr_from_usize b) perm ms)
    (\<lambda>ms' s'. ms_ok T lo s' ms' \<and>
       (\<exists>area'. areas ms' = areas ms @ [area'] \<and> same_shape area' area) \<and>
       (\<forall>v\<in>set (vpns (vpn_range area)). ms_view T (areas ms) v = None \<and>
          page_content (pmem s') (page_table ms') v = Some (replicate 4096 0)) \<and>
       (\<forall>c\<in>set (areas ms). map_type c = Framed \<longrightarrow> (\<forall>v\<in>set (vpns (vpn_range c)).
          page_content (pmem s') (page_table ms') v = page_content (pmem s) (page_table ms) v)) \<and>
       live lo s' - ms_ppns ms' = live lo s - ms_ppns ms \<and> keeps lo (live lo s - ms_ppns ms) s s')
    (\<lambda>e. e = AssertFailed \<and> (\<exists>v\<in>set (vpns (vpn_range area)). ms_view T (areas ms) v \<noteq> None) \<or>
         e = UnwrapNone \<and> fa_free (FRAME_ALLOCATOR s) < 3 * length (vpns (vpn_range area))) s"
proof -
  note sm = MapArea_new_small [OF area]
  show ?thesis
    unfolding insert_framed_area_def area kbind_kres_Inr
  proof (rule wpe_mono [OF ms_push_spec [OF ok sm(2,1,3)]])
    fix ms' s'
    assume "\<exists>area' fs. areas ms' = areas ms @ [area'] \<and> root_ppn (page_table ms') = root_ppn (page_table ms) \<and>
       map_progress lo s area (page_table ms) (vpns (vpn_range area)) area' (page_table ms') s' fs \<and>
       ms_ok T lo s' ms' \<and> live lo s' - ms_ppns ms' = live lo s - ms_ppns ms"
    then obtain area' fs where h: "areas ms' = areas ms @ [area']"
      "map_progress lo s area (page_table ms) (vpns (vpn_range area)) area' (page_table ms') s' fs"
      "ms_ok T lo s' ms'" "live lo s' - ms_ppns ms' = live lo s - ms_ppns ms" by blast
    note pc = push_contents [OF ok h(3,1) sm(4,2) h(2)]
    have a': "area' = area\<lparr>data_frames := data_frames area'\<rparr>" using h(2) by (simp add: map_progress_def)
    have "same_shape area' area" unfolding same_shape_def by (subst a', subst a', subst a', simp)
    moreover have "ms_view T (areas ms) v = None" if "v \<in> set (vpns (vpn_range area))" for v
    proof -
      have "pt_view (pmem s) (page_table ms) v = None" using h(2) that by (simp add: map_progress_def)
      then show ?thesis using ok range_small [OF sm(3) that] by (simp add: ms_ok_def)
    qed
    moreover have "keeps lo (live lo s - ms_ppns ms) s s'"
      using h(2) by (auto simp: map_progress_def ms_ppns_eq intro: keeps_mono)
    ultimately show "ms_ok T lo s' ms' \<and> (\<exists>area'. areas ms' = areas ms @ [area'] \<and> same_shape area' area) \<and>
       (\<forall>v\<in>set (vpns (vpn_range area)). ms_view T (areas ms) v = None \<and>
          page_content (pmem s') (page_table ms') v = Some (replicate 4096 0)) \<and>
       (\<forall>c\<in>set (areas ms). map_type c = Framed \<longrightarrow> (\<forall>v\<in>set (vpns (vpn_range c)).
          page_content (pmem s') (page_table ms') v = page_content (pmem s) (page_table ms) v)) \<and>
       live lo s' - ms_ppns ms' = live lo s - ms_ppns ms \<and> keeps lo (live lo s - ms_ppns ms) s s'"
      using h pc by blast
  qed
qed

theorem insert_framed_area_correct_witness:
  "wp (kbind demo_space (\<lambda>ms. insert_framed_area (VirtAddr_from_usize 0x8000) (VirtAddr_from_usize 0x9000) MP_R ms))
     (\<lambda>ms' s'. page_content (pmem s') (page_table ms') (VirtPageNum 8) = Some (replicate 4096 0) \<and>
        length (areas ms') = 2) demo_machine"
  unfolding wpe_kbind
proof (rule wpe_mono [OF demo_space_ok])
  fix ms s assume d: "demo_ready ms s"
  let ?area = "\<lparr>vpn_range = \<lparr>range_l = VirtPageNum 8, range_r = VirtPageNum 9\<rparr>, data_frames = [],
     map_type = Framed, map_perm = MP_R\<rparr>"
  have new: "MapArea_new (VirtAddr_from_usize 0x8000) (VirtAddr_from_usize 0x9000) Framed MP_R = Inr ?area"
    by (simp add: MapArea_new_def SimpleRange_new_def VirtAddr_from_usize_def VirtAddr_floor_def
      VirtAddr_ceil_def width_defs PAGE_SIZE_def less_eq_VirtPageNum_def)
  have pg: "vpns (vpn_range ?area) = [VirtPageNum 8]"
    by (simp add: vpns_def get_start_def get_end_def upt_rec)
  obtain a where a: "areas ms = [a]" "same_shape a demo_area" using d by (auto simp: demo_ready_def)
  then have "ms_view T (areas ms) (VirtPageNum 8) = None" for T
    by (auto simp: ms_view_def TRAMPOLINE_VPN_def same_shape_def demo_area_pages)
  moreover have ok: "ms_ok (Some (trampoline_pte demo_ld)) 0x80400 s ms"
    and fr: "\<not> fa_free (FRAME_ALLOCATOR s) < 3" using d by (auto simp: demo_ready_def)
  ultimately show "wp (insert_framed_area (VirtAddr_from_usize 0x8000) (VirtAddr_from_usize 0x9000) MP_R ms)
     (\<lambda>ms' s'. page_content (pmem s') (page_table ms') (VirtPageNum 8) = Some (replicate 4096 0) \<and>
        length (areas ms') = 2) s"
    by (intro wpe_mono [OF insert_framed_area_correct [OF ok new]])
       (use fr a(1) in \<open>auto simp only: pg list.set length_append list.size ball_simps bex_simps\<close>, simp_all)
qed simp

text \<open>C6: \<open>shrink_to\<close> with a new end inside the area never panics: it cuts the area,
  unmaps exactly the pages cut off, gives exactly their frames back, and leaves the
  frames that stay live as they were. If no area starts at the given page it returns
  false and changes nothing.\<close>

theorem shrink_to_correct:
  assumes ok: "ms_ok T lo s ms"
    and ins: "\<And>i. find_index (\<lambda>a. get_start (vpn_range a) = VirtAddr_floor start) (areas ms) = Some i \<Longrightarrow>
      get_start (vpn_range (areas ms ! i)) \<le> VirtAddr_ceil new_end \<and>
      VirtAddr_ceil new_end \<le> get_end (vpn_range (areas ms ! i))"
  shows "wp (ms_shrink_to start new_end ms)
    (\<lambda>(found, ms') s'. ms_ok T lo s' ms' \<and> live lo s' - ms_ppns ms' = live lo s - ms_ppns ms \<and>
       (case find_index (\<lambda>a. get_start (vpn_range a) = VirtAddr_floor start) (areas ms) of
          None \<Rightarrow> \<not> found \<and> ms' = ms \<and> s' = s
        | Some i \<Rightarrow> found \<and> page_table ms' = page_table ms \<and>
            (\<exists>a. areas ms' = (areas ms)[i := a] \<and>
               vpn_range a = \<lparr>range_l = VirtAddr_floor start, range_r = VirtAddr_ceil new_end\<rparr>) \<and>
            keeps lo (live lo s' - pt_ppns (page_table ms)) s s')) s"
proof (cases "find_index (\<lambda>a. get_start (vpn_range a) = VirtAddr_floor start) (areas ms)")
  case None
  then show ?thesis using ok by (simp add: ms_shrink_to_def update_area_def)
next
  case (Some i)
  then have i: "i < length (areas ms)" "get_start (vpn_range (areas ms ! i)) = VirtAddr_floor start"
    by (auto simp: find_index_Some)
  let ?a = "areas ms ! i"
  have ar: "areas ms = take i (areas ms) @ ?a # drop (Suc i) (areas ms)"
    using i(1) by (rule id_take_nth_drop)
  have upd: "take i (areas ms) @ a # drop (Suc i) (areas ms) = (areas ms)[i := a]" for a
    using i(1) by (simp add: upd_conv_take_nth_drop)
  note sh = shrink_area [OF ok ar conjunct1 [OF ins [OF Some]] conjunct2 [OF ins [OF Some]], unfolded upd]
  show ?thesis
    unfolding ms_shrink_to_def update_area_def Some
    using sh i(2) by (auto elim!: wpe_post)
qed

theorem shrink_to_correct_witness:
  "wp (kbind demo_space (\<lambda>ms. ms_shrink_to (VirtAddr 0x1000) (VirtAddr 0x2000) ms))
     (\<lambda>(found, ms') s'. found \<and> ms_pages ms' = [VirtPageNum 1]) demo_machine"
  unfolding wpe_kbind
proof (rule wpe_mono [OF demo_space_ok])
  fix ms s assume d: "demo_ready ms s"
  obtain a where a: "areas ms = [a]" "same_shape a demo_area" using d by (auto simp: demo_ready_def)
  have ok: "ms_ok (Some (trampoline_pte demo_ld)) 0x80400 s ms" using d by (simp add: demo_ready_def)
  have pgs: "VirtAddr_floor (VirtAddr 0x1000) = VirtPageNum 1" "VirtAddr_ceil (VirtAddr 0x2000) = VirtPageNum 2"
    by (simp_all add: VirtAddr_floor_def VirtAddr_ceil_def PAGE_SIZE_def)
  have rg: "vpn_range a = \<lparr>range_l = VirtPageNum 1, range_r = VirtPageNum 3\<rparr>"
    using a(2) by (simp add: same_shape_def demo_area_def)
  then have fi: "find_index (\<lambda>a. get_start (vpn_range a) = VirtAddr_floor (VirtAddr 0x1000)) (areas ms) = Some 0"
    by (simp add: a(1) pgs get_start_def)
  show "wp (ms_shrink_to (VirtAddr 0x1000) (VirtAddr 0x2000) ms)
     (\<lambda>(found, ms') s'. found \<and> ms_pages ms' = [VirtPageNum 1]) s"
    by (rule wpe_mono [OF shrink_to_correct [OF ok]])
       (use fi rg a(1) in \<open>auto simp: pgs get_start_def get_end_def less_eq_VirtPageNum_def ms_pages_def vpns_def upt_rec\<close>)
qed simp

text \<open>C8: dropping an address space never panics (no frame is freed twice), gives back
  exactly the frames the space owned, and touches nothing that belongs to others.\<close>

theorem drop_memory_set_frees_all:
  assumes "ms_ok T lo s ms"
  shows "wp (drop_memory_set ms)
    (\<lambda>_ s'. live lo s' = live lo s - ms_ppns ms \<and> pmem s' = pmem s \<and>
       keeps lo (live lo s - ms_ppns ms) s s') s"
  using drop_trackers_spec [of lo s "ms_trackers ms"] assms
  unfolding drop_memory_set_eq by (auto simp: ms_ok_def pt_ok_def ms_ppns_def elim!: wpe_post)

theorem drop_memory_set_frees_all_witness:
  "wp (kbind demo_space (\<lambda>ms. kthen (drop_memory_set ms) (kret ms)))
     (\<lambda>ms s'. live 0x80400 s' \<inter> ms_ppns ms = {}) demo_machine"
  unfolding wpe_kbind wpe_kthen wpe_kret
proof (rule wpe_mono [OF demo_space_ok])
  fix ms s assume "demo_ready ms s"
  then have ok: "ms_ok (Some (trampoline_pte demo_ld)) 0x80400 s ms" by (simp add: demo_ready_def)
  show "wp (drop_memory_set ms) (\<lambda>_ s'. live 0x80400 s' \<inter> ms_ppns ms = {}) s"
    by (rule wpe_post [OF drop_memory_set_frees_all [OF ok]]) auto
qed simp

text \<open>C1: \<open>from_existed_user\<close> (the memory half of fork). For a well-formed parent
  space, the child is a well-formed space of its own with the same areas and the
  trampoline; every page of it holds the bytes of the parent's page, in frames none of
  which was in use before; every frame that was in use, the parent's included, keeps
  its bytes; and every frame taken belongs to the child. It fails only when memory
  runs out.\<close>

theorem fork_copies_and_isolates:
  assumes pok: "ms_ok (Some e) lo s parent" "\<forall>a\<in>set (areas parent). map_type a = Framed"
    and al: "PhysAddr_page_offset (PhysAddr_from_usize (strampoline ld)) = 0"
  shows "wpe (from_existed_user ld parent)
    (\<lambda>child s'. ms_ok (Some (trampoline_pte ld)) lo s' child \<and>
       list_all2 same_shape (areas child) (areas parent) \<and>
       (\<forall>v\<in>set (ms_pages parent).
          page_content (pmem s') (page_table child) v = page_content (pmem s) (page_table parent) v) \<and>
       keeps lo (live lo s) s s' \<and> ms_ppns child \<inter> live lo s = {} \<and>
       live lo s' = live lo s \<union> ms_ppns child)
    (\<lambda>e. e = UnwrapNone \<and> fa_free (FRAME_ALLOCATOR s) < 3 + 3 * length (ms_pages parent)) s"
    (is "wpe _ ?Q ?E _")
proof -
  let ?T = "Some (trampoline_pte ld)"
  have inv: "fa_inv lo (FRAME_ALLOCATOR s)" using pok by (simp add: ms_ok_def pt_ok_def)
  have tr: "TRAMPOLINE_VPN \<notin> set (ms_pages parent)" using pok by (simp add: ms_ok_def)
  have areas_loop: "wpe (kfold (copy_area parent) (areas parent) ms)
      (fork_progress ?T lo s parent (areas parent)) ?E s1"
    if "fork_progress ?T lo s parent [] ms s1" for ms s1
    by (rule wpe_kfold [where I = "fork_progress ?T lo s parent"])
       (use that copy_area_step [OF pok _ tr] in auto)
  have start: "fork_progress ?T lo s parent [] ms2 s2"
    if 1: "ms_ok None lo s1 ms1" "areas ms1 = []" "keeps lo (live lo s) s s1" "ms_ppns ms1 \<inter> live lo s = {}"
        "live lo s1 = live lo s \<union> ms_ppns ms1" "fa_free (FRAME_ALLOCATOR s) \<le> fa_free (FRAME_ALLOCATOR s1) + 1"
      and 2: "ms_ok ?T lo s2 ms2" "areas ms2 = []" "keeps lo (live lo s1 - ms_ppns ms1) s1 s2"
        "live lo s2 - ms_ppns ms2 = live lo s1 - ms_ppns ms1"
        "fa_free (FRAME_ALLOCATOR s1) \<le> fa_free (FRAME_ALLOCATOR s2) + 2" for s1 ms1 s2 ms2
  proof -
    have "live lo s1 - ms_ppns ms1 = live lo s" using 1(4,5) by blast
    moreover have "ms_ppns ms2 \<subseteq> live lo s2" using 2(1) by (simp add: ms_ok_def)
    ultimately show ?thesis
      using 1 2 keeps_trans [OF 1(3)] by (auto simp: fork_progress_def)
  qed
  have "wpe new_bare (\<lambda>ms. wpe (map_trampoline ld ms)
      (\<lambda>ms. wpe (kfold (copy_area parent) (areas parent) ms) (fork_progress ?T lo s parent (areas parent)) ?E) ?E) ?E s"
  proof (rule wpe_mono [OF new_bare_spec [OF inv]], elim conjE)
    fix ms1 s1
    assume 1: "ms_ok None lo s1 ms1" "areas ms1 = []" "keeps lo (live lo s) s s1" "ms_ppns ms1 \<inter> live lo s = {}"
      "live lo s1 = live lo s \<union> ms_ppns ms1" "fa_free (FRAME_ALLOCATOR s) \<le> fa_free (FRAME_ALLOCATOR s1) + 1"
    show "wpe (map_trampoline ld ms1)
      (\<lambda>ms. wpe (kfold (copy_area parent) (areas parent) ms) (fork_progress ?T lo s parent (areas parent)) ?E) ?E s1"
      by (rule wpe_mono [OF map_trampoline_spec [OF 1(1,2) al]])
         (use areas_loop start [OF 1] 1(6) in auto)
  qed auto
  then have "wpe (from_existed_user ld parent) (fork_progress ?T lo s parent (areas parent)) ?E s"
    by (simp add: from_existed_user_def)
  then show ?thesis
    by (rule wpe_post) (auto simp: fork_progress_def ms_pages_def)
qed

theorem fork_copies_and_isolates_witness:
  "wp (kbind demo_space (\<lambda>ms. from_existed_user demo_ld ms))
     (\<lambda>child s'. ms_ok (Some (trampoline_pte demo_ld)) 0x80400 s' child \<and> length (areas child) = 1) demo_machine"
  unfolding wpe_kbind
proof (rule wpe_mono [OF demo_space_ok])
  fix ms s assume d: "demo_ready ms s"
  obtain a where a: "areas ms = [a]" "same_shape a demo_area" using d by (auto simp: demo_ready_def)
  have ok: "ms_ok (Some (trampoline_pte demo_ld)) 0x80400 s ms" and fr: "200 \<le> fa_free (FRAME_ALLOCATOR s)"
    using d by (auto simp: demo_ready_def)
  have "\<forall>a\<in>set (areas ms). map_type a = Framed" using a by (auto simp: same_shape_def demo_area_def)
  moreover have "PhysAddr_page_offset (PhysAddr_from_usize (strampoline demo_ld)) = 0"
    by (simp add: demo_ld_def PhysAddr_page_offset_def PhysAddr_from_usize_def width_defs PAGE_SIZE_def)
  moreover have "length (ms_pages ms) = 2"
    using a demo_area_pages by (simp add: ms_pages_def same_shape_def)
  ultimately show "wp (from_existed_user demo_ld ms)
     (\<lambda>child s'. ms_ok (Some (trampoline_pte demo_ld)) 0x80400 s' child \<and> length (areas child) = 1) s"
    using a(1) fr by (intro wpe_mono [OF fork_copies_and_isolates [OF ok]]) (auto dest: list_all2_lengthD)
qed simp

end
