(* ===== verification/Block_Range.thy ===== *)
theory Block_Range
  imports Prelude
begin

text \<open>
  \<^verbatim>\<open>fs/util.rs\<close>: splitting a byte range into the parts that fall into each block.
\<close>

text \<open>Rust's \<^verbatim>\<open><<\<close> on \<^verbatim>\<open>usize\<close>: the shift amount is taken modulo the width.\<close>

definition ushl :: "usize \<Rightarrow> nat \<Rightarrow> usize" where
  "ushl w k = push_bit (k mod 64) w"

record BlockIter =
  bi_begin :: usize
  bi_end :: usize
  bi_log2 :: nat

record BlockRange =
  br_block :: usize
  br_begin :: usize
  br_end :: usize
  br_log2 :: nat

definition BlockRange_is_empty :: "BlockRange \<Rightarrow> bool" where
  "BlockRange_is_empty r \<longleftrightarrow> br_end r = br_begin r"

definition BlockRange_len :: "BlockRange \<Rightarrow> usize" where
  "BlockRange_len r = br_end r - br_begin r"

definition BlockRange_is_full :: "BlockRange \<Rightarrow> bool" where
  "BlockRange_is_full r \<longleftrightarrow> BlockRange_len r = ushl 1 (br_log2 r)"

definition origin_begin :: "BlockRange \<Rightarrow> usize" where
  "origin_begin r = ushl (br_block r) (br_log2 r) + br_begin r"

definition origin_end :: "BlockRange \<Rightarrow> usize" where
  "origin_end r = ushl (br_block r) (br_log2 r) + br_end r"

definition BlockIter_next :: "BlockIter \<Rightarrow> BlockRange option \<times> BlockIter" where
  "BlockIter_next it =
     (if bi_end it \<le> bi_begin it then (None, it)
      else let block_size = ushl 1 (bi_log2 it);
               block = bi_begin it div block_size;
               b = bi_begin it mod block_size;
               e = (if block = bi_end it div block_size then bi_end it mod block_size else block_size)
           in (Some \<lparr>br_block = block, br_begin = b, br_end = e, br_log2 = bi_log2 it\<rparr>,
               it\<lparr>bi_begin := bi_begin it + (e - b)\<rparr>))"

section \<open>One step\<close>

text \<open>The numbers of a step, as natural numbers.\<close>

lemma div_mod_le:
  fixes b e n :: nat
  assumes "b < e" "0 < n"
  defines "stop \<equiv> if b div n = e div n then e mod n else n"
  shows "b mod n < stop" "stop \<le> n" "b + (stop - b mod n) \<le> e" "b div n * n + stop \<le> e"
    "b + (stop - b mod n) = b div n * n + stop"
proof -
  have b: "b = b div n * n + b mod n" by simp
  have e: "e = e div n * n + e mod n" by simp
  have le: "b div n \<le> e div n" using assms by (simp add: div_le_mono)
  have m: "b mod n < n" using assms by simp
  show lt: "b mod n < stop"
    using assms b e m unfolding stop_def by (metis add_less_cancel_left)
  show "stop \<le> n" using assms unfolding stop_def by (simp add: less_imp_le)
  show eq: "b + (stop - b mod n) = b div n * n + stop" using lt b by linarith
  show en: "b div n * n + stop \<le> e"
  proof (cases "b div n = e div n")
    case True
    then show ?thesis using e by (simp add: stop_def)
  next
    case False
    with le have "b div n + 1 \<le> e div n" by simp
    then have "(b div n + 1) * n \<le> e div n * n" by (rule mult_le_mono1)
    also have "\<dots> \<le> e" by simp
    finally show ?thesis using False by (simp add: stop_def algebra_simps)
  qed
  show "b + (stop - b mod n) \<le> e" using eq en by simp
qed

lemma usize_less: "unat (w :: usize) < 2 ^ 64"
  by simp

definition block_bytes :: "nat \<Rightarrow> nat" where
  "block_bytes k = 2 ^ (k mod 64)"

lemma block_bytes_pos [simp]: "0 < block_bytes k"
  by (simp add: block_bytes_def)

lemma block_bytes_less: "block_bytes k < 2 ^ 64"
  unfolding block_bytes_def by (rule power_strict_increasing) simp_all

lemma unat_ushl_1: "unat (ushl 1 k) = block_bytes k"
  using block_bytes_less [of k] unfolding ushl_def block_bytes_def
  by (subst unat_push_bit_small) simp_all

lemma unat_ushl:
  assumes "unat w * block_bytes k < 2 ^ 64"
  shows "unat (ushl w k) = unat w * block_bytes k"
  using assms unfolding ushl_def block_bytes_def by (subst unat_push_bit_small) simp_all

definition step_stop :: "nat \<Rightarrow> nat \<Rightarrow> nat \<Rightarrow> nat" where
  "step_stop b e n = (if b div n = e div n then e mod n else n)"

lemmas step_stop_props = div_mod_le [folded step_stop_def]

lemma BlockIter_next_Some:
  assumes lt: "unat (bi_begin it) < unat (bi_end it)"
  defines "n \<equiv> block_bytes (bi_log2 it)"
  defines "stop \<equiv> step_stop (unat (bi_begin it)) (unat (bi_end it)) n"
  obtains r it' where "BlockIter_next it = (Some r, it')"
    "unat (br_block r) = unat (bi_begin it) div n" "unat (br_begin r) = unat (bi_begin it) mod n"
    "unat (br_end r) = stop" "br_log2 r = bi_log2 it"
    "unat (bi_begin it') = unat (bi_begin it) + (stop - unat (bi_begin it) mod n)"
    "bi_end it' = bi_end it" "bi_log2 it' = bi_log2 it"
proof -
  define w where "w = ushl 1 (bi_log2 it)"
  let ?e = "if bi_begin it div w = bi_end it div w then bi_end it mod w else w"
  let ?r = "\<lparr>br_block = bi_begin it div w, br_begin = bi_begin it mod w, br_end = ?e, br_log2 = bi_log2 it\<rparr>"
  let ?it = "it\<lparr>bi_begin := bi_begin it + (?e - bi_begin it mod w)\<rparr>"
  have w: "unat w = n" by (simp add: w_def unat_ushl_1 n_def)
  have n: "0 < n" by (simp add: n_def)
  note st = step_stop_props [OF lt n, folded stop_def]
  have dm: "unat (bi_begin it div w) = unat (bi_begin it) div n" "unat (bi_begin it mod w) = unat (bi_begin it) mod n"
    "unat (bi_end it div w) = unat (bi_end it) div n" "unat (bi_end it mod w) = unat (bi_end it) mod n"
    unfolding w [symmetric] by (simp_all only: unat_div unat_mod)
  have "bi_begin it div w = bi_end it div w \<longleftrightarrow> unat (bi_begin it) div n = unat (bi_end it) div n"
    using dm(1,3) by (metis unat_eqI)
  then have e: "unat ?e = stop" using dm(4) w by (simp add: stop_def step_stop_def)
  have le: "bi_begin it mod w \<le> ?e" using st(1) e dm(2) by (simp only: word_le_nat_alt)
  have d: "unat (?e - bi_begin it mod w) = stop - unat (bi_begin it) mod n"
    by (simp only: unat_sub_small [OF le] e dm)
  have "unat (bi_begin it) + (stop - unat (bi_begin it) mod n) < 2 ^ 64"
    using st(3) usize_less by (rule le_less_trans)
  with d have "unat (bi_begin it) + unat (?e - bi_begin it mod w) < 2 ^ LENGTH(64)" by simp
  from unat_add_small [OF this] d
  have b: "unat (bi_begin ?it) = unat (bi_begin it) + (stop - unat (bi_begin it) mod n)" by simp
  have "BlockIter_next it = (Some ?r, ?it)"
    using lt by (simp add: BlockIter_next_def Let_def word_le_nat_alt w_def)
  then show thesis
    by (rule that) (use dm e b in simp_all)
qed

lemma BlockIter_next_None:
  "BlockIter_next it = (None, it') \<longleftrightarrow> unat (bi_end it) \<le> unat (bi_begin it) \<and> it' = it"
  by (auto simp: BlockIter_next_def Let_def word_le_nat_alt)

section \<open>The whole loop\<close>

lemma BlockIter_next_decreases:
  assumes nx: "BlockIter_next it = (Some r, it')"
  shows "unat (bi_end it') - unat (bi_begin it') < unat (bi_end it) - unat (bi_begin it)"
proof -
  have lt: "unat (bi_begin it) < unat (bi_end it)"
    using BlockIter_next_None [of it it] nx by (metis Pair_inject not_le option.distinct(1))
  obtain r1 it1 where "BlockIter_next it = (Some r1, it1)" "unat (bi_begin it1) = unat (bi_begin it) +
       (step_stop (unat (bi_begin it)) (unat (bi_end it)) (block_bytes (bi_log2 it)) -
        unat (bi_begin it) mod block_bytes (bi_log2 it))" "bi_end it1 = bi_end it"
    using BlockIter_next_Some [OF lt] by metis
  then show ?thesis
    using nx step_stop_props(1) [OF lt block_bytes_pos [of "bi_log2 it"]] lt by auto
qed

text \<open>\<^verbatim>\<open>for range in iter\<close>: the loop always ends, since every step advances.\<close>

function block_ranges :: "BlockIter \<Rightarrow> BlockRange list" where
  "block_ranges it =
     (case BlockIter_next it of (None, _) \<Rightarrow> [] | (Some r, it') \<Rightarrow> r # block_ranges it')"
  by pat_completeness auto
termination
  by (relation "measure (\<lambda>it. unat (bi_end it) - unat (bi_begin it))")
     (auto dest: BlockIter_next_decreases dest!: sym [of _ "BlockIter_next _"])

declare block_ranges.simps [simp del]

text \<open>The iterator of the range \<^term>\<open>b\<close> to \<^term>\<open>e\<close>.\<close>

abbreviation block_iter :: "usize \<Rightarrow> usize \<Rightarrow> nat \<Rightarrow> BlockIter" where
  "block_iter b e k \<equiv> \<lparr>bi_begin = b, bi_end = e, bi_log2 = k\<rparr>"

text \<open>What a range of the loop satisfies: its bytes lie in one block.\<close>

definition br_ok :: "nat \<Rightarrow> BlockRange \<Rightarrow> bool" where
  "br_ok k r \<longleftrightarrow> br_log2 r = k \<and> unat (br_begin r) < unat (br_end r) \<and> unat (br_end r) \<le> block_bytes k \<and>
     unat (br_block r) * block_bytes k + unat (br_end r) < 2 ^ 64"

lemma br_ok_origin:
  assumes "br_ok k r"
  shows "unat (origin_begin r) = unat (br_block r) * block_bytes k + unat (br_begin r)"
    "unat (origin_end r) = unat (br_block r) * block_bytes k + unat (br_end r)"
proof -
  note ok = assms [unfolded br_ok_def]
  then have "unat (ushl (br_block r) k) = unat (br_block r) * block_bytes k"
    by (intro unat_ushl) linarith
  then show "unat (origin_begin r) = unat (br_block r) * block_bytes k + unat (br_begin r)"
    "unat (origin_end r) = unat (br_block r) * block_bytes k + unat (br_end r)"
    using ok by (auto simp: origin_begin_def origin_end_def unat_add_small)
qed

lemma BlockIter_next_range:
  assumes lt: "unat (bi_begin it) < unat (bi_end it)"
  obtains r it' where "BlockIter_next it = (Some r, it')" "br_ok (bi_log2 it) r"
    "unat (origin_begin r) = unat (bi_begin it)" "unat (origin_end r) = unat (bi_begin it')"
    "unat (bi_begin it) < unat (bi_begin it')" "unat (bi_begin it') \<le> unat (bi_end it)"
    "bi_end it' = bi_end it" "bi_log2 it' = bi_log2 it"
proof -
  note st = step_stop_props [OF lt block_bytes_pos [of "bi_log2 it"]]
  obtain r it' where nx: "BlockIter_next it = (Some r, it')"
    "unat (br_block r) = unat (bi_begin it) div block_bytes (bi_log2 it)"
    "unat (br_begin r) = unat (bi_begin it) mod block_bytes (bi_log2 it)"
    "unat (br_end r) = step_stop (unat (bi_begin it)) (unat (bi_end it)) (block_bytes (bi_log2 it))"
    "br_log2 r = bi_log2 it"
    "unat (bi_begin it') = unat (bi_begin it) +
       (step_stop (unat (bi_begin it)) (unat (bi_end it)) (block_bytes (bi_log2 it)) -
        unat (bi_begin it) mod block_bytes (bi_log2 it))"
    "bi_end it' = bi_end it" "bi_log2 it' = bi_log2 it"
    using BlockIter_next_Some [OF lt] .
  have ok: "br_ok (bi_log2 it) r"
    using st nx le_less_trans [OF st(4) usize_less] by (simp add: br_ok_def)
  show thesis
    by (rule that [OF nx(1) ok]) (use br_ok_origin [OF ok] nx st in \<open>auto intro: BlockIter.equality\<close>)
qed

lemma block_ranges_step:
  assumes "unat b < unat e"
  obtains r b' where "block_ranges (block_iter b e k) = r # block_ranges (block_iter b' e k)" "br_ok k r"
    "unat (origin_begin r) = unat b" "unat (origin_end r) = unat b'" "unat b < unat b'" "unat b' \<le> unat e"
proof -
  obtain r it' where nx: "BlockIter_next (block_iter b e k) = (Some r, it')" "br_ok k r"
    "unat (origin_begin r) = unat b" "unat (origin_end r) = unat (bi_begin it')"
    "unat b < unat (bi_begin it')" "unat (bi_begin it') \<le> unat e"
    "bi_end it' = e" "bi_log2 it' = k"
    using BlockIter_next_range [of "block_iter b e k", simplified, OF assms] by metis
  then have "it' = block_iter (bi_begin it') e k" by (intro BlockIter.equality) simp_all
  then have "block_ranges (block_iter b e k) = r # block_ranges (block_iter (bi_begin it') e k)"
    using nx(1) by (subst block_ranges.simps) simp
  then show thesis
    by (rule that [of r "bi_begin it'"]) (use nx in \<open>auto simp: block_ranges.simps [of "block_iter b e k"]\<close>)
qed

lemma block_ranges_empty: "unat e \<le> unat b \<Longrightarrow> block_ranges (block_iter b e k) = []"
  using BlockIter_next_None [of "block_iter b e k" "block_iter b e k"]
  by (subst block_ranges.simps) simp


section \<open>The ranges partition the request\<close>

definition br_span :: "BlockRange \<Rightarrow> nat list" where
  "br_span r = [unat (origin_begin r)..<unat (origin_end r)]"

lemma map_shift_upt: "[c + i..<c + j] = map (\<lambda>x. c + x) [i..<j]" for c :: nat
  by (rule nth_equalityI) auto

lemma block_ranges_spec:
  "concat (map br_span (block_ranges (block_iter b e k))) = [unat b..<unat e] \<and>
   list_all (br_ok k) (block_ranges (block_iter b e k))"
proof (induction "unat e - unat b" arbitrary: b rule: less_induct)
  case less
  show ?case
  proof (cases "unat b < unat e")
    case True
    then obtain r b' where r: "block_ranges (block_iter b e k) = r # block_ranges (block_iter b' e k)"
      "br_ok k r" "unat (origin_begin r) = unat b" "unat (origin_end r) = unat b'"
      "unat b < unat b'" "unat b' \<le> unat e"
      by (rule block_ranges_step)
    have "[unat b..<unat e] = [unat b..<unat b'] @ [unat b'..<unat e]"
      using r(5,6) upt_add_eq_append [of "unat b" "unat b'" "unat e - unat b'"] by simp
    moreover have "unat e - unat b' < unat e - unat b" using r(5,6) by simp
    ultimately show ?thesis using less.hyps [of b'] r by (simp add: br_span_def)
  qed (simp add: block_ranges_empty)
qed

text \<open>C35: Iterating a \<^typ>\<open>BlockIter\<close> ends, and the ranges it yields partition the requested
  byte interval in order: laid end to end they are exactly the bytes from \<^verbatim>\<open>begin\<close> to
  \<^verbatim>\<open>end\<close>, and every range is non-empty and lies inside its single block.\<close>

theorem block_ranges_partition:
  "concat (map br_span (block_ranges (block_iter b e k))) = [unat b..<unat e] \<and>
   list_all (\<lambda>r. \<not> BlockRange_is_empty r \<and> unat (br_begin r) < unat (br_end r) \<and>
     unat (br_end r) \<le> block_bytes k \<and>
     br_span r = map (\<lambda>i. unat (br_block r) * block_bytes k + i) [unat (br_begin r)..<unat (br_end r)])
     (block_ranges (block_iter b e k))"
proof -
  have sp: "br_span r = map (\<lambda>i. unat (br_block r) * block_bytes k + i) [unat (br_begin r)..<unat (br_end r)]"
    if "br_ok k r" for r
    using br_ok_origin [OF that] by (simp add: br_span_def map_shift_upt)
  have "\<not> BlockRange_is_empty r" if "br_ok k r" for r
    using that by (auto simp: br_ok_def BlockRange_is_empty_def)
  with sp show ?thesis
    using block_ranges_spec [of b e k] by (auto simp: list_all_iff br_ok_def)
qed

text \<open>The example of the module's own test.\<close>

lemma block_iter_test:
  "block_ranges (block_iter 0x123 0x2018 12) =
     [\<lparr>br_block = 0, br_begin = 0x123, br_end = 0x1000, br_log2 = 12\<rparr>,
      \<lparr>br_block = 1, br_begin = 0, br_end = 0x1000, br_log2 = 12\<rparr>,
      \<lparr>br_block = 2, br_begin = 0, br_end = 0x18, br_log2 = 12\<rparr>]"
  by (simp add: block_ranges.simps BlockIter_next_def ushl_def Let_def)

end
