(* ===== verification/Block_Device.thy ===== *)
theory Block_Device
  imports Block_Range
begin

text \<open>
  \<^verbatim>\<open>fs/dev/mod.rs\<close>: block devices and the byte-addressed device built on top of any of them.

  A \<^verbatim>\<open>BlockDevice\<close> implementation is a record of operations over its own state \<^typ>\<open>'d\<close>.
  Reading takes the caller's buffer and returns the success flag and the buffer afterwards.  The
  locale \<^verbatim>\<open>block_device\<close> is the contract of the trait; the byte-level reads and writes are
  proved correct once for every device that meets it.
\<close>

section \<open>The operations\<close>

record 'd block_dev =
  BLOCK_SIZE_LOG2 :: nat
  bd_read :: "usize \<Rightarrow> u8 list \<Rightarrow> ('d, bool \<times> u8 list) kernel"
  bd_write :: "usize \<Rightarrow> u8 list \<Rightarrow> ('d, bool) kernel"
  bd_sync :: "('d, bool) kernel"

text \<open>
  The loop of \<^verbatim>\<open>Device::read_at\<close>.  \<^term>\<open>junk\<close> stands for the uninitialised local block buffer.
  The result is the returned count and the caller's buffer.
\<close>

fun dev_read_loop ::
  "'d block_dev \<Rightarrow> u8 list \<Rightarrow> usize \<Rightarrow> BlockRange list \<Rightarrow> u8 list \<Rightarrow> ('d, usize \<times> u8 list) kernel" where
  "dev_read_loop D junk offset [] buf = kret (of_nat (length buf), buf)"
| "dev_read_loop D junk offset (r # rs) buf =
     (let len = origin_begin r - offset; i = unat len; j = unat (origin_end r - offset)
      in kbind (checked_slice i j buf) (\<lambda>part.
         if BlockRange_is_full r then
           kbind (bd_read D (br_block r) part) (\<lambda>(ok, part').
             let buf' = overwrite i part' buf
             in if ok then dev_read_loop D junk offset rs buf' else kret (len, buf'))
         else
           kthen (kassert (BLOCK_SIZE_LOG2 D \<le> 10))
             (kbind (bd_read D (br_block r) junk) (\<lambda>(ok, block_buf).
                if ok then
                  kbind (checked_slice (unat (br_begin r)) (unat (br_end r)) block_buf) (\<lambda>src.
                  kbind (copy_from_slice i j src buf) (\<lambda>buf'. dev_read_loop D junk offset rs buf'))
                else kret (len, buf)))))"

definition dev_read_at :: "'d block_dev \<Rightarrow> u8 list \<Rightarrow> usize \<Rightarrow> u8 list \<Rightarrow> ('d, usize \<times> u8 list) kernel" where
  "dev_read_at D junk offset buf =
     dev_read_loop D junk offset
       (block_ranges (block_iter offset (offset + of_nat (length buf)) (BLOCK_SIZE_LOG2 D))) buf"

fun dev_write_loop ::
  "'d block_dev \<Rightarrow> u8 list \<Rightarrow> usize \<Rightarrow> BlockRange list \<Rightarrow> u8 list \<Rightarrow> ('d, usize) kernel" where
  "dev_write_loop D junk offset [] buf = kret (of_nat (length buf))"
| "dev_write_loop D junk offset (r # rs) buf =
     (let len = origin_begin r - offset; i = unat len; j = unat (origin_end r - offset)
      in kbind (checked_slice i j buf) (\<lambda>part.
         if BlockRange_is_full r then
           kbind (bd_write D (br_block r) part) (\<lambda>ok.
             if ok then dev_write_loop D junk offset rs buf else kret len)
         else
           kthen (kassert (BLOCK_SIZE_LOG2 D \<le> 10))
             (kbind (bd_read D (br_block r) junk) (\<lambda>(ok, block_buf).
                if ok then
                  kbind (copy_from_slice (unat (br_begin r)) (unat (br_end r)) part block_buf) (\<lambda>block_buf'.
                  kbind (bd_write D (br_block r) block_buf') (\<lambda>ok.
                  if ok then dev_write_loop D junk offset rs buf else kret len))
                else kret len))))"

definition dev_write_at :: "'d block_dev \<Rightarrow> u8 list \<Rightarrow> usize \<Rightarrow> u8 list \<Rightarrow> ('d, usize) kernel" where
  "dev_write_at D junk offset buf =
     dev_write_loop D junk offset
       (block_ranges (block_iter offset (offset + of_nat (length buf)) (BLOCK_SIZE_LOG2 D))) buf"

definition dev_sync :: "'d block_dev \<Rightarrow> ('d, bool) kernel" where
  "dev_sync D = bd_sync D"

section \<open>The contract of a block device\<close>

text \<open>
  \<^term>\<open>inv\<close> is the device's own invariant, \<^term>\<open>n\<close> its number of blocks and \<^term>\<open>blk s i\<close> the
  content of block \<^term>\<open>i\<close>.
\<close>

locale block_device =
  fixes D :: "'d block_dev" and inv :: "'d \<Rightarrow> bool" and n :: nat and blk :: "'d \<Rightarrow> nat \<Rightarrow> u8 list"
  assumes log2_small: "BLOCK_SIZE_LOG2 D \<le> 10"
    and blk_length: "inv s \<Longrightarrow> i < n \<Longrightarrow> length (blk s i) = block_bytes (BLOCK_SIZE_LOG2 D)"
    and read_in: "inv s \<Longrightarrow> unat w < n \<Longrightarrow> block_bytes (BLOCK_SIZE_LOG2 D) \<le> length buf \<Longrightarrow>
      \<exists>s'. bd_read D w buf s = Inr ((True, overwrite 0 (blk s (unat w)) buf), s') \<and>
           inv s' \<and> (\<forall>j<n. blk s' j = blk s j)"
    and read_out: "inv s \<Longrightarrow> \<not> unat w < n \<Longrightarrow> block_bytes (BLOCK_SIZE_LOG2 D) \<le> length buf \<Longrightarrow>
      \<exists>s'. bd_read D w buf s = Inr ((False, buf), s') \<and> inv s' \<and> (\<forall>j<n. blk s' j = blk s j)"
    and write_in: "inv s \<Longrightarrow> unat w < n \<Longrightarrow> block_bytes (BLOCK_SIZE_LOG2 D) \<le> length buf \<Longrightarrow>
      \<exists>s'. bd_write D w buf s = Inr (True, s') \<and> inv s' \<and>
           (\<forall>j<n. blk s' j = (if j = unat w then take (block_bytes (BLOCK_SIZE_LOG2 D)) buf else blk s j))"
    and sync_ok: "inv s \<Longrightarrow> \<exists>s'. bd_sync D s = Inr (True, s') \<and> inv s' \<and> (\<forall>j<n. blk s' j = blk s j)"
begin

abbreviation bb :: nat where
  "bb \<equiv> block_bytes (BLOCK_SIZE_LOG2 D)"

text \<open>Byte \<^term>\<open>x\<close> of the device, and its size.\<close>

abbreviation byte :: "'d \<Rightarrow> nat \<Rightarrow> u8" where
  "byte s x \<equiv> blk s (x div bb) ! (x mod bb)"

abbreviation size_bytes :: nat where
  "size_bytes \<equiv> n * bb"

lemma bb_le: "bb \<le> 1024"
proof -
  have "(2 :: nat) ^ BLOCK_SIZE_LOG2 D \<le> 2 ^ 10" using log2_small by (intro power_increasing) auto
  then show ?thesis using log2_small by (simp add: block_bytes_def)
qed

text \<open>The position of a range of the loop.\<close>

lemma range_facts:
  assumes "br_ok (BLOCK_SIZE_LOG2 D) r"
  shows "unat (br_block r) = unat (origin_begin r) div bb" "unat (br_begin r) = unat (origin_begin r) mod bb"
    "unat (origin_end r) - unat (origin_begin r) = unat (br_end r) - unat (br_begin r)"
    "unat (origin_end r) \<le> (unat (origin_begin r) div bb + 1) * bb"
    "unat (origin_begin r) < unat (origin_end r)"
    "BlockRange_is_full r \<longleftrightarrow> unat (br_begin r) = 0 \<and> unat (br_end r) = bb"
proof -
  note o = br_ok_origin [OF assms]
  note ok = assms [unfolded br_ok_def]
  have lt: "unat (br_begin r) < bb" using ok by linarith
  show blk: "unat (br_block r) = unat (origin_begin r) div bb"
    using lt o(1) by simp
  show "unat (br_begin r) = unat (origin_begin r) mod bb"
    using lt o(1) by simp
  show "unat (origin_end r) - unat (origin_begin r) = unat (br_end r) - unat (br_begin r)"
    "unat (origin_begin r) < unat (origin_end r)"
    using o ok by auto
  show "unat (origin_end r) \<le> (unat (origin_begin r) div bb + 1) * bb"
    using o ok blk [symmetric] by simp
  have "unat (BlockRange_len r) = unat (br_end r) - unat (br_begin r)"
    using ok by (simp add: BlockRange_len_def unat_sub_small word_le_nat_alt)
  moreover have "BlockRange_is_full r \<longleftrightarrow> unat (BlockRange_len r) = bb"
    using ok unat_ushl_1 [of "BLOCK_SIZE_LOG2 D"] unfolding BlockRange_is_full_def by (metis unat_eqI)
  ultimately show "BlockRange_is_full r \<longleftrightarrow> unat (br_begin r) = 0 \<and> unat (br_end r) = bb"
    using ok by (auto simp del: unat_0_iff)
qed

text \<open>A part of a block is a part of the flat byte array.\<close>

lemma block_part:
  assumes "inv s" "br_ok (BLOCK_SIZE_LOG2 D) r" "unat (br_block r) < n"
  shows "slice (unat (br_begin r)) (unat (br_end r)) (blk s (unat (br_block r))) =
         map (byte s) [unat (origin_begin r)..<unat (origin_end r)]"
proof (rule nth_equalityI)
  note f = range_facts [OF assms(2)]
  note o = br_ok_origin [OF assms(2)]
  have len: "length (blk s (unat (br_block r))) = bb" using blk_length assms by blast
  have le: "unat (br_end r) \<le> bb" using assms(2) by (simp add: br_ok_def)
  show "length (slice (unat (br_begin r)) (unat (br_end r)) (blk s (unat (br_block r)))) =
        length (map (byte s) [unat (origin_begin r)..<unat (origin_end r)])"
    using len le f(3) by simp
  fix k assume "k < length (slice (unat (br_begin r)) (unat (br_end r)) (blk s (unat (br_block r))))"
  then have k: "unat (br_begin r) + k < unat (br_end r)" using len le by simp
  have "(unat (origin_begin r) + k) div bb = unat (br_block r)"
    "(unat (origin_begin r) + k) mod bb = unat (br_begin r) + k"
    using o(1) k le by (simp_all add: add.assoc)
  moreover have "k < unat (origin_end r) - unat (origin_begin r)" using k f(3) by simp
  ultimately show "slice (unat (br_begin r)) (unat (br_end r)) (blk s (unat (br_block r))) ! k =
      map (byte s) [unat (origin_begin r)..<unat (origin_end r)] ! k"
    using k le len by (simp add: nth_slice)
qed

lemma range_sub:
  assumes "br_ok (BLOCK_SIZE_LOG2 D) r" "unat offset \<le> unat (origin_begin r)"
  shows "unat (origin_begin r - offset) = unat (origin_begin r) - unat offset"
    "unat (origin_end r - offset) = unat (origin_end r) - unat offset"
    "unat (origin_begin r) - unat offset < unat (origin_end r) - unat offset"
    "unat (origin_end r) - unat offset - (unat (origin_begin r) - unat offset) =
     unat (origin_end r) - unat (origin_begin r)"
  using assms range_facts(5) [OF assms(1)] by (simp_all add: unat_sub_small word_le_nat_alt)

lemma read_step:
  assumes "inv s" "br_ok (BLOCK_SIZE_LOG2 D) r" "unat (br_block r) < n" "unat offset \<le> unat (origin_begin r)"
    "unat (origin_end r) \<le> unat offset + length buf" "bb \<le> length junk"
  obtains s' where "inv s'" "\<forall>j<n. blk s' j = blk s j"
    "\<And>rs. dev_read_loop D junk offset (r # rs) buf s =
       dev_read_loop D junk offset rs
         (overwrite (unat (origin_begin r) - unat offset)
            (map (byte s) [unat (origin_begin r)..<unat (origin_end r)]) buf) s'"
proof (cases "BlockRange_is_full r")
  note sub = range_sub [OF assms(2,4)] and f = range_facts [OF assms(2)]
  have jl: "unat (origin_end r) - unat offset \<le> length buf" using assms(5) by simp
  let ?part = "slice (unat (origin_begin r) - unat offset) (unat (origin_end r) - unat offset) buf"
  have len: "length (blk s (unat (br_block r))) = bb" using blk_length assms by blast
  {
    case True
    then have be: "unat (br_begin r) = 0" "unat (br_end r) = bb" using f(6) by auto
    have pl: "length ?part = bb" using assms(5) sub(3,4) f(3) be by simp
    obtain s' where s': "bd_read D (br_block r) ?part s = Inr ((True, overwrite 0 (blk s (unat (br_block r))) ?part), s')"
      "inv s'" "\<forall>j<n. blk s' j = blk s j"
      using read_in [OF assms(1,3) pl [symmetric, THEN eq_refl]] by auto
    have "blk s (unat (br_block r)) = map (byte s) [unat (origin_begin r)..<unat (origin_end r)]"
      using block_part [OF assms(1-3)] be len by (simp add: slice_def)
    then show ?thesis
      using s' pl len sub jl True
      by (intro that [OF s'(2,3)])
         (simp add: Let_def checked_slice_def kdefs overwrite_whole)
  }
  {
    case False
    obtain s' where s': "bd_read D (br_block r) junk s = Inr ((True, overwrite 0 (blk s (unat (br_block r))) junk), s')"
      "inv s'" "\<forall>j<n. blk s' j = blk s j"
      using read_in [OF assms(1,3,6)] by auto
    have be: "unat (br_end r) \<le> bb" "unat (br_begin r) < unat (br_end r)"
      using assms(2) by (simp_all add: br_ok_def)
    have src: "slice (unat (br_begin r)) (unat (br_end r)) (overwrite 0 (blk s (unat (br_block r))) junk) =
      map (byte s) [unat (origin_begin r)..<unat (origin_end r)]"
      using be(1) len block_part [OF assms(1-3)] by (simp add: slice_overwrite_0)
    have "length (overwrite 0 (blk s (unat (br_block r))) junk) = length junk"
      using len assms(6) by (simp add: length_overwrite)
    then show ?thesis
      using s' sub jl assms(6) False log2_small be src
      by (intro that [OF s'(2,3)])
         (simp add: Let_def checked_slice_def copy_from_slice_def kdefs del: length_slice)
  }
qed

lemma read_fail:
  assumes "inv s" "br_ok (BLOCK_SIZE_LOG2 D) r" "\<not> unat (br_block r) < n" "unat offset \<le> unat (origin_begin r)"
    "unat (origin_end r) \<le> unat offset + length buf" "bb \<le> length junk"
  obtains s' where "inv s'" "\<forall>j<n. blk s' j = blk s j"
    "\<And>rs. dev_read_loop D junk offset (r # rs) buf s = Inr ((origin_begin r - offset, buf), s')"
proof (cases "BlockRange_is_full r")
  note sub = range_sub [OF assms(2,4)] and f = range_facts [OF assms(2)]
  have jl: "unat (origin_end r) - unat offset \<le> length buf" using assms(5) by simp
  let ?part = "slice (unat (origin_begin r) - unat offset) (unat (origin_end r) - unat offset) buf"
  {
    case True
    have pl: "length ?part = bb" using assms(5) sub(3,4) f(3,6) True by simp
    obtain s' where s': "bd_read D (br_block r) ?part s = Inr ((False, ?part), s')"
      "inv s'" "\<forall>j<n. blk s' j = blk s j"
      using read_out [OF assms(1,3) pl [symmetric, THEN eq_refl]] by auto
    have "overwrite (unat (origin_begin r) - unat offset) ?part buf = buf"
      by (rule nth_equalityI) (use sub(3) assms(5) in \<open>auto simp: length_overwrite nth_overwrite nth_slice\<close>)
    then show ?thesis
      using s' sub jl True
      by (intro that [OF s'(2,3)]) (simp add: Let_def checked_slice_def kdefs)
  }
  {
    case False
    obtain s' where s': "bd_read D (br_block r) junk s = Inr ((False, junk), s')"
      "inv s'" "\<forall>j<n. blk s' j = blk s j"
      using read_out [OF assms(1,3,6)] by auto
    then show ?thesis
      using sub jl False log2_small
      by (intro that [OF s'(2,3)]) (simp add: Let_def checked_slice_def kdefs)
  }
qed

text \<open>The whole read loop, from any position it can reach.\<close>

lemma byte_cong: "\<forall>j<n. blk s' j = blk s j \<Longrightarrow> x < size_bytes \<Longrightarrow> byte s' x = byte s x"
  by (simp add: less_mult_imp_div_less)

lemma in_range_iff: "x div bb < n \<longleftrightarrow> x < size_bytes"
  by (simp add: div_less_iff_less_mult)

lemma overwrite_bytes:
  assumes "\<forall>j<n. blk s' j = blk s j" "x \<le> y" "y \<le> z" "z \<le> size_bytes" "o' \<le> x" "x - o' \<le> length buf"
  shows "overwrite (y - o') (map (byte s') [y..<z]) (overwrite (x - o') (map (byte s) [x..<y]) buf) =
         overwrite (x - o') (map (byte s) [x..<z]) buf"
proof -
  have "map (byte s') [y..<z] = map (byte s) [y..<z]"
    using byte_cong [OF assms(1)] assms(4) by auto
  moreover have "[x..<z] = [x..<y] @ [y..<z]"
    using assms upt_add_eq_append [of x y "z - y"] by simp
  moreover have "y - o' = x - o' + length (map (byte s) [x..<y])" using assms by simp
  ultimately show ?thesis
    by (simp only: overwrite_append [OF assms(6)] map_append)
qed

lemma read_loop:
  assumes "inv s" "unat offset \<le> unat b" "unat b \<le> unat e" "unat e = unat offset + length buf"
    "unat b \<le> size_bytes \<or> b = offset" "bb \<le> length junk"
  shows "\<exists>s'. dev_read_loop D junk offset (block_ranges (block_iter b e (BLOCK_SIZE_LOG2 D))) buf s =
      Inr ((of_nat (min (length buf) (size_bytes - unat offset)),
            overwrite (unat b - unat offset)
              (map (byte s) [unat b..<unat offset + min (length buf) (size_bytes - unat offset)]) buf), s') \<and>
    inv s' \<and> (\<forall>j<n. blk s' j = blk s j)"
  using assms
proof (induction "unat e - unat b" arbitrary: b buf s rule: less_induct)
  case less
  let ?m = "min (length buf) (size_bytes - unat offset)"
  show ?case
  proof (cases "unat b < unat e")
    case False
    then have "unat b = unat e" using less.prems by simp
    then have "?m = length buf" using less.prems(4,5) by (auto simp: min_def)
    with False \<open>unat b = unat e\<close> less.prems show ?thesis
      by (simp add: block_ranges_empty kret_def)
  next
    case True
    obtain r b' where r: "block_ranges (block_iter b e (BLOCK_SIZE_LOG2 D)) =
        r # block_ranges (block_iter b' e (BLOCK_SIZE_LOG2 D))" "br_ok (BLOCK_SIZE_LOG2 D) r"
      "unat (origin_begin r) = unat b" "unat (origin_end r) = unat b'" "unat b < unat b'" "unat b' \<le> unat e"
      using True by (rule block_ranges_step)
    have pre: "unat offset \<le> unat (origin_begin r)" "unat (origin_end r) \<le> unat offset + length buf"
      using r less.prems by simp_all
    have blk: "unat (br_block r) < n \<longleftrightarrow> unat b < size_bytes"
      using range_facts(1) [OF r(2)] r(3) in_range_iff by simp
    show ?thesis
    proof (cases "unat b < size_bytes")
      case in_range: True
      obtain s' where s': "inv s'" "\<forall>j<n. blk s' j = blk s j"
        "\<And>rs. dev_read_loop D junk offset (r # rs) buf s =
           dev_read_loop D junk offset rs
             (overwrite (unat (origin_begin r) - unat offset)
                (map (byte s) [unat (origin_begin r)..<unat (origin_end r)]) buf) s'"
        using read_step [OF less.prems(1) r(2) _ pre less.prems(6)] in_range blk by blast
      have "unat b' \<le> (unat b div bb + 1) * bb" using range_facts(4) [OF r(2)] r by simp
      also have "\<dots> \<le> n * bb" using in_range in_range_iff [of "unat b"] by (intro mult_le_mono1) simp
      finally have b': "unat b' \<le> size_bytes" .
      let ?buf = "overwrite (unat b - unat offset) (map (byte s) [unat b..<unat b']) buf"
      have len: "length ?buf = length buf"
        using less.prems r by (intro length_overwrite) simp
      have ov: "overwrite (unat b' - unat offset) (map (byte s') [unat b'..<unat offset + ?m]) ?buf =
         overwrite (unat b - unat offset) (map (byte s) [unat b..<unat offset + ?m]) buf"
        using less.prems r b' in_range by (intro overwrite_bytes [OF s'(2)]) auto
      show ?thesis
        using less.hyps [of b' s' ?buf] s' len ov less.prems r b' by auto
    next
      case False
      obtain s' where s': "inv s'" "\<forall>j<n. blk s' j = blk s j"
        "\<And>rs. dev_read_loop D junk offset (r # rs) buf s = Inr ((origin_begin r - offset, buf), s')"
        using read_fail [OF less.prems(1) r(2) _ pre less.prems(6)] False blk by blast
      have m: "unat b - unat offset = ?m" using False less.prems True by (auto simp: min_def)
      have "origin_begin r - offset = of_nat ?m"
        by (simp only: m [symmetric] r(3) [symmetric] range_sub(1) [OF r(2) pre(1), symmetric] of_nat_unat_usize)
      with s' r m less.prems show ?thesis by simp
    qed
  qed
qed

lemma dev_read_at_spec:
  assumes "inv s" "unat offset + length buf < 2 ^ 64" "bb \<le> length junk"
  defines "m \<equiv> min (length buf) (size_bytes - unat offset)"
  shows "\<exists>s'. dev_read_at D junk offset buf s =
      Inr ((of_nat m, map (byte s) [unat offset..<unat offset + m] @ drop m buf), s') \<and>
    inv s' \<and> (\<forall>j<n. blk s' j = blk s j)"
proof -
  have "length buf < 2 ^ 64" using assms(2) by linarith
  then have e: "unat (offset + of_nat (length buf)) = unat offset + length buf"
    using assms(2) by (subst unat_add_small) (simp_all add: unat_of_nat_small)
  have "overwrite 0 (map (byte s) [unat offset..<unat offset + m]) buf =
    map (byte s) [unat offset..<unat offset + m] @ drop m buf"
    by (simp add: overwrite_def)
  then show ?thesis
    using read_loop [OF assms(1) order.refl _ e _ assms(3)] unfolding dev_read_at_def m_def by (simp add: e)
qed

section \<open>Writing\<close>

text \<open>The flat byte array after a write of \<^term>\<open>ys\<close> at \<^term>\<open>x\<close>.\<close>

definition bytes_after :: "'d \<Rightarrow> nat \<Rightarrow> u8 list \<Rightarrow> 'd \<Rightarrow> bool" where
  "bytes_after s x ys s' \<longleftrightarrow> inv s' \<and>
     (\<forall>y < size_bytes. byte s' y = (if x \<le> y \<and> y < x + length ys then ys ! (y - x) else byte s y))"

lemma bytes_after_Nil: "inv s \<Longrightarrow> bytes_after s x [] s"
  by (auto simp: bytes_after_def)

lemma bytes_after_append:
  assumes "bytes_after s x xs s1" "bytes_after s1 (x + length xs) ys s2"
  shows "bytes_after s x (xs @ ys) s2"
  using assms by (auto simp: bytes_after_def nth_append)

text \<open>Replacing one block changes the bytes of that block only.\<close>

lemma block_bytes_after:
  assumes "inv s" "inv s'" "br_ok (BLOCK_SIZE_LOG2 D) r" "unat (br_block r) < n"
    and ys: "length ys = unat (br_end r) - unat (br_begin r)"
    and upd: "\<forall>j<n. blk s' j = (if j = unat (br_block r) then overwrite (unat (br_begin r)) ys (blk s j) else blk s j)"
  shows "bytes_after s (unat (origin_begin r)) ys s'"
  unfolding bytes_after_def
proof (intro conjI allI impI)
  fix y assume "y < size_bytes"
  then have yn: "y div bb < n" by (simp add: in_range_iff)
  note f = range_facts [OF assms(3)] and o = br_ok_origin [OF assms(3)]
  have be: "unat (br_end r) \<le> bb" "unat (br_begin r) < unat (br_end r)"
    using assms(3) by (simp_all add: br_ok_def)
  have len: "length (blk s (unat (br_block r))) = bb" using blk_length assms by blast
  show "byte s' y = (if unat (origin_begin r) \<le> y \<and> y < unat (origin_begin r) + length ys
      then ys ! (y - unat (origin_begin r)) else byte s y)"
  proof (cases "y div bb = unat (br_block r)")
    case True
    then have y: "y = unat (br_block r) * bb + y mod bb" by (metis div_mult_mod_eq)
    have "byte s' y = overwrite (unat (br_begin r)) ys (blk s (unat (br_block r))) ! (y mod bb)"
      using upd yn True by simp
    also have "\<dots> = (if unat (br_begin r) \<le> y mod bb \<and> y mod bb < unat (br_begin r) + length ys
        then ys ! (y mod bb - unat (br_begin r)) else blk s (unat (br_block r)) ! (y mod bb))"
      using len ys be by (intro nth_overwrite) simp_all
    finally show ?thesis using o(1) y True by (smt (verit) add_diff_cancel_left add_less_cancel_left add_le_cancel_left add.assoc)
  next
    case False
    have "\<not> (unat (origin_begin r) \<le> y \<and> y < unat (origin_begin r) + length ys)"
    proof
      assume "unat (origin_begin r) \<le> y \<and> y < unat (origin_begin r) + length ys"
      then have "unat (br_block r) * bb \<le> y" "y < (unat (br_block r) + 1) * bb"
        using o(1) ys be by auto
      then have "y div bb = unat (br_block r)"
        by (metis Suc_eq_plus1 div_nat_eqI mult.commute)
      with False show False by simp
    qed
    then show ?thesis using upd yn False by auto
  qed
qed (rule assms(2))

lemma write_step:
  assumes "inv s" "br_ok (BLOCK_SIZE_LOG2 D) r" "unat (br_block r) < n" "unat offset \<le> unat (origin_begin r)"
    "unat (origin_end r) \<le> unat offset + length buf" "bb \<le> length junk"
  obtains s' where
    "bytes_after s (unat (origin_begin r)) (slice (unat (origin_begin r) - unat offset) (unat (origin_end r) - unat offset) buf) s'"
    "\<And>rs. dev_write_loop D junk offset (r # rs) buf s = dev_write_loop D junk offset rs buf s'"
proof (cases "BlockRange_is_full r")
  note sub = range_sub [OF assms(2,4)] and f = range_facts [OF assms(2)]
  have jl: "unat (origin_end r) - unat offset \<le> length buf" using assms(5) by simp
  let ?part = "slice (unat (origin_begin r) - unat offset) (unat (origin_end r) - unat offset) buf"
  have len: "length (blk s (unat (br_block r))) = bb" using blk_length assms by blast
  have be: "unat (br_end r) \<le> bb" "unat (br_begin r) < unat (br_end r)"
    using assms(2) by (simp_all add: br_ok_def)
  have pl: "length ?part = unat (br_end r) - unat (br_begin r)"
    using diff_le_mono [OF jl, of "unat (origin_begin r) - unat offset"]
    by (simp only: length_slice sub(4) f(3) min_absorb1)
  note after = block_bytes_after [OF assms(1) _ assms(2,3) pl]
  {
    case True
    then have be0: "unat (br_begin r) = 0" "unat (br_end r) = bb" using f(6) by auto
    with pl have bl: "bb \<le> length ?part" "length ?part = bb" by simp_all
    obtain s' where s': "bd_write D (br_block r) ?part s = Inr (True, s')" "inv s'"
      "\<forall>j<n. blk s' j = (if j = unat (br_block r) then take bb ?part else blk s j)"
      using write_in [OF assms(1,3) bl(1)] by auto
    have "take bb ?part = overwrite (unat (br_begin r)) ?part (blk s (unat (br_block r)))"
      using bl(2) be0 len by (simp add: overwrite_whole del: length_slice)
    with s'(3) have "bytes_after s (unat (origin_begin r)) ?part s'"
      by (intro after [OF s'(2)]) auto
    then show ?thesis
      by (rule that) (use s' sub jl True in \<open>simp add: Let_def checked_slice_def kdefs\<close>)
  }
  {
    case False
    let ?bl = "overwrite 0 (blk s (unat (br_block r))) junk"
    obtain s1 where s1: "bd_read D (br_block r) junk s = Inr ((True, ?bl), s1)"
      "inv s1" "\<forall>j<n. blk s1 j = blk s j"
      using read_in [OF assms(1,3,6)] by auto
    let ?bl' = "overwrite (unat (br_begin r)) ?part ?bl"
    have bll: "length ?bl = length junk" using len assms(6) by (simp add: length_overwrite)
    then have bl: "bb \<le> length ?bl'" using assms(6) be pl by (simp add: length_overwrite del: length_slice)
    obtain s' where s': "bd_write D (br_block r) ?bl' s1 = Inr (True, s')" "inv s'"
      "\<forall>j<n. blk s' j = (if j = unat (br_block r) then take bb ?bl' else blk s1 j)"
      using write_in [OF s1(2) assms(3) bl] by auto
    have "take bb ?bl' = overwrite (unat (br_begin r)) ?part (blk s (unat (br_block r)))"
      by (rule nth_equalityI)
         (use len be pl assms(6) bl bll in \<open>auto simp: length_overwrite nth_overwrite simp del: length_slice\<close>)
    with s'(3) s1(3) have "bytes_after s (unat (origin_begin r)) ?part s'"
      by (intro after [OF s'(2)]) auto
    then show ?thesis
      by (rule that)
         (use s1 s' sub jl False log2_small be pl bll assms(6) in
           \<open>simp add: Let_def checked_slice_def copy_from_slice_def kdefs del: length_slice\<close>)
  }
qed

lemma write_fail:
  assumes "inv s" "br_ok (BLOCK_SIZE_LOG2 D) r" "\<not> unat (br_block r) < n" "unat offset \<le> unat (origin_begin r)"
    "unat (origin_end r) \<le> unat offset + length buf" "bb \<le> length junk"
    and out: "\<And>s w buf. inv s \<Longrightarrow> \<not> unat w < n \<Longrightarrow> bb \<le> length buf \<Longrightarrow>
      \<exists>s'. bd_write D w buf s = Inr (False, s') \<and> inv s' \<and> (\<forall>j<n. blk s' j = blk s j)"
  obtains s' where "inv s'" "\<forall>j<n. blk s' j = blk s j"
    "\<And>rs. dev_write_loop D junk offset (r # rs) buf s = Inr (origin_begin r - offset, s')"
proof (cases "BlockRange_is_full r")
  note sub = range_sub [OF assms(2,4)] and f = range_facts [OF assms(2)]
  have jl: "unat (origin_end r) - unat offset \<le> length buf" using assms(5) by simp
  let ?part = "slice (unat (origin_begin r) - unat offset) (unat (origin_end r) - unat offset) buf"
  {
    case True
    have pl: "bb \<le> length ?part" using assms(5) sub(3,4) f(3,6) True by simp
    obtain s' where s': "bd_write D (br_block r) ?part s = Inr (False, s')"
      "inv s'" "\<forall>j<n. blk s' j = blk s j"
      using out [OF assms(1,3) pl] by auto
    then show ?thesis
      using sub jl True by (intro that [OF s'(2,3)]) (simp add: Let_def checked_slice_def kdefs)
  }
  {
    case False
    obtain s' where s': "bd_read D (br_block r) junk s = Inr ((False, junk), s')"
      "inv s'" "\<forall>j<n. blk s' j = blk s j"
      using read_out [OF assms(1,3,6)] by auto
    then show ?thesis
      using sub jl False log2_small
      by (intro that [OF s'(2,3)]) (simp add: Let_def checked_slice_def kdefs)
  }
qed

lemma bytes_after_same: "inv s' \<Longrightarrow> \<forall>j<n. blk s' j = blk s j \<Longrightarrow> bytes_after s x [] s'"
  using byte_cong [of s' s] by (auto simp: bytes_after_def)

lemma write_loop:
  assumes "inv s" "unat offset \<le> unat b" "unat b \<le> unat e" "unat e = unat offset + length buf"
    "unat b \<le> size_bytes \<or> b = offset" "bb \<le> length junk"
    and out: "unat e \<le> size_bytes \<or> (\<forall>s w buf. inv s \<longrightarrow> \<not> unat w < n \<longrightarrow> bb \<le> length buf \<longrightarrow>
      (\<exists>s'. bd_write D w buf s = Inr (False, s') \<and> inv s' \<and> (\<forall>j<n. blk s' j = blk s j)))"
  shows "\<exists>s'. dev_write_loop D junk offset (block_ranges (block_iter b e (BLOCK_SIZE_LOG2 D))) buf s =
      Inr (of_nat (min (length buf) (size_bytes - unat offset)), s') \<and>
    bytes_after s (unat b) (slice (unat b - unat offset) (min (length buf) (size_bytes - unat offset)) buf) s'"
  using assms(1-6)
proof (induction "unat e - unat b" arbitrary: b s rule: less_induct)
  case less
  let ?m = "min (length buf) (size_bytes - unat offset)"
  show ?case
  proof (cases "unat b < unat e")
    case False
    then have "unat b = unat e" using less.prems by simp
    moreover from this have "?m = length buf" using less.prems(4,5) by (auto simp: min_def)
    ultimately show ?thesis
      using False less.prems by (simp add: block_ranges_empty kret_def slice_def bytes_after_Nil)
  next
    case True
    obtain r b' where r: "block_ranges (block_iter b e (BLOCK_SIZE_LOG2 D)) =
        r # block_ranges (block_iter b' e (BLOCK_SIZE_LOG2 D))" "br_ok (BLOCK_SIZE_LOG2 D) r"
      "unat (origin_begin r) = unat b" "unat (origin_end r) = unat b'" "unat b < unat b'" "unat b' \<le> unat e"
      using True by (rule block_ranges_step)
    have pre: "unat offset \<le> unat (origin_begin r)" "unat (origin_end r) \<le> unat offset + length buf"
      using r less.prems by simp_all
    have blk: "unat (br_block r) < n \<longleftrightarrow> unat b < size_bytes"
      using range_facts(1) [OF r(2)] r(3) in_range_iff by simp
    show ?thesis
    proof (cases "unat b < size_bytes")
      case in_range: True
      let ?part = "slice (unat b - unat offset) (unat b' - unat offset) buf"
      obtain s' where s': "bytes_after s (unat b) ?part s'"
        "\<And>rs. dev_write_loop D junk offset (r # rs) buf s = dev_write_loop D junk offset rs buf s'"
        using write_step [OF less.prems(1) r(2) _ pre less.prems(6)] in_range blk r(3,4) by auto
      have "unat b' \<le> (unat b div bb + 1) * bb" using range_facts(4) [OF r(2)] r by simp
      also have "\<dots> \<le> n * bb" using in_range in_range_iff [of "unat b"] by (intro mult_le_mono1) simp
      finally have b': "unat b' \<le> size_bytes" .
      have inv': "inv s'" using s'(1) by (simp add: bytes_after_def)
      have lt: "unat e - unat b' < unat e - unat b" and off: "unat offset \<le> unat b'"
        using r(5,6) less.prems(2) by simp_all
      obtain s2 where s2: "dev_write_loop D junk offset (block_ranges (block_iter b' e (BLOCK_SIZE_LOG2 D))) buf s' =
          Inr (of_nat ?m, s2)" "bytes_after s' (unat b') (slice (unat b' - unat offset) ?m buf) s2"
        using less.hyps [OF lt inv' off r(6) less.prems(4) disjI1 [OF b'] less.prems(6)] by blast
      have "unat b + length ?part = unat b'" using less.prems r by auto
      then have "bytes_after s (unat b) (?part @ slice (unat b' - unat offset) ?m buf) s2"
        using bytes_after_append [OF s'(1)] s2(2) by simp
      moreover have "?part @ slice (unat b' - unat offset) ?m buf = slice (unat b - unat offset) ?m buf"
        using less.prems r b' by (intro slice_append) auto
      ultimately show ?thesis using s'(2) s2(1) r(1) by auto
    next
      case False
      have "\<not> unat e \<le> size_bytes" using False True by linarith
      with out have fails: "\<exists>s'. bd_write D w buf s = Inr (False, s') \<and> inv s' \<and> (\<forall>j<n. blk s' j = blk s j)"
        if "inv s" "\<not> unat w < n" "bb \<le> length buf" for s w buf
        using that by simp
      have nb: "\<not> unat (br_block r) < n" using False blk by simp
      obtain s' where s': "inv s'" "\<forall>j<n. blk s' j = blk s j"
        "\<And>rs. dev_write_loop D junk offset (r # rs) buf s = Inr (origin_begin r - offset, s')"
        using write_fail [OF less.prems(1) r(2) nb pre less.prems(6) fails] by blast
      have m: "unat b - unat offset = ?m" using False less.prems True by (auto simp: min_def)
      have "origin_begin r - offset = of_nat ?m"
        by (simp only: m [symmetric] r(3) [symmetric] range_sub(1) [OF r(2) pre(1), symmetric] of_nat_unat_usize)
      with s' r m show ?thesis by (simp add: slice_def bytes_after_same)
    qed
  qed
qed

lemma end_offset:
  assumes "unat offset + length buf < 2 ^ 64"
  shows "unat (offset + of_nat (length buf) :: usize) = unat offset + length (buf :: u8 list)"
proof -
  have "length buf < 2 ^ 64" using assms by linarith
  then show ?thesis using assms by (subst unat_add_small) (simp_all add: unat_of_nat_small)
qed

lemma dev_write_at_spec:
  assumes "inv s" "unat offset + length buf < 2 ^ 64" "bb \<le> length junk" "unat offset + length buf \<le> size_bytes"
  shows "\<exists>s'. dev_write_at D junk offset buf s = Inr (of_nat (length buf), s') \<and>
    bytes_after s (unat offset) buf s'"
proof -
  note e = end_offset [OF assms(2)]
  have "min (length buf) (size_bytes - unat offset) = length buf" using assms(4) by simp
  then show ?thesis
    using write_loop [OF assms(1) order.refl _ e _ assms(3)] assms(4)
    unfolding dev_write_at_def by (simp add: e slice_def)
qed

end

text \<open>A device that refuses writes outside its range, and leaves its content alone then.\<close>

locale strict_block_device = block_device +
  assumes write_out: "inv s \<Longrightarrow> \<not> unat w < n \<Longrightarrow> block_bytes (BLOCK_SIZE_LOG2 D) \<le> length buf \<Longrightarrow>
    \<exists>s'. bd_write D w buf s = Inr (False, s') \<and> inv s' \<and> (\<forall>j<n. blk s' j = blk s j)"
begin

lemma dev_write_at_strict:
  assumes "inv s" "unat offset + length buf < 2 ^ 64" "bb \<le> length junk"
  defines "m \<equiv> min (length buf) (size_bytes - unat offset)"
  shows "\<exists>s'. dev_write_at D junk offset buf s = Inr (of_nat m, s') \<and> bytes_after s (unat offset) (take m buf) s'"
proof -
  note e = end_offset [OF assms(2)]
  have out: "unat (offset + of_nat (length buf)) \<le> size_bytes \<or>
    (\<forall>s w buf. inv s \<longrightarrow> \<not> unat w < n \<longrightarrow> bb \<le> length buf \<longrightarrow>
      (\<exists>s'. bd_write D w buf s = Inr (False, s') \<and> inv s' \<and> (\<forall>j<n. blk s' j = blk s j)))"
    using write_out by blast
  show ?thesis
    using write_loop [OF assms(1) order.refl _ e _ assms(3) out]
    unfolding dev_write_at_def m_def by (simp add: e slice_def)
qed

end

section \<open>The in-memory device of the module's tests\<close>

definition mem16_read :: "usize \<Rightarrow> u8 list \<Rightarrow> (u8 list, bool \<times> u8 list) kernel" where
  "mem16_read block_id buf =
     (if 4 \<le> block_id then kret (False, buf)
      else let b = unat (ushl block_id 2)
           in kbind (kget (\<lambda>s. s)) (\<lambda>s. kbind (checked_slice b (b + 4) s) (\<lambda>src.
              kbind (copy_from_slice 0 4 src buf) (\<lambda>buf'. kret (True, buf')))))"

definition mem16_write :: "usize \<Rightarrow> u8 list \<Rightarrow> (u8 list, bool) kernel" where
  "mem16_write block_id buf =
     (if 4 \<le> block_id then kret False
      else let b = unat (ushl block_id 2)
           in kbind (checked_slice 0 4 buf) (\<lambda>src. kbind (kget (\<lambda>s. s)) (\<lambda>s.
              kbind (copy_from_slice b (b + 4) src s) (\<lambda>s'. kthen (kmodify (\<lambda>_. s')) (kret True)))))"

definition mem16 :: "u8 list block_dev" where
  "mem16 = \<lparr>BLOCK_SIZE_LOG2 = 2, bd_read = mem16_read, bd_write = mem16_write, bd_sync = kret True\<rparr>"

definition mem16_blk :: "u8 list \<Rightarrow> nat \<Rightarrow> u8 list" where
  "mem16_blk s i = slice (4 * i) (4 * i + 4) s"

lemma mem16_block: "unat w < 4 \<Longrightarrow> unat (ushl w 2) = 4 * unat w" for w :: usize
  using unat_ushl [of w 2] by (simp add: block_bytes_def)

lemma mem16_fields [simp]:
  "BLOCK_SIZE_LOG2 mem16 = 2" "bd_read mem16 = mem16_read" "bd_write mem16 = mem16_write" "bd_sync mem16 = kret True"
  "block_bytes 2 = 4"
  by (simp_all add: mem16_def block_bytes_def)

interpretation m16: strict_block_device mem16 "\<lambda>s. length s = 16" 4 mem16_blk
proof unfold_locales
  fix s :: "u8 list" and i :: nat assume "length s = 16" "i < 4"
  then show "length (mem16_blk s i) = block_bytes (BLOCK_SIZE_LOG2 mem16)"
    by (simp add: mem16_blk_def)
next
  fix s buf :: "u8 list" and w :: usize
  assume s: "length s = 16" and w: "unat w < 4" and b: "block_bytes (BLOCK_SIZE_LOG2 mem16) \<le> length buf"
  have "\<not> 4 \<le> w" using w by (simp add: word_le_nat_alt)
  then show "\<exists>s'. bd_read mem16 w buf s = Inr ((True, overwrite 0 (mem16_blk s (unat w)) buf), s') \<and>
      length s' = 16 \<and> (\<forall>j<4. mem16_blk s' j = mem16_blk s j)"
    using s w b by (simp add: mem16_read_def mem16_block Let_def checked_slice_def copy_from_slice_def kdefs mem16_blk_def)
next
  fix s buf :: "u8 list" and w :: usize
  assume s: "length s = 16" and w: "unat w < 4" and b: "block_bytes (BLOCK_SIZE_LOG2 mem16) \<le> length buf"
  have "\<not> 4 \<le> w" using w by (simp add: word_le_nat_alt)
  then have "bd_write mem16 w buf s = Inr (True, overwrite (4 * unat w) (slice 0 4 buf) s)"
    using s w b by (simp add: mem16_write_def mem16_block Let_def checked_slice_def copy_from_slice_def kdefs)
  moreover have "mem16_blk (overwrite (4 * unat w) (slice 0 4 buf) s) j =
      (if j = unat w then take 4 buf else mem16_blk s j)" if "j < 4" for j
    by (rule nth_equalityI)
       (use s w b that in \<open>auto simp: mem16_blk_def length_overwrite nth_slice nth_overwrite\<close>)
  ultimately show "\<exists>s'. bd_write mem16 w buf s = Inr (True, s') \<and> length s' = 16 \<and>
      (\<forall>j<4. mem16_blk s' j =
         (if j = unat w then take (block_bytes (BLOCK_SIZE_LOG2 mem16)) buf else mem16_blk s j))"
    using s w b by (simp add: length_overwrite)
qed (auto simp: mem16_read_def mem16_write_def kdefs word_le_nat_alt)

section \<open>The byte device over any block device\<close>

text \<open>C31: Over any block device that meets its contract, reading bytes at an offset returns the
  bytes of the flat concatenation of the blocks: as many as fit before the end of the device are
  copied to the front of the buffer, the count says how many, the rest of the buffer and the
  content of the device are unchanged, and nothing depends on the uninitialised local buffer.\<close>

theorem byte_read_correct:
  assumes "block_device D I n blk" "I s" "unat offset + length buf < 2 ^ 64" "length junk = 1024"
  defines "bs \<equiv> block_bytes (BLOCK_SIZE_LOG2 D)"
  defines "m \<equiv> min (length buf) (n * bs - unat offset)"
  shows "\<exists>s'. dev_read_at D junk offset buf s =
      Inr ((of_nat m, map (\<lambda>x. blk s (x div bs) ! (x mod bs)) [unat offset..<unat offset + m] @ drop m buf), s') \<and>
    I s' \<and> (\<forall>j<n. blk s' j = blk s j)"
  using block_device.dev_read_at_spec [OF assms(1-3)] block_device.bb_le [OF assms(1)] assms(4)
  unfolding bs_def m_def by simp

lemma mem16_test_bytes:
  "map (\<lambda>x. mem16_blk (map of_nat [0..<16]) (x div 4) ! (x mod 4)) [11..<16] = [11, 12, 13, 14, 15]"
  by (simp add: upt_rec mem16_blk_def slice_def)

theorem byte_read_correct_witness:
  "\<exists>s'. dev_read_at mem16 (replicate 1024 0) 11 [3, 4, 5, 6, 7, 8] (map of_nat [0..<16]) =
     Inr ((5, [11, 12, 13, 14, 15, 8]), s') \<and> length s' = 16"
proof -
  have "min (length [3, 4, 5, 6, 7, 8 :: u8]) (4 * block_bytes (BLOCK_SIZE_LOG2 mem16) - unat (11 :: usize)) = 5"
    by simp
  then show ?thesis
    using byte_read_correct [OF m16.block_device_axioms, of "map of_nat [0..<16]" 11 "[3, 4, 5, 6, 7, 8]" "replicate 1024 0"]
      mem16_test_bytes by auto
qed


lemma mem16_read_back:
  assumes "length s = 16" "\<forall>y<16. mem16_blk s (y div 4) ! (y mod 4) = f y"
  shows "s = map f [0..<16]"
proof (rule nth_equalityI)
  fix y assume "y < length s"
  then have y: "y < 16" using assms(1) by simp
  have "mem16_blk s (y div 4) ! (y mod 4) = s ! (4 * (y div 4) + y mod 4)"
    unfolding mem16_blk_def using y assms(1) by (intro nth_slice) auto
  with y assms(2) show "s ! y = map f [0..<16] ! y" by simp
qed (simp add: assms(1))


end
