(* ===== verification/Lru.thy ===== *)
theory Lru
  imports Prelude
begin

text \<open>
  The recency list of \<^verbatim>\<open>fs/dev/block_cache.rs\<close>: a circular doubly linked list whose links
  are two index vectors.  Node 0 is the anchor of the ring: \<^verbatim>\<open>visit\<close> moves a node right behind
  it and \<^verbatim>\<open>victim\<close> is the node right before it.  The lemmas show that the two vectors always
  represent a list of the other nodes in order of their last visit.
\<close>

section \<open>The operations\<close>

record LRU =
  lru_prev :: "nat list"
  lru_next :: "nat list"

text \<open>With \<^verbatim>\<open>size = 0\<close> the subtraction wraps and collecting the range overflows the capacity.\<close>

definition LRU_new :: "nat \<Rightarrow> LRU res" where
  "LRU_new n =
     (if n = 0 then Inl (Explicit ''capacity overflow'')
      else Inr \<lparr>lru_prev = [n - 1..<n] @ [0..<n - 1], lru_next = [1..<n] @ [0..<1]\<rparr>)"

text \<open>Every index is checked; the two updates of each function are on different vectors.\<close>

definition unlinked :: "nat \<Rightarrow> LRU \<Rightarrow> LRU" where
  "unlinked i l =
     (let p = lru_prev l ! i; q = lru_next l ! i
      in l\<lparr>lru_prev := (lru_prev l)[q := p], lru_next := (lru_next l)[p := q]\<rparr>)"

definition list_remove :: "nat \<Rightarrow> LRU \<Rightarrow> LRU res" where
  "list_remove i l =
     (if i < length (lru_prev l) \<and> i < length (lru_next l) \<and>
         lru_next l ! i < length (lru_prev l) \<and> lru_prev l ! i < length (lru_next l)
      then Inr (unlinked i l) else Inl OutOfBounds)"

definition linked :: "nat \<Rightarrow> LRU \<Rightarrow> LRU" where
  "linked i l =
     (let head = lru_next l ! 0
      in l\<lparr>lru_prev := ((lru_prev l)[i := 0])[head := i], lru_next := ((lru_next l)[i := head])[0 := i]\<rparr>)"

definition list_insert_head :: "nat \<Rightarrow> LRU \<Rightarrow> LRU res" where
  "list_insert_head i l =
     (if 0 < length (lru_next l) \<and> i < length (lru_prev l) \<and> i < length (lru_next l) \<and>
         lru_next l ! 0 < length (lru_prev l)
      then Inr (linked i l) else Inl OutOfBounds)"

definition LRU_visit :: "nat \<Rightarrow> LRU \<Rightarrow> LRU res" where
  "LRU_visit i l =
     (if i = 0 \<or> length (lru_prev l) \<le> i then Inr l
      else case list_remove i l of Inl e \<Rightarrow> Inl e | Inr l' \<Rightarrow> list_insert_head i l')"

definition LRU_victim :: "LRU \<Rightarrow> nat res" where
  "LRU_victim l = (if lru_prev l = [] then Inl OutOfBounds else Inr (lru_prev l ! 0))"

section \<open>The list they represent\<close>

text \<open>\<^term>\<open>chain nx pv a xs z\<close>: from node \<^term>\<open>a\<close> the links lead through \<^term>\<open>xs\<close> to \<^term>\<open>z\<close>, both ways.\<close>

fun chain :: "nat list \<Rightarrow> nat list \<Rightarrow> nat \<Rightarrow> nat list \<Rightarrow> nat \<Rightarrow> bool" where
  "chain nx pv a [] z \<longleftrightarrow> nx ! a = z \<and> pv ! z = a"
| "chain nx pv a (x # xs) z \<longleftrightarrow> nx ! a = x \<and> pv ! x = a \<and> chain nx pv x xs z"

definition lru_list :: "LRU \<Rightarrow> nat \<Rightarrow> nat list \<Rightarrow> bool" where
  "lru_list l n xs \<longleftrightarrow> length (lru_prev l) = n \<and> length (lru_next l) = n \<and> distinct (0 # xs) \<and>
     set (0 # xs) = {0..<n} \<and> chain (lru_next l) (lru_prev l) 0 xs 0"

lemma chain_append: "chain nx pv a (xs @ y # ys) z \<longleftrightarrow> chain nx pv a xs y \<and> chain nx pv y ys z"
  by (induction xs arbitrary: a) auto

lemma chain_ends:
  "chain nx pv a xs z \<Longrightarrow> nx ! a = hd (xs @ [z])"
  "chain nx pv a xs z \<Longrightarrow> pv ! z = last (a # xs)"
  by (induction xs arbitrary: a) auto

lemma chain_frame:
  "chain nx pv a xs z \<Longrightarrow> i \<notin> set (a # xs) \<Longrightarrow> chain (nx[i := u]) pv a xs z"
  "chain nx pv a xs z \<Longrightarrow> j \<notin> set (xs @ [z]) \<Longrightarrow> chain nx (pv[j := w]) a xs z"
  by (induction xs arbitrary: a) auto

lemma chain_retarget:
  assumes "chain nx pv a xs z" "distinct (a # xs)" "z' \<notin> set xs" "last (a # xs) < length nx" "z' < length pv"
  shows "chain (nx[last (a # xs) := z']) (pv[z' := last (a # xs)]) a xs z'"
  using assms
proof (induction xs arbitrary: a)
  case (Cons x xs)
  have "last (x # xs) \<noteq> a" using Cons.prems(2) last_in_set [of "x # xs"] by auto
  then show ?case using Cons by auto
qed auto

lemma chain_resource:
  assumes "chain nx pv a xs z" "a' \<notin> set xs" "a' < length nx" "hd (xs @ [z]) < length pv" "distinct (xs @ [z])"
  shows "chain (nx[a' := hd (xs @ [z])]) (pv[hd (xs @ [z]) := a']) a' xs z"
  using assms chain_frame(1) chain_frame(2) by (cases xs) auto

section \<open>Visiting\<close>

lemma unlinked_chain:
  assumes c: "chain (lru_next l) (lru_prev l) 0 (as @ i # bs) 0" and d: "distinct (0 # as @ i # bs)"
    and s: "set (0 # as @ i # bs) \<subseteq> {0..<n}" and n: "length (lru_prev l) = n" "length (lru_next l) = n"
  shows "chain (lru_next (unlinked i l)) (lru_prev (unlinked i l)) 0 (as @ bs) 0"
proof -
  let ?nx = "lru_next l" and ?pv = "lru_prev l"
  let ?p = "last (0 # as)" and ?q = "hd (bs @ [0])"
  have ca: "chain ?nx ?pv 0 as i" and cb: "chain ?nx ?pv i bs 0" using c by (simp_all add: chain_append)
  have pq: "?pv ! i = ?p" "?nx ! i = ?q" using chain_ends ca cb by blast+
  have p: "?p \<in> set (0 # as)" by (rule last_in_set) simp
  have q: "?q \<in> set (bs @ [0])" by (rule hd_in_set) simp
  have lt: "?p < length ?nx" "?q < length ?pv" using p q s n by auto
  have dis: "distinct (0 # as)" "?q \<notin> set as" using d q by auto
  have ca': "chain (?nx[?p := ?q]) (?pv[?q := ?p]) 0 as ?q"
    using chain_retarget [OF ca dis lt] .
  have r: "lru_next (unlinked i l) = ?nx[?p := ?q]" "lru_prev (unlinked i l) = ?pv[?q := ?p]"
    by (simp_all add: unlinked_def Let_def pq)
  show ?thesis
  proof (cases bs)
    case Nil
    then show ?thesis using ca' by (simp add: r)
  next
    case (Cons b bs')
    then have "chain ?nx ?pv b bs' 0" using cb by simp
    moreover have "?p \<notin> set (b # bs')" "b \<notin> set (bs' @ [0])" using d p Cons by auto
    ultimately have "chain (?nx[?p := b]) (?pv[b := ?p]) b bs' 0"
      by (intro chain_frame)
    with ca' Cons show ?thesis by (simp add: r chain_append)
  qed
qed

lemma linked_chain:
  assumes c: "chain (lru_next l) (lru_prev l) 0 xs 0" and d: "distinct (0 # i # xs)"
    and s: "set (0 # i # xs) \<subseteq> {0..<n}" and n: "length (lru_prev l) = n" "length (lru_next l) = n"
  shows "chain (lru_next (linked i l)) (lru_prev (linked i l)) 0 (i # xs) 0"
proof -
  let ?nx = "lru_next l" and ?pv = "lru_prev l" and ?h = "hd (xs @ [0])"
  have h: "?nx ! 0 = ?h" using chain_ends(1) [OF c] .
  have hs: "?h \<in> set (xs @ [0])" by (rule hd_in_set) simp
  have hi: "?h \<noteq> i" using hs d by auto
  have c1: "chain ?nx (?pv[i := 0]) 0 xs 0" using c d by (intro chain_frame) auto
  have ok: "i \<notin> set xs" "i < length ?nx" "?h < length (?pv[i := 0])" "distinct (xs @ [0])"
    using s n d hs by auto
  have c2: "chain (?nx[i := ?h]) ((?pv[i := 0])[?h := i]) i xs 0"
    by (rule chain_resource [OF c1 ok])
  have "chain ((?nx[i := ?h])[0 := i]) ((?pv[i := 0])[?h := i]) i xs 0"
    by (rule chain_frame(1) [OF c2]) (use d in auto)
  moreover have "((?nx[i := ?h])[0 := i]) ! 0 = i" "((?pv[i := 0])[?h := i]) ! i = 0"
    using s n hi by auto
  ultimately show ?thesis by (simp add: linked_def Let_def h)
qed

lemma lru_list_links:
  assumes "chain nx pv a xs z" "x \<in> set xs"
  shows "nx ! x \<in> set (xs @ [z])" "pv ! x \<in> set (a # xs)"
  using assms
proof (induction xs arbitrary: a)
  case (Cons y ys)
  {
    case 1
    have "hd (ys @ [z]) \<in> set (ys @ [z])" by (rule hd_in_set) simp
    with 1 Cons.IH(1) [of y] show ?case by (auto simp: chain_ends(1))
  }
  {
    case 2
    with Cons.IH(2) [of y] show ?case by auto
  }
qed simp_all

lemma lru_list_visit:
  assumes l: "lru_list l n xs" and i: "i < n"
  obtains l' where "LRU_visit i l = Inr l'" "lru_list l' n (if i = 0 then xs else i # remove1 i xs)"
proof (cases "i = 0")
  case False
  note l' = l [unfolded lru_list_def]
  have "i \<in> set (0 # xs)" using l' i by (metis atLeastLessThan_iff le0)
  then have ix: "i \<in> set xs" using False by simp
  then obtain as bs where xs: "xs = as @ i # bs" by (meson split_list)
  then have rm: "remove1 i xs = as @ bs" using l' by (simp add: remove1_append)
  let ?l1 = "unlinked i l"
  have c: "chain (lru_next ?l1) (lru_prev ?l1) 0 (as @ bs) 0"
    by (rule unlinked_chain [of l as i bs n]) (use l' xs in auto)
  have len: "length (lru_prev ?l1) = n" "length (lru_next ?l1) = n"
    using l' by (simp_all add: unlinked_def Let_def)
  have "lru_next l ! i \<in> {0..<n}" "lru_prev l ! i \<in> {0..<n}"
    using lru_list_links [of "lru_next l" "lru_prev l" 0 xs 0 i] l' ix by auto
  then have r1: "list_remove i l = Inr ?l1" using l' i by (simp add: list_remove_def)
  have "hd ((as @ bs) @ [0]) \<in> set ((as @ bs) @ [0])" by (rule hd_in_set) simp
  then have "lru_next ?l1 ! 0 \<in> set (as @ bs @ [0])"
    unfolding chain_ends(1) [OF c] by simp
  then have r2: "list_insert_head i ?l1 = Inr (linked i ?l1)"
    using len i l' xs by (auto simp: list_insert_head_def)
  have "chain (lru_next (linked i ?l1)) (lru_prev (linked i ?l1)) 0 (i # as @ bs) 0"
    using linked_chain [OF c _ _ len, of i] l' xs False i by auto
  moreover have "length (lru_prev (linked i ?l1)) = n" "length (lru_next (linked i ?l1)) = n"
    using len by (simp_all add: linked_def Let_def)
  ultimately have "lru_list (linked i ?l1) n (i # remove1 i xs)"
    using l' xs rm False by (auto simp: lru_list_def)
  then show thesis
    using r1 r2 False i l' by (intro that [of "linked i ?l1"]) (auto simp: LRU_visit_def)
qed (use l in \<open>auto simp: LRU_visit_def intro: that\<close>)

lemma lru_victim:
  assumes "lru_list l n xs" "0 < n"
  shows "LRU_victim l = Inr (last (0 # xs))" "last (0 # xs) < n"
proof -
  show "LRU_victim l = Inr (last (0 # xs))"
    using assms chain_ends(2) by (auto simp: LRU_victim_def lru_list_def)
  have "last (0 # xs) \<in> set (0 # xs)" by (rule last_in_set) simp
  then show "last (0 # xs) < n" using assms by (auto simp: lru_list_def)
qed

lemma chain_upt:
  assumes "k < m" "m = length nx" "m = length pv" "\<forall>i. k \<le> i \<and> i + 1 < m \<longrightarrow> nx ! i = i + 1 \<and> pv ! (i + 1) = i"
    "nx ! (m - 1) = 0" "pv ! 0 = m - 1"
  shows "chain nx pv k [k + 1..<m] 0"
  using assms
proof (induction "m - k" arbitrary: k)
  case (Suc d)
  show ?case
  proof (cases "k + 1 < m")
    case True
    then have "[k + 1..<m] = (k + 1) # [k + 1 + 1..<m]" by (simp add: upt_conv_Cons)
    moreover have "chain nx pv (k + 1) [k + 1 + 1..<m] 0"
      using Suc.hyps True Suc.prems by (intro Suc.hyps(1)) auto
    ultimately show ?thesis using Suc.prems True by simp
  next
    case False
    with Suc.prems have "k = m - 1" "[k + 1..<m] = []" by auto
    then show ?thesis using Suc.prems by simp
  qed
qed simp

lemma lru_list_new:
  assumes "LRU_new n = Inr l"
  shows "lru_list l n [1..<n]"
proof -
  have n: "0 < n" and l: "l = \<lparr>lru_prev = [n - 1..<n] @ [0..<n - 1], lru_next = [1..<n] @ [0..<1]\<rparr>"
    using assms by (auto simp: LRU_new_def split: if_splits)
  have pv: "lru_prev l = (n - 1) # [0..<n - 1]" using n l by (cases n) auto
  have nx: "lru_next l = [1..<n] @ [0]" using l by simp
  have "chain (lru_next l) (lru_prev l) 0 [0 + 1..<n] 0"
    by (rule chain_upt) (use n in \<open>auto simp: pv nx nth_append\<close>)
  moreover have "set (0 # [1..<n]) = {0..<n}" using n by auto
  ultimately show ?thesis using n by (auto simp: lru_list_def pv nx)
qed

section \<open>Sequences of visits\<close>

text \<open>The recency order a sequence of visits leaves, most recent first.\<close>

fun recency :: "nat list \<Rightarrow> nat list \<Rightarrow> nat list" where
  "recency xs [] = xs"
| "recency xs (i # is) = recency (if i = 0 then xs else i # remove1 i xs) is"

fun visits :: "nat list \<Rightarrow> LRU \<Rightarrow> LRU res" where
  "visits [] l = Inr l"
| "visits (i # is) l = (case LRU_visit i l of Inl e \<Rightarrow> Inl e | Inr l' \<Rightarrow> visits is l')"

lemma visits_recency:
  assumes "lru_list l n xs" "\<forall>i\<in>set is. i < n"
  obtains l' where "visits is l = Inr l'" "lru_list l' n (recency xs is)"
  using assms
proof (induction "is" arbitrary: l xs thesis)
  case (Cons i "is")
  have "i < n" using Cons.prems by simp
  with Cons.prems(2) obtain l1 where "LRU_visit i l = Inr l1" "lru_list l1 n (if i = 0 then xs else i # remove1 i xs)"
    by (rule lru_list_visit)
  with Cons show ?case by (auto split: if_splits)
qed simp



end
