(* ===== verification/Block_Cache.thy ===== *)
theory Block_Cache
  imports Block_Device Lru
begin

text \<open>
  \<^verbatim>\<open>fs/dev/block_cache.rs\<close>: a write-back cache of blocks in front of any block device.

  The buffers' locks are free whenever an operation starts, since each operation drops its guard
  before it returns, so \<^verbatim>\<open>try_lock\<close> always succeeds; a guard is modelled by the buffer's index.
  The main result is that the cache in front of a device that meets the block-device contract meets
  the same contract, with the same content.
\<close>

section \<open>The operations\<close>

datatype BufStatus = Unused | Valid usize | Dirty usize

record Buf =
  buf_status :: BufStatus
  buf_data :: "u8 list"

record 'd cache_state =
  bc_device :: 'd
  bc_bufs :: "Buf list"
  bc_lru :: LRU

type_synonym ('d, 'a) ckernel = "('d cache_state, 'a) kernel"

definition BlockCache_new :: "'d block_dev \<Rightarrow> 'd \<Rightarrow> nat \<Rightarrow> 'd cache_state res" where
  "BlockCache_new D device capacity =
     (case LRU_new capacity of Inl e \<Rightarrow> Inl e
      | Inr lru \<Rightarrow> Inr \<lparr>bc_device = device,
          bc_bufs = replicate capacity
            \<lparr>buf_status = Unused, buf_data = replicate (unat (ushl 1 (BLOCK_SIZE_LOG2 D))) 0\<rparr>,
          bc_lru = lru\<rparr>)"

text \<open>An operation of the device below.\<close>

definition on_device :: "('d, 'a) kernel \<Rightarrow> ('d, 'a) ckernel" where
  "on_device f = (\<lambda>s. case f (bc_device s) of
     Inl e \<Rightarrow> Inl e | Inr (a, d) \<Rightarrow> Inr (a, s\<lparr>bc_device := d\<rparr>))"

definition set_buf :: "nat \<Rightarrow> Buf \<Rightarrow> ('d, unit) ckernel" where
  "set_buf i b = kmodify (\<lambda>s. s\<lparr>bc_bufs := (bc_bufs s)[i := b]\<rparr>)"

definition get_nth :: "nat \<Rightarrow> ('d, Buf) ckernel" where
  "get_nth i = kbind (kget bc_bufs) (\<lambda>bufs. kindex bufs i)"

definition write_back :: "'d block_dev \<Rightarrow> nat \<Rightarrow> ('d, bool) ckernel" where
  "write_back D i =
     kbind (get_nth i) (\<lambda>b.
       case buf_status b of
         Dirty block_id \<Rightarrow>
           kbind (on_device (bd_write D block_id (buf_data b))) (\<lambda>ok.
             if ok then kthen (set_buf i (b\<lparr>buf_status := Valid block_id\<rparr>)) (kret True) else kret False)
       | _ \<Rightarrow> kret True)"

fun holds :: "usize \<Rightarrow> BufStatus \<Rightarrow> bool" where
  "holds block_id Unused = False"
| "holds block_id (Valid i) = (i = block_id)"
| "holds block_id (Dirty i) = (i = block_id)"

definition get_unused :: "'d block_dev \<Rightarrow> ('d, nat) ckernel" where
  "get_unused D =
     kbind (kget bc_bufs) (\<lambda>bufs.
       case find_index (\<lambda>b. buf_status b = Unused) bufs of
         Some i \<Rightarrow> kret i
       | None \<Rightarrow>
           kbind (kget bc_lru) (\<lambda>lru. kbind (kres (LRU_victim lru)) (\<lambda>victim.
           kbind (write_back D victim) (\<lambda>ok.
           kthen (kcheck UnwrapErr ok)
             (kbind (get_nth victim) (\<lambda>b.
              kthen (set_buf victim (b\<lparr>buf_status := Unused\<rparr>)) (kret victim)))))))"

definition get_buf_any :: "'d block_dev \<Rightarrow> usize \<Rightarrow> ('d, nat) ckernel" where
  "get_buf_any D block_id =
     kbind (kget bc_bufs) (\<lambda>bufs.
       case find_index (\<lambda>b. holds block_id (buf_status b)) bufs of
         Some i \<Rightarrow> kret i
       | None \<Rightarrow> get_unused D)"

definition get_buf :: "'d block_dev \<Rightarrow> usize \<Rightarrow> ('d, nat) ckernel" where
  "get_buf D block_id =
     kbind (get_buf_any D block_id) (\<lambda>i.
     kbind (kget bc_lru) (\<lambda>lru. kbind (kres (LRU_visit i lru)) (\<lambda>lru'.
     kthen (kmodify (\<lambda>s. s\<lparr>bc_lru := lru'\<rparr>)) (kret i))))"

text \<open>The end of \<^verbatim>\<open>read_at\<close>: the buffer's data goes to the front of the caller's slice.\<close>

definition cache_fill :: "'d block_dev \<Rightarrow> nat \<Rightarrow> u8 list \<Rightarrow> ('d, bool \<times> u8 list) ckernel" where
  "cache_fill D i buffer =
     kbind (get_nth i) (\<lambda>b.
     kbind (copy_from_slice 0 (unat (ushl 1 (BLOCK_SIZE_LOG2 D))) (buf_data b) buffer) (\<lambda>buffer'.
     kret (True, buffer')))"

definition cache_read_at :: "'d block_dev \<Rightarrow> usize \<Rightarrow> u8 list \<Rightarrow> ('d, bool \<times> u8 list) ckernel" where
  "cache_read_at D block_id buffer =
     kbind (get_buf D block_id) (\<lambda>i. kbind (get_nth i) (\<lambda>b.
       if buf_status b = Unused then
         kbind (on_device (bd_read D block_id (buf_data b))) (\<lambda>(ok, d).
           if ok then kthen (set_buf i \<lparr>buf_status = Valid block_id, buf_data = d\<rparr>) (cache_fill D i buffer)
           else kthen (set_buf i (b\<lparr>buf_data := d\<rparr>)) (kret (False, buffer)))
       else cache_fill D i buffer))"

definition cache_write_at :: "'d block_dev \<Rightarrow> usize \<Rightarrow> u8 list \<Rightarrow> ('d, bool) ckernel" where
  "cache_write_at D block_id buffer =
     kbind (get_buf D block_id) (\<lambda>i. kbind (get_nth i) (\<lambda>b.
     kbind (checked_slice 0 (unat (ushl 1 (BLOCK_SIZE_LOG2 D))) buffer) (\<lambda>src.
     kbind (copy_from_slice 0 (length (buf_data b)) src (buf_data b)) (\<lambda>d.
     kthen (set_buf i \<lparr>buf_status = Dirty block_id, buf_data = d\<rparr>) (kret True)))))"

text \<open>The loop of \<^verbatim>\<open>sync\<close> stops at the first failing write-back.\<close>

fun write_back_all :: "'d block_dev \<Rightarrow> nat list \<Rightarrow> ('d, bool) ckernel" where
  "write_back_all D [] = kret True"
| "write_back_all D (i # is) = kbind (write_back D i) (\<lambda>ok. if ok then write_back_all D is else kret False)"

definition cache_sync :: "'d block_dev \<Rightarrow> ('d, bool) ckernel" where
  "cache_sync D =
     kbind (kget bc_bufs) (\<lambda>bufs.
     kbind (write_back_all D [0..<length bufs]) (\<lambda>ok.
       if ok then on_device (bd_sync D) else kret False))"

definition cache_drop :: "'d block_dev \<Rightarrow> ('d, unit) ckernel" where
  "cache_drop D = kbind (cache_sync D) (\<lambda>ok. kcheck UnwrapErr ok)"

definition block_cache :: "'d block_dev \<Rightarrow> 'd cache_state block_dev" where
  "block_cache D = \<lparr>BLOCK_SIZE_LOG2 = BLOCK_SIZE_LOG2 D, bd_read = cache_read_at D,
     bd_write = cache_write_at D, bd_sync = cache_sync D\<rparr>"

section \<open>The invariant and the content\<close>

fun block_of :: "BufStatus \<Rightarrow> nat option" where
  "block_of Unused = None"
| "block_of (Valid w) = Some (unat w)"
| "block_of (Dirty w) = Some (unat w)"

lemma holds_block_of: "holds w st \<longleftrightarrow> block_of st = Some (unat w)"
  by (cases st) (auto dest: unat_eqI)

lemma block_of_None [simp]: "block_of st = None \<longleftrightarrow> st = Unused"
  by (cases st) auto

text \<open>No block is in two buffers.\<close>

definition bufs_unique :: "Buf list \<Rightarrow> bool" where
  "bufs_unique bufs \<longleftrightarrow> (\<forall>k<length bufs. \<forall>l<length bufs. \<forall>i.
     block_of (buf_status (bufs ! k)) = Some i \<longrightarrow> block_of (buf_status (bufs ! l)) = Some i \<longrightarrow> k = l)"

definition cached :: "Buf list \<Rightarrow> nat \<Rightarrow> bool" where
  "cached bufs i \<longleftrightarrow> (\<exists>k<length bufs. block_of (buf_status (bufs ! k)) = Some i)"

definition cache_content :: "(nat \<Rightarrow> u8 list) \<Rightarrow> Buf list \<Rightarrow> nat \<Rightarrow> u8 list" where
  "cache_content disk bufs i =
     (case find_index (\<lambda>b. block_of (buf_status b) = Some i) bufs of
        None \<Rightarrow> disk i | Some k \<Rightarrow> buf_data (bufs ! k))"

lemma cache_content_hit:
  assumes "bufs_unique bufs" "k < length bufs" "block_of (buf_status (bufs ! k)) = Some i"
  shows "cache_content disk bufs i = buf_data (bufs ! k)"
proof (cases "find_index (\<lambda>b. block_of (buf_status b) = Some i) bufs")
  case None
  then show ?thesis using assms by (auto simp: find_index_None)
next
  case (Some l)
  then have "l < length bufs" "block_of (buf_status (bufs ! l)) = Some i"
    by (simp_all add: find_index_Some)
  then have "l = k" using assms unfolding bufs_unique_def by blast
  with Some show ?thesis by (simp add: cache_content_def)
qed

lemma cache_content_miss: "\<not> cached bufs i \<Longrightarrow> cache_content disk bufs i = disk i"
  by (auto simp: cache_content_def cached_def find_index_Some split: option.splits)

text \<open>The content is determined by what each buffer holds.\<close>

lemma cache_content_eqI:
  assumes "bufs_unique bufs" "\<And>k. k < length bufs \<Longrightarrow> block_of (buf_status (bufs ! k)) = Some i \<Longrightarrow> buf_data (bufs ! k) = x"
    "\<not> cached bufs i \<Longrightarrow> disk i = x"
  shows "cache_content disk bufs i = x"
  using assms cache_content_hit cache_content_miss unfolding cached_def by metis

lemma bufs_unique_update:
  assumes "bufs_unique bufs" "\<And>j k. block_of (buf_status b) = Some j \<Longrightarrow> k < length bufs \<Longrightarrow> k \<noteq> i \<Longrightarrow>
    block_of (buf_status (bufs ! k)) \<noteq> Some j"
  shows "bufs_unique (bufs[i := b])"
  using assms unfolding bufs_unique_def length_list_update
  by (metis nth_list_update_eq nth_list_update_neq)

lemma cache_content_update:
  assumes u: "bufs_unique bufs" and u': "bufs_unique (bufs[i := b])" and i: "i < length bufs"
  shows "cache_content disk (bufs[i := b]) j =
    (if block_of (buf_status b) = Some j then buf_data b
     else if block_of (buf_status (bufs ! i)) = Some j then disk j
     else cache_content disk bufs j)"
proof (rule cache_content_eqI [OF u'])
  fix k assume k: "k < length (bufs[i := b])" "block_of (buf_status (bufs[i := b] ! k)) = Some j"
  show "buf_data (bufs[i := b] ! k) = (if block_of (buf_status b) = Some j then buf_data b
     else if block_of (buf_status (bufs ! i)) = Some j then disk j else cache_content disk bufs j)"
  proof (cases "k = i")
    case True
    then show ?thesis using k i by simp
  next
    case False
    then have h: "block_of (buf_status (bufs ! k)) = Some j" "k < length bufs" using k by simp_all
    have "block_of (buf_status (bufs ! i)) \<noteq> Some j" using u h i False unfolding bufs_unique_def by blast
    moreover have "block_of (buf_status b) \<noteq> Some j"
      using u' k i False unfolding bufs_unique_def by (metis length_list_update nth_list_update_eq)
    ultimately show ?thesis using cache_content_hit [OF u h(2,1)] False by simp
  qed
next
  assume m: "\<not> cached (bufs[i := b]) j"
  then have "block_of (buf_status b) \<noteq> Some j" using i unfolding cached_def by (metis length_list_update nth_list_update_eq)
  moreover have "\<not> cached bufs j" if "block_of (buf_status (bufs ! i)) \<noteq> Some j"
    using m that unfolding cached_def by (metis length_list_update nth_list_update_neq)
  ultimately show "disk j = (if block_of (buf_status b) = Some j then buf_data b
     else if block_of (buf_status (bufs ! i)) = Some j then disk j else cache_content disk bufs j)"
    by (simp add: cache_content_miss)
qed

lemma cache_content_cong:
  assumes "\<not> cached bufs j \<Longrightarrow> disk j = disk' j"
  shows "cache_content disk bufs j = cache_content disk' bufs j"
proof (cases "find_index (\<lambda>b. block_of (buf_status b) = Some j) bufs")
  case None
  then have "\<not> cached bufs j" by (auto simp: find_index_None cached_def)
  with assms None show ?thesis by (simp add: cache_content_def)
qed (simp add: cache_content_def)

section \<open>Sequences of operations on a block device\<close>

datatype dev_op = OpRead usize | OpWrite usize "u8 list" | OpSync

text \<open>Running them on a device; reads fill a zeroed block and a failure ends the run.\<close>

fun run_ops :: "'d block_dev \<Rightarrow> dev_op list \<Rightarrow> ('d, (u8 list) list option) kernel" where
  "run_ops D [] = kret (Some [])"
| "run_ops D (OpRead w # ops) =
     kbind (bd_read D w (replicate (block_bytes (BLOCK_SIZE_LOG2 D)) 0)) (\<lambda>(ok, b).
       if ok then kbind (run_ops D ops) (\<lambda>r. kret (map_option ((#) b) r)) else kret None)"
| "run_ops D (OpWrite w b # ops) = kbind (bd_write D w b) (\<lambda>ok. if ok then run_ops D ops else kret None)"
| "run_ops D (OpSync # ops) = kbind (bd_sync D) (\<lambda>ok. if ok then run_ops D ops else kret None)"

text \<open>What they mean: an array of blocks.\<close>

fun spec_ops :: "(nat \<Rightarrow> u8 list) \<Rightarrow> dev_op list \<Rightarrow> (u8 list) list \<times> (nat \<Rightarrow> u8 list)" where
  "spec_ops m [] = ([], m)"
| "spec_ops m (OpRead w # ops) = (let (r, m') = spec_ops m ops in (m (unat w) # r, m'))"
| "spec_ops m (OpWrite w b # ops) = spec_ops (m(unat w := b)) ops"
| "spec_ops m (OpSync # ops) = spec_ops m ops"

fun op_ok :: "nat \<Rightarrow> nat \<Rightarrow> dev_op \<Rightarrow> bool" where
  "op_ok n k (OpRead w) \<longleftrightarrow> unat w < n"
| "op_ok n k (OpWrite w b) \<longleftrightarrow> unat w < n \<and> length b = k"
| "op_ok n k OpSync \<longleftrightarrow> True"

context block_device
begin

lemma run_ops_spec:
  assumes "inv s" "\<forall>j<n. blk s j = m j" "list_all (op_ok n bb) ops"
  shows "\<exists>s'. run_ops D ops s = Inr (Some (fst (spec_ops m ops)), s') \<and> inv s' \<and>
    (\<forall>j<n. blk s' j = snd (spec_ops m ops) j)"
  using assms
proof (induction ops arbitrary: s m)
  case Nil
  then show ?case by (simp add: kret_def)
next
  case (Cons op ops)
  then show ?case
  proof (cases op)
    case (OpRead w)
    let ?z = "replicate bb 0 :: u8 list"
    have w: "unat w < n" using Cons.prems(3) OpRead by simp
    obtain s1 where s1: "bd_read D w ?z s = Inr ((True, overwrite 0 (blk s (unat w)) ?z), s1)" "inv s1"
      "\<forall>j<n. blk s1 j = blk s j"
      using read_in [OF Cons.prems(1) w, of ?z] by auto
    have "overwrite 0 (blk s (unat w)) ?z = m (unat w)"
      using blk_length [OF Cons.prems(1) w] Cons.prems(2) w by (simp add: overwrite_def)
    with s1 OpRead Cons.IH [of s1 m] Cons.prems show ?thesis
      by (auto simp: kdefs split: prod.splits)
  next
    case (OpWrite w b)
    have w: "unat w < n" "bb \<le> length b" "length b = bb" using Cons.prems(3) OpWrite by simp_all
    obtain s1 where s1: "bd_write D w b s = Inr (True, s1)" "inv s1"
      "\<forall>j<n. blk s1 j = (if j = unat w then take bb b else blk s j)"
      using write_in [OF Cons.prems(1) w(1,2)] by auto
    have eq: "\<forall>j<n. blk s1 j = (m(unat w := b)) j" using s1(3) Cons.prems(2) w(3) by auto
    have "list_all (op_ok n bb) ops" using Cons.prems(3) by simp
    from Cons.IH [of s1 "m(unat w := b)", OF s1(2) eq this] s1(1) OpWrite show ?thesis
      by (simp add: kdefs del: fun_upd_apply)
  next
    case OpSync
    with sync_ok [OF Cons.prems(1)] Cons show ?thesis by (fastforce simp: kdefs)
  qed
qed

end

section \<open>The cache is a block device\<close>

locale cached_device = block_device
begin

text \<open>A buffer agrees with the disk unless it is dirty.\<close>

definition buf_ok :: "(nat \<Rightarrow> u8 list) \<Rightarrow> Buf \<Rightarrow> bool" where
  "buf_ok disk b \<longleftrightarrow> length (buf_data b) = bb \<and>
     (\<forall>i. block_of (buf_status b) = Some i \<longrightarrow> i < n) \<and>
     (\<forall>w. buf_status b = Valid w \<longrightarrow> buf_data b = disk (unat w))"

definition cache_ok :: "'a cache_state \<Rightarrow> bool" where
  "cache_ok s \<longleftrightarrow> inv (bc_device s) \<and> bc_bufs s \<noteq> [] \<and>
     (\<exists>xs. lru_list (bc_lru s) (length (bc_bufs s)) xs) \<and> bufs_unique (bc_bufs s) \<and>
     list_all (buf_ok (blk (bc_device s))) (bc_bufs s)"

definition cache_blk :: "'a cache_state \<Rightarrow> nat \<Rightarrow> u8 list" where
  "cache_blk s = cache_content (blk (bc_device s)) (bc_bufs s)"

definition same_content :: "'a cache_state \<Rightarrow> 'a cache_state \<Rightarrow> bool" where
  "same_content s s' \<longleftrightarrow> length (bc_bufs s') = length (bc_bufs s) \<and> (\<forall>j<n. cache_blk s' j = cache_blk s j)"

lemma same_content_trans [trans]: "same_content s s1 \<Longrightarrow> same_content s1 s2 \<Longrightarrow> same_content s s2"
  by (simp add: same_content_def)

lemma same_content_refl [simp]: "same_content s s"
  by (simp add: same_content_def)

lemma cache_okD:
  assumes "cache_ok s" "k < length (bc_bufs s)"
  shows "buf_ok (blk (bc_device s)) (bc_bufs s ! k)"
  using assms by (simp add: cache_ok_def list_all_length)

text \<open>Changing one buffer while the disk below changes at most in the block that buffer held.\<close>

lemma update_one:
  assumes ok: "cache_ok s" and i: "i < length (bc_bufs s)" and inv': "inv d'"
    and disk: "\<And>j. j < n \<Longrightarrow> block_of (buf_status (bc_bufs s ! i)) \<noteq> Some j \<Longrightarrow> blk d' j = blk (bc_device s) j"
    and b: "buf_ok (blk d') b"
    and fresh: "\<And>j k. block_of (buf_status b) = Some j \<Longrightarrow> k < length (bc_bufs s) \<Longrightarrow> k \<noteq> i \<Longrightarrow>
      block_of (buf_status (bc_bufs s ! k)) \<noteq> Some j"
  defines "s' \<equiv> s\<lparr>bc_device := d', bc_bufs := (bc_bufs s)[i := b]\<rparr>"
  shows "cache_ok s'"
    "\<And>j. j < n \<Longrightarrow> cache_blk s' j =
       (if block_of (buf_status b) = Some j then buf_data b
        else if block_of (buf_status (bc_bufs s ! i)) = Some j then blk d' j
        else cache_blk s j)"
proof -
  let ?bufs = "bc_bufs s"
  have u: "bufs_unique ?bufs" using ok by (simp add: cache_ok_def)
  have u': "bufs_unique (?bufs[i := b])" using u fresh by (rule bufs_unique_update)
  have "buf_ok (blk d') (?bufs[i := b] ! k)" if k: "k < length ?bufs" for k
  proof (cases "k = i")
    case False
    have bk: "buf_ok (blk (bc_device s)) (?bufs ! k)" using cache_okD [OF ok k] .
    have "blk d' (unat w) = blk (bc_device s) (unat w)" if v: "buf_status (?bufs ! k) = Valid w" for w
    proof (rule disk)
      show "unat w < n" using bk v by (simp add: buf_ok_def)
      show "block_of (buf_status (?bufs ! i)) \<noteq> Some (unat w)"
        using u v i k False unfolding bufs_unique_def by fastforce
    qed
    with bk False show ?thesis by (simp add: buf_ok_def)
  qed (use b i in simp)
  with ok u' inv' show "cache_ok s'"
    by (auto simp: cache_ok_def s'_def list_all_length)
  fix j assume j: "j < n"
  have "cache_content (blk d') ?bufs j = cache_content (blk (bc_device s)) ?bufs j"
    if "block_of (buf_status (?bufs ! i)) \<noteq> Some j"
    by (rule cache_content_cong) (use disk [OF j that] in simp)
  then show "cache_blk s' j =
       (if block_of (buf_status b) = Some j then buf_data b
        else if block_of (buf_status (bc_bufs s ! i)) = Some j then blk d' j
        else cache_blk s j)"
    by (simp add: cache_blk_def s'_def cache_content_update [OF u u' i])
qed

lemma write_back_spec:
  assumes ok: "cache_ok s" and i: "i < length (bc_bufs s)"
  obtains s' where "write_back D i s = Inr (True, s')" "cache_ok s'" "same_content s s'" "bc_lru s' = bc_lru s"
    "\<And>w. buf_status (bc_bufs s' ! i) \<noteq> Dirty w"
    "\<And>k. k < length (bc_bufs s) \<Longrightarrow> k \<noteq> i \<Longrightarrow> bc_bufs s' ! k = bc_bufs s ! k"
    "\<And>k. k < length (bc_bufs s) \<Longrightarrow> block_of (buf_status (bc_bufs s' ! k)) = block_of (buf_status (bc_bufs s ! k))"
proof (cases "buf_status (bc_bufs s ! i)")
  case (Dirty w)
  let ?b = "bc_bufs s ! i"
  have b: "buf_ok (blk (bc_device s)) ?b" using cache_okD [OF ok i] .
  then have w: "unat w < n" and len: "bb \<le> length (buf_data ?b)" "length (buf_data ?b) = bb"
    using Dirty by (simp_all add: buf_ok_def)
  have inv: "inv (bc_device s)" using ok by (simp add: cache_ok_def)
  obtain d' where d': "bd_write D w (buf_data ?b) (bc_device s) = Inr (True, d')" "inv d'"
    "\<forall>j<n. blk d' j = (if j = unat w then take bb (buf_data ?b) else blk (bc_device s) j)"
    using write_in [OF inv w len(1)] by auto
  let ?b' = "?b\<lparr>buf_status := Valid w\<rparr>"
  let ?s' = "s\<lparr>bc_device := d', bc_bufs := (bc_bufs s)[i := ?b']\<rparr>"
  have b': "buf_ok (blk d') ?b'" using b d'(3) w len Dirty by (simp add: buf_ok_def)
  have u: "bufs_unique (bc_bufs s)" using ok by (simp add: cache_ok_def)
  have fresh: "block_of (buf_status (bc_bufs s ! k)) \<noteq> Some j"
    if "block_of (buf_status ?b') = Some j" "k < length (bc_bufs s)" "k \<noteq> i" for j k
    using u that Dirty i unfolding bufs_unique_def by fastforce
  have disk: "blk d' j = blk (bc_device s) j" if "j < n" "block_of (buf_status ?b) \<noteq> Some j" for j
    using d'(3) that Dirty by auto
  note up = update_one [OF ok i d'(2) disk b' fresh]
  have "cache_blk s (unat w) = buf_data ?b"
    unfolding cache_blk_def using cache_content_hit [OF u i] Dirty by simp
  then have "same_content s ?s'" using up(2) Dirty by (auto simp: same_content_def)
  moreover have "write_back D i s = Inr (True, ?s')"
    using i Dirty d'(1) by (simp add: write_back_def get_nth_def set_buf_def on_device_def kdefs)
  moreover have "block_of (buf_status (bc_bufs ?s' ! k)) = block_of (buf_status (bc_bufs s ! k))"
    if "k < length (bc_bufs s)" for k
    using i Dirty that by (cases "k = i") auto
  ultimately show thesis using up(1) i by (intro that [of ?s']) auto
qed (use assms in \<open>auto simp: write_back_def get_nth_def kdefs intro: that\<close>)

text \<open>Emptying a clean buffer.\<close>

lemma forget_spec:
  assumes ok: "cache_ok s" and i: "i < length (bc_bufs s)" and clean: "\<And>w. buf_status (bc_bufs s ! i) \<noteq> Dirty w"
  defines "s' \<equiv> s\<lparr>bc_bufs := (bc_bufs s)[i := (bc_bufs s ! i)\<lparr>buf_status := Unused\<rparr>]\<rparr>"
  shows "cache_ok s'" "same_content s s'"
proof -
  let ?b = "bc_bufs s ! i"
  have b: "buf_ok (blk (bc_device s)) ?b" using cache_okD [OF ok i] .
  have s': "s' = s\<lparr>bc_device := bc_device s, bc_bufs := (bc_bufs s)[i := ?b\<lparr>buf_status := Unused\<rparr>]\<rparr>"
    by (simp add: s'_def)
  have inv: "inv (bc_device s)" and u: "bufs_unique (bc_bufs s)" using ok by (simp_all add: cache_ok_def)
  have b': "buf_ok (blk (bc_device s)) (?b\<lparr>buf_status := Unused\<rparr>)" using b by (simp add: buf_ok_def)
  note up = update_one [OF ok i inv _ b']
  show "cache_ok s'" unfolding s' by (rule up(1)) simp_all
  have c: "cache_blk s' j = (if block_of (buf_status ?b) = Some j then blk (bc_device s) j else cache_blk s j)"
    if "j < n" for j
    unfolding s' by (subst up(2)) (use that in simp_all)
  have "cache_blk s j = blk (bc_device s) j" if "block_of (buf_status ?b) = Some j" for j
  proof -
    have "buf_data ?b = blk (bc_device s) j"
      using b that clean by (cases "buf_status ?b") (auto simp: buf_ok_def)
    then show ?thesis unfolding cache_blk_def using cache_content_hit [OF u i that] by simp
  qed
  with c show "same_content s s'" by (simp add: same_content_def s')
qed

lemma get_unused_spec:
  assumes ok: "cache_ok s"
  obtains i s' where "get_unused D s = Inr (i, s')" "i < length (bc_bufs s)" "cache_ok s'" "same_content s s'"
    "buf_status (bc_bufs s' ! i) = Unused" "\<And>j. cached (bc_bufs s') j \<Longrightarrow> cached (bc_bufs s) j"
proof (cases "find_index (\<lambda>b. buf_status b = Unused) (bc_bufs s)")
  case (Some i)
  then have "get_unused D s = Inr (i, s)" by (simp add: get_unused_def kdefs)
  with Some [unfolded find_index_Some] ok show thesis by (intro that [of i s]) auto
next
  case None
  obtain xs where xs: "lru_list (bc_lru s) (length (bc_bufs s)) xs" and ne: "0 < length (bc_bufs s)"
    using ok by (auto simp: cache_ok_def)
  define v where "v = last (0 # xs)"
  have v: "LRU_victim (bc_lru s) = Inr v" "v < length (bc_bufs s)" using lru_victim [OF xs ne] by (simp_all only: v_def)
  obtain s1 where s1: "write_back D v s = Inr (True, s1)" "cache_ok s1" "same_content s s1"
    "\<And>w. buf_status (bc_bufs s1 ! v) \<noteq> Dirty w"
    "\<And>k. k < length (bc_bufs s) \<Longrightarrow> block_of (buf_status (bc_bufs s1 ! k)) = block_of (buf_status (bc_bufs s ! k))"
    using write_back_spec [OF ok v(2)] by metis
  have v1: "v < length (bc_bufs s1)" using v(2) s1(3) by (simp add: same_content_def)
  let ?s' = "s1\<lparr>bc_bufs := (bc_bufs s1)[v := (bc_bufs s1 ! v)\<lparr>buf_status := Unused\<rparr>]\<rparr>"
  note f = forget_spec [OF s1(2) v1 s1(4)]
  have run: "get_unused D s = Inr (v, ?s')"
    using None v(1) s1(1) v1 by (simp add: get_unused_def get_nth_def set_buf_def kdefs)
  have sub: "cached (bc_bufs s) j" if c: "cached (bc_bufs ?s') j" for j
  proof -
    obtain k where k: "k < length (bc_bufs s1)" "block_of (buf_status (bc_bufs ?s' ! k)) = Some j"
      using c by (auto simp: cached_def)
    then have "k \<noteq> v" using v1 by auto
    then show ?thesis using k s1(3,5) by (auto simp: cached_def same_content_def)
  qed
  show thesis
    by (rule that [OF run v(2) f(1) same_content_trans [OF s1(3) f(2)] _ sub]) (use v1 in auto)
qed

lemma cache_ok_lru:
  assumes "cache_ok s" "lru_list l (length (bc_bufs s)) xs"
  shows "cache_ok (s\<lparr>bc_lru := l\<rparr>)" "same_content s (s\<lparr>bc_lru := l\<rparr>)"
  using assms by (auto simp: cache_ok_def same_content_def cache_blk_def)

lemma get_buf_any_spec:
  assumes ok: "cache_ok s"
  obtains i s' where "get_buf_any D w s = Inr (i, s')" "i < length (bc_bufs s)" "cache_ok s'" "same_content s s'"
    "block_of (buf_status (bc_bufs s' ! i)) = Some (unat w) \<or>
     buf_status (bc_bufs s' ! i) = Unused \<and> \<not> cached (bc_bufs s') (unat w)"
proof (cases "find_index (\<lambda>b. holds w (buf_status b)) (bc_bufs s)")
  case (Some i)
  then have "get_buf_any D w s = Inr (i, s)" by (simp add: get_buf_any_def kdefs)
  with Some [unfolded find_index_Some] ok show thesis by (intro that [of i s]) (auto simp: holds_block_of)
next
  case None
  then have nc: "\<not> cached (bc_bufs s) (unat w)" by (auto simp: find_index_None cached_def holds_block_of)
  obtain i s' where u: "get_unused D s = Inr (i, s')" "i < length (bc_bufs s)" "cache_ok s'" "same_content s s'"
    "buf_status (bc_bufs s' ! i) = Unused" "\<And>j. cached (bc_bufs s') j \<Longrightarrow> cached (bc_bufs s) j"
    using get_unused_spec [OF ok] by metis
  show thesis
    by (rule that [of i s']) (use None u nc in \<open>auto simp: get_buf_any_def kdefs\<close>)
qed

lemma get_buf_spec:
  assumes ok: "cache_ok s"
  obtains i s' where "get_buf D w s = Inr (i, s')" "i < length (bc_bufs s')" "cache_ok s'" "same_content s s'"
    "block_of (buf_status (bc_bufs s' ! i)) = Some (unat w) \<or>
     buf_status (bc_bufs s' ! i) = Unused \<and> \<not> cached (bc_bufs s') (unat w)"
proof -
  obtain i s1 where g: "get_buf_any D w s = Inr (i, s1)" "i < length (bc_bufs s)" "cache_ok s1" "same_content s s1"
    "block_of (buf_status (bc_bufs s1 ! i)) = Some (unat w) \<or>
     buf_status (bc_bufs s1 ! i) = Unused \<and> \<not> cached (bc_bufs s1) (unat w)"
    using get_buf_any_spec [OF ok] by metis
  have i: "i < length (bc_bufs s1)" using g(2,4) by (simp add: same_content_def)
  obtain xs where xs: "lru_list (bc_lru s1) (length (bc_bufs s1)) xs" using g(3) by (auto simp: cache_ok_def)
  obtain l' where l': "LRU_visit i (bc_lru s1) = Inr l'" "lru_list l' (length (bc_bufs s1)) (if i = 0 then xs else i # remove1 i xs)"
    using lru_list_visit [OF xs i] .
  note c = cache_ok_lru [OF g(3) l'(2)]
  show thesis
    by (rule that [of i "s1\<lparr>bc_lru := l'\<rparr>"])
       (use g i l'(1) c same_content_trans [OF g(4) c(2)] in \<open>auto simp: get_buf_def kdefs\<close>)
qed

lemma cache_blk_length:
  assumes ok: "cache_ok s" and j: "j < n"
  shows "length (cache_blk s j) = bb"
proof (cases "cached (bc_bufs s) j")
  case True
  then obtain k where k: "k < length (bc_bufs s)" "block_of (buf_status (bc_bufs s ! k)) = Some j"
    by (auto simp: cached_def)
  have "bufs_unique (bc_bufs s)" using ok by (simp add: cache_ok_def)
  from cache_content_hit [OF this k] show ?thesis
    using cache_okD [OF ok k(1)] by (simp add: cache_blk_def buf_ok_def)
next
  case False
  then show ?thesis
    using blk_length [of "bc_device s" j] ok j by (simp add: cache_blk_def cache_content_miss cache_ok_def)
qed

lemma hit_data:
  assumes "cache_ok s" "i < length (bc_bufs s)" "block_of (buf_status (bc_bufs s ! i)) = Some j"
  shows "buf_data (bc_bufs s ! i) = cache_blk s j" "length (buf_data (bc_bufs s ! i)) = bb" "j < n"
  using assms cache_content_hit [of "bc_bufs s" i j] cache_okD [of s i]
  by (auto simp: cache_ok_def cache_blk_def buf_ok_def)

lemma cache_fill_spec:
  assumes "i < length (bc_bufs s)" "length (buf_data (bc_bufs s ! i)) = bb" "bb \<le> length buffer"
  shows "cache_fill D i buffer s = Inr ((True, overwrite 0 (buf_data (bc_bufs s ! i)) buffer), s)"
  using assms by (simp add: cache_fill_def get_nth_def copy_from_slice_def kdefs unat_ushl_1)

text \<open>Putting the block just read into an unused buffer.\<close>

lemma install_spec:
  assumes ok: "cache_ok s" and i: "i < length (bc_bufs s)" and un: "buf_status (bc_bufs s ! i) = Unused"
    and nc: "\<not> cached (bc_bufs s) (unat w)" and w: "unat w < n"
    and d': "inv d'" "\<forall>j<n. blk d' j = blk (bc_device s) j"
  defines "s' \<equiv> s\<lparr>bc_device := d', bc_bufs := (bc_bufs s)[i := \<lparr>buf_status = Valid w, buf_data = blk (bc_device s) (unat w)\<rparr>]\<rparr>"
  shows "cache_ok s'" "same_content s s'"
proof -
  let ?b = "\<lparr>buf_status = Valid w, buf_data = blk (bc_device s) (unat w)\<rparr>"
  have inv: "inv (bc_device s)" using ok by (simp add: cache_ok_def)
  have b: "buf_ok (blk d') ?b" using d' w blk_length [OF inv w] by (auto simp: buf_ok_def)
  have fresh: "block_of (buf_status (bc_bufs s ! k)) \<noteq> Some j"
    if "block_of (buf_status ?b) = Some j" "k < length (bc_bufs s)" for j k
    using nc that by (auto simp: cached_def)
  have disk: "blk d' j = blk (bc_device s) j" if "j < n" for j using d'(2) that by simp
  note up = update_one [OF ok i d'(1) disk b fresh, folded s'_def]
  show "cache_ok s'" by (rule up(1))
  have "cache_blk s (unat w) = blk (bc_device s) (unat w)"
    using nc by (simp add: cache_blk_def cache_content_miss)
  with up(2) un show "same_content s s'" by (auto simp: same_content_def s'_def)
qed

lemma cache_read_in:
  assumes ok: "cache_ok s" and w: "unat w < n" and buf: "bb \<le> length buffer"
  shows "\<exists>s'. cache_read_at D w buffer s = Inr ((True, overwrite 0 (cache_blk s (unat w)) buffer), s') \<and>
    cache_ok s' \<and> same_content s s'"
proof -
  obtain i s1 where g: "get_buf D w s = Inr (i, s1)" "i < length (bc_bufs s1)" "cache_ok s1" "same_content s s1"
    "block_of (buf_status (bc_bufs s1 ! i)) = Some (unat w) \<or>
     buf_status (bc_bufs s1 ! i) = Unused \<and> \<not> cached (bc_bufs s1) (unat w)"
    using get_buf_spec [OF ok] by metis
  have same: "cache_blk s1 (unat w) = cache_blk s (unat w)" using g(4) w by (simp add: same_content_def)
  show ?thesis
  proof (cases "buf_status (bc_bufs s1 ! i) = Unused")
    case False
    then have h: "block_of (buf_status (bc_bufs s1 ! i)) = Some (unat w)" using g(5) by blast
    note d = hit_data [OF g(3,2) h]
    have "cache_read_at D w buffer s = cache_fill D i buffer s1"
      using g(1,2) False by (simp add: cache_read_at_def get_nth_def kdefs)
    with cache_fill_spec [OF g(2) d(2) buf] d(1) same g(3,4) show ?thesis by auto
  next
    case True
    then have nc: "\<not> cached (bc_bufs s1) (unat w)" using g(5) by auto
    let ?b = "bc_bufs s1 ! i"
    have inv: "inv (bc_device s1)" using g(3) by (simp add: cache_ok_def)
    have len: "length (buf_data ?b) = bb" using cache_okD [OF g(3,2)] by (simp add: buf_ok_def)
    then have le: "bb \<le> length (buf_data ?b)" by simp
    obtain d' where d': "bd_read D w (buf_data ?b) (bc_device s1) =
        Inr ((True, overwrite 0 (blk (bc_device s1) (unat w)) (buf_data ?b)), d')"
      "inv d'" "\<forall>j<n. blk d' j = blk (bc_device s1) j"
      using read_in [OF inv w le] by auto
    have ow: "overwrite 0 (blk (bc_device s1) (unat w)) (buf_data ?b) = blk (bc_device s1) (unat w)"
      using blk_length [OF inv w] len by (intro overwrite_whole) simp
    let ?s2 = "s1\<lparr>bc_device := d', bc_bufs := (bc_bufs s1)[i := \<lparr>buf_status = Valid w, buf_data = blk (bc_device s1) (unat w)\<rparr>]\<rparr>"
    note ins = install_spec [OF g(3,2) True nc w d'(2,3)]
    have "cache_read_at D w buffer s = cache_fill D i buffer ?s2"
      using g(1,2) True d'(1) ow by (simp add: cache_read_at_def get_nth_def set_buf_def on_device_def kdefs)
    moreover have "cache_fill D i buffer ?s2 = Inr ((True, overwrite 0 (blk (bc_device s1) (unat w)) buffer), ?s2)"
      using cache_fill_spec [of i ?s2 buffer] g(2) blk_length [OF inv w] buf by simp
    moreover have "cache_blk s1 (unat w) = blk (bc_device s1) (unat w)"
      using nc by (simp add: cache_blk_def cache_content_miss)
    ultimately show ?thesis
      using same ins same_content_trans [OF g(4) ins(2)] by auto
  qed
qed

lemma cache_read_out:
  assumes ok: "cache_ok s" and w: "\<not> unat w < n"
  shows "\<exists>s'. cache_read_at D w buffer s = Inr ((False, buffer), s') \<and> cache_ok s' \<and> same_content s s'"
proof -
  obtain i s1 where g: "get_buf D w s = Inr (i, s1)" "i < length (bc_bufs s1)" "cache_ok s1" "same_content s s1"
    "block_of (buf_status (bc_bufs s1 ! i)) = Some (unat w) \<or>
     buf_status (bc_bufs s1 ! i) = Unused \<and> \<not> cached (bc_bufs s1) (unat w)"
    using get_buf_spec [OF ok] by metis
  have un: "buf_status (bc_bufs s1 ! i) = Unused" using g(5) w hit_data(3) [OF g(3,2)] by blast
  let ?b = "bc_bufs s1 ! i"
  have inv: "inv (bc_device s1)" using g(3) by (simp add: cache_ok_def)
  have bo: "buf_ok (blk (bc_device s1)) ?b" using cache_okD [OF g(3,2)] .
  then have le: "bb \<le> length (buf_data ?b)" by (simp add: buf_ok_def)
  obtain d' where d': "bd_read D w (buf_data ?b) (bc_device s1) = Inr ((False, buf_data ?b), d')"
    "inv d'" "\<forall>j<n. blk d' j = blk (bc_device s1) j"
    using read_out [OF inv w le] by auto
  have bo': "buf_ok (blk d') ?b" using bo un by (simp add: buf_ok_def)
  have disk: "blk d' j = blk (bc_device s1) j" if "j < n" for j using d'(3) that by simp
  have up: "cache_ok (s1\<lparr>bc_device := d', bc_bufs := (bc_bufs s1)[i := ?b]\<rparr>)"
    "cache_blk (s1\<lparr>bc_device := d', bc_bufs := (bc_bufs s1)[i := ?b]\<rparr>) j = cache_blk s1 j" if "j < n" for j
    using update_one [OF g(3,2) d'(2) disk bo'] un that by auto
  have "cache_ok (s1\<lparr>bc_device := d', bc_bufs := (bc_bufs s1)[i := ?b]\<rparr>)"
    using update_one(1) [OF g(3,2) d'(2) disk bo'] un by auto
  moreover have "same_content s1 (s1\<lparr>bc_device := d', bc_bufs := (bc_bufs s1)[i := ?b]\<rparr>)"
    using up(2) by (simp add: same_content_def)
  moreover have "cache_read_at D w buffer s = Inr ((False, buffer), s1\<lparr>bc_device := d', bc_bufs := (bc_bufs s1)[i := ?b]\<rparr>)"
    using g(1,2) un d'(1) by (simp add: cache_read_at_def get_nth_def set_buf_def on_device_def kdefs)
  ultimately show ?thesis using same_content_trans [OF g(4)] by blast
qed

lemma cache_write_in:
  assumes ok: "cache_ok s" and w: "unat w < n" and buf: "bb \<le> length buffer"
  shows "\<exists>s'. cache_write_at D w buffer s = Inr (True, s') \<and> cache_ok s' \<and>
    (\<forall>j<n. cache_blk s' j = (if j = unat w then take bb buffer else cache_blk s j))"
proof -
  obtain i s1 where g: "get_buf D w s = Inr (i, s1)" "i < length (bc_bufs s1)" "cache_ok s1" "same_content s s1"
    "block_of (buf_status (bc_bufs s1 ! i)) = Some (unat w) \<or>
     buf_status (bc_bufs s1 ! i) = Unused \<and> \<not> cached (bc_bufs s1) (unat w)"
    using get_buf_spec [OF ok] by metis
  let ?b = "\<lparr>buf_status = Dirty w, buf_data = take bb buffer\<rparr>"
  have inv: "inv (bc_device s1)" and u: "bufs_unique (bc_bufs s1)" using g(3) by (simp_all add: cache_ok_def)
  have len: "length (buf_data (bc_bufs s1 ! i)) = bb" using cache_okD [OF g(3,2)] by (simp add: buf_ok_def)
  have bo: "buf_ok (blk (bc_device s1)) ?b" using w buf by (simp add: buf_ok_def)
  have fresh: "block_of (buf_status (bc_bufs s1 ! k)) \<noteq> Some j"
    if "block_of (buf_status ?b) = Some j" "k < length (bc_bufs s1)" "k \<noteq> i" for j k
    using g(2,5) that u unfolding bufs_unique_def cached_def by fastforce
  let ?s' = "s1\<lparr>bc_device := bc_device s1, bc_bufs := (bc_bufs s1)[i := ?b]\<rparr>"
  have up: "cache_ok ?s'" "\<And>j. j < n \<Longrightarrow> cache_blk ?s' j =
       (if block_of (buf_status ?b) = Some j then buf_data ?b
        else if block_of (buf_status (bc_bufs s1 ! i)) = Some j then blk (bc_device s1) j
        else cache_blk s1 j)"
    using update_one [OF g(3,2) inv _ bo fresh] by auto
  have "cache_write_at D w buffer s = Inr (True, ?s')"
    using g(1,2) len buf
    by (simp add: cache_write_at_def get_nth_def set_buf_def checked_slice_def copy_from_slice_def kdefs
        unat_ushl_1 slice_def overwrite_whole)
  moreover have "cache_blk ?s' j = (if j = unat w then take bb buffer else cache_blk s j)" if j: "j < n" for j
    using up(2) [OF j] g(4,5) j by (auto simp: same_content_def)
  ultimately show ?thesis using up(1) by blast
qed

text \<open>After \<^verbatim>\<open>sync\<close> nothing is dirty any more.\<close>

definition all_clean :: "nat \<Rightarrow> 'a cache_state \<Rightarrow> bool" where
  "all_clean m s \<longleftrightarrow> (\<forall>k<m. \<forall>w. buf_status (bc_bufs s ! k) \<noteq> Dirty w)"

lemma write_back_all_spec:
  assumes "cache_ok s" "m \<le> length (bc_bufs s)" "all_clean k s" "k \<le> m"
  shows "\<exists>s'. write_back_all D [k..<m] s = Inr (True, s') \<and> cache_ok s' \<and> same_content s s' \<and> all_clean m s'"
  using assms
proof (induction "m - k" arbitrary: k s)
  case 0
  then show ?case by (simp add: kret_def)
next
  case (Suc d)
  then have km: "k < m" "k < length (bc_bufs s)" by linarith+
  obtain s1 where s1: "write_back D k s = Inr (True, s1)" "cache_ok s1" "same_content s s1"
    "\<And>w. buf_status (bc_bufs s1 ! k) \<noteq> Dirty w"
    "\<And>j. j < length (bc_bufs s) \<Longrightarrow> j \<noteq> k \<Longrightarrow> bc_bufs s1 ! j = bc_bufs s ! j"
    using write_back_spec [OF Suc.prems(1) km(2)] by metis
  have "all_clean (Suc k) s1"
    using s1(4,5) Suc.prems(3) km by (auto simp: all_clean_def less_Suc_eq)
  moreover have "m \<le> length (bc_bufs s1)" using s1(3) Suc.prems(2) by (simp add: same_content_def)
  moreover have "d = m - Suc k" using Suc.hyps(2) by simp
  ultimately obtain s2 where s2: "write_back_all D [Suc k..<m] s1 = Inr (True, s2)" "cache_ok s2"
    "same_content s1 s2" "all_clean m s2"
    using Suc.hyps(1) [of "Suc k" s1] Suc.hyps(2) s1(2) km by auto
  have "[k..<m] = k # [Suc k..<m]" using km by (simp add: upt_conv_Cons)
  with s1(1) s2 same_content_trans [OF s1(3) s2(3)] show ?case by (auto simp: kdefs)
qed

lemma cache_blk_clean:
  assumes ok: "cache_ok s" and cl: "all_clean (length (bc_bufs s)) s" and j: "j < n"
  shows "cache_blk s j = blk (bc_device s) j"
proof (cases "cached (bc_bufs s) j")
  case True
  then obtain k where k: "k < length (bc_bufs s)" "block_of (buf_status (bc_bufs s ! k)) = Some j"
    by (auto simp: cached_def)
  then obtain w where "buf_status (bc_bufs s ! k) = Valid w" "unat w = j"
    using cl by (cases "buf_status (bc_bufs s ! k)") (auto simp: all_clean_def)
  with cache_okD [OF ok k(1)] hit_data(1) [OF ok k] show ?thesis by (auto simp: buf_ok_def)
qed (simp add: cache_blk_def cache_content_miss)

lemma cache_sync_spec:
  assumes ok: "cache_ok s"
  shows "\<exists>s'. cache_sync D s = Inr (True, s') \<and> cache_ok s' \<and> same_content s s' \<and>
    (\<forall>j<n. blk (bc_device s') j = cache_blk s j)"
proof -
  obtain s1 where s1: "write_back_all D [0..<length (bc_bufs s)] s = Inr (True, s1)" "cache_ok s1"
    "same_content s s1" "all_clean (length (bc_bufs s)) s1"
    using write_back_all_spec [OF ok, of "length (bc_bufs s)" 0] by (auto simp: all_clean_def)
  have inv: "inv (bc_device s1)" using s1(2) by (simp add: cache_ok_def)
  obtain d' where d': "bd_sync D (bc_device s1) = Inr (True, d')" "inv d'" "\<forall>j<n. blk d' j = blk (bc_device s1) j"
    using sync_ok [OF inv] by blast
  let ?s' = "s1\<lparr>bc_device := d'\<rparr>"
  have run: "cache_sync D s = Inr (True, ?s')"
    using s1(1) d'(1) by (simp add: cache_sync_def on_device_def kdefs)
  have ok': "cache_ok ?s'"
    using s1(2) d' unfolding cache_ok_def by (auto simp: list_all_length buf_ok_def)
  have same: "same_content s1 ?s'"
    using d'(3) by (auto simp: same_content_def cache_blk_def intro!: cache_content_cong)
  have "blk d' j = cache_blk s j" if "j < n" for j
    using cache_blk_clean [OF s1(2) _ that] s1(3,4) d'(3) that by (simp add: same_content_def)
  with run ok' same_content_trans [OF s1(3) same] show ?thesis by auto
qed

end

sublocale cached_device \<subseteq> cache: block_device "block_cache D" cache_ok n cache_blk
proof unfold_locales
  fix s j assume "cache_ok s" "j < n"
  then show "length (cache_blk s j) = block_bytes (BLOCK_SIZE_LOG2 (block_cache D))"
    by (simp add: block_cache_def cache_blk_length)
next
  fix s and buf :: "u8 list" and w :: usize
  assume "cache_ok s" "unat w < n" "block_bytes (BLOCK_SIZE_LOG2 (block_cache D)) \<le> length buf"
  then show "\<exists>s'. bd_read (block_cache D) w buf s = Inr ((True, overwrite 0 (cache_blk s (unat w)) buf), s') \<and>
      cache_ok s' \<and> (\<forall>j<n. cache_blk s' j = cache_blk s j)"
    using cache_read_in [of s w buf] by (auto simp: block_cache_def same_content_def)
next
  fix s and buf :: "u8 list" and w :: usize
  assume "cache_ok s" "\<not> unat w < n"
  then show "\<exists>s'. bd_read (block_cache D) w buf s = Inr ((False, buf), s') \<and>
      cache_ok s' \<and> (\<forall>j<n. cache_blk s' j = cache_blk s j)"
    using cache_read_out [of s w buf] by (auto simp: block_cache_def same_content_def)
next
  fix s and buf :: "u8 list" and w :: usize
  assume "cache_ok s" "unat w < n" "block_bytes (BLOCK_SIZE_LOG2 (block_cache D)) \<le> length buf"
  then show "\<exists>s'. bd_write (block_cache D) w buf s = Inr (True, s') \<and> cache_ok s' \<and>
      (\<forall>j<n. cache_blk s' j =
        (if j = unat w then take (block_bytes (BLOCK_SIZE_LOG2 (block_cache D))) buf else cache_blk s j))"
    using cache_write_in [of s w buf] by (auto simp: block_cache_def)
next
  fix s assume "cache_ok s"
  then show "\<exists>s'. bd_sync (block_cache D) s = Inr (True, s') \<and> cache_ok s' \<and> (\<forall>j<n. cache_blk s' j = cache_blk s j)"
    using cache_sync_spec [of s] by (auto simp: block_cache_def same_content_def)
qed (use log2_small in \<open>simp add: block_cache_def\<close>)

context cached_device
begin

lemma cache_device: "block_device (block_cache D) cache_ok n cache_blk"
  by (rule cache.block_device_axioms)

end

interpretation c16: cached_device mem16 "\<lambda>s. length s = 16" 4 mem16_blk
  by unfold_locales

section \<open>The properties of the cache\<close>

text \<open>A new cache is well formed, has the content of the device, and holds no block.\<close>

lemma BlockCache_new_ok:
  assumes bd: "cached_device D I n blk" and s: "I d" "0 < capacity"
  shows "\<exists>s. BlockCache_new D d capacity = Inr s \<and> cached_device.cache_ok D I n blk s \<and>
    (\<forall>j. cached_device.cache_blk blk s j = blk d j)"
proof -
  obtain l where l: "LRU_new capacity = Inr l" using s(2) by (auto simp: LRU_new_def)
  let ?b = "\<lparr>buf_status = Unused, buf_data = replicate (unat (ushl 1 (BLOCK_SIZE_LOG2 D))) 0\<rparr>"
  let ?s = "\<lparr>bc_device = d, bc_bufs = replicate capacity ?b, bc_lru = l\<rparr>"
  have "cached_device.cache_ok D I n blk ?s"
    using s lru_list_new [OF l]
    by (auto simp: cached_device.cache_ok_def [OF bd] cached_device.buf_ok_def [OF bd] bufs_unique_def
        list_all_length unat_ushl_1)
  moreover have "\<not> cached (replicate capacity ?b) j" for j by (simp add: cached_def)
  then have "cached_device.cache_blk blk ?s j = blk d j" for j
    by (simp add: cached_device.cache_blk_def [OF bd] cache_content_miss)
  ultimately show ?thesis using l by (auto simp: BlockCache_new_def)
qed

text \<open>C20: The write-back cache is transparent.  In front of any block device that meets its contract,
  a new cache of any positive capacity runs every sequence of in-range block reads, writes and syncs
  without a failure, whatever evictions it causes; every read returns the block last written to that
  address (or the device's own), and dropping the cache leaves exactly the written blocks on the device.\<close>

theorem cache_transparent:
  assumes bd: "block_device D I n blk" and "I d" "0 < capacity"
    and ops: "list_all (op_ok n (block_bytes (BLOCK_SIZE_LOG2 D))) ops"
  shows "\<exists>s0 s1 s2. BlockCache_new D d capacity = Inr s0 \<and>
    run_ops (block_cache D) ops s0 = Inr (Some (fst (spec_ops (blk d) ops)), s1) \<and>
    cache_drop D s1 = Inr ((), s2) \<and> (\<forall>j<n. blk (bc_device s2) j = snd (spec_ops (blk d) ops) j)"
proof -
  have cd: "cached_device D I n blk" using bd by (rule cached_device.intro)
  obtain s0 where s0: "BlockCache_new D d capacity = Inr s0" "cached_device.cache_ok D I n blk s0"
    "\<forall>j. cached_device.cache_blk blk s0 j = blk d j"
    using BlockCache_new_ok [OF cd assms(2,3)] by blast
  obtain s1 where s1: "run_ops (block_cache D) ops s0 = Inr (Some (fst (spec_ops (blk d) ops)), s1)"
    "cached_device.cache_ok D I n blk s1" "\<forall>j<n. cached_device.cache_blk blk s1 j = snd (spec_ops (blk d) ops) j"
    using block_device.run_ops_spec [OF cached_device.cache_device [OF cd] s0(2), of "blk d" ops] s0(3) ops by (auto simp: block_cache_def)
  obtain s2 where "cache_sync D s1 = Inr (True, s2)" "\<forall>j<n. blk (bc_device s2) j = cached_device.cache_blk blk s1 j"
    using cached_device.cache_sync_spec [OF cd s1(2)] by blast
  with s0(1) s1 show ?thesis by (auto simp: cache_drop_def kdefs)
qed

theorem cache_transparent_witness:
  "\<exists>s0 s1 s2. BlockCache_new mem16 (replicate 16 7) 2 = Inr s0 \<and>
    run_ops (block_cache mem16)
      [OpWrite 0 [1, 2, 3, 4], OpWrite 1 [5, 6, 7, 8], OpWrite 2 [9, 9, 9, 9], OpRead 1, OpRead 3, OpRead 0] s0 =
      Inr (Some [[5, 6, 7, 8], [7, 7, 7, 7], [1, 2, 3, 4]], s1) \<and>
    cache_drop mem16 s1 = Inr ((), s2) \<and> mem16_blk (bc_device s2) 2 = [9, 9, 9, 9]"
proof -
  let ?ops = "[OpWrite 0 [1, 2, 3, 4], OpWrite 1 [5, 6, 7, 8], OpWrite 2 [9, 9, 9, 9], OpRead 1, OpRead 3, OpRead 0]"
  have "mem16_blk (replicate 16 7) 3 = [7, 7, 7, 7]"
    by (simp add: mem16_blk_def slice_def numeral_eq_Suc)
  then have sp: "fst (spec_ops (mem16_blk (replicate 16 7)) ?ops) = [[5, 6, 7, 8], [7, 7, 7, 7], [1, 2, 3, 4]]"
    "snd (spec_ops (mem16_blk (replicate 16 7)) ?ops) 2 = [9, 9, 9, 9]"
    by simp_all
  have ok: "list_all (op_ok 4 (block_bytes (BLOCK_SIZE_LOG2 mem16))) ?ops" by simp
  show ?thesis
    using cache_transparent [OF m16.block_device_axioms, of "replicate 16 7" 2, OF _ _ ok] sp by auto
qed

end
