(* ===== verification/Rust_String.thy ===== *)
theory Rust_String
  imports Prelude
begin

text \<open>
  The parts of Rust's strings the program uses.  A \<^verbatim>\<open>&str\<close> or \<^verbatim>\<open>String\<close> is the list of
  its Unicode scalar values; its bytes are their UTF-8 encoding, which is what lengths and slice
  indices count.
\<close>

type_synonym rchar = nat
type_synonym rstr = "rchar list"

definition scalar :: "rchar \<Rightarrow> bool" where
  "scalar c \<longleftrightarrow> c < 0xD800 \<or> 0xE000 \<le> c \<and> c < 0x110000"

abbreviation wf_str :: "rstr \<Rightarrow> bool" where
  "wf_str s \<equiv> list_all scalar s"

section \<open>UTF-8\<close>

definition len_utf8 :: "rchar \<Rightarrow> nat" where
  "len_utf8 c = (if c < 0x80 then 1 else if c < 0x800 then 2 else if c < 0x10000 then 3 else 4)"

definition utf8_char :: "rchar \<Rightarrow> u8 list" where
  "utf8_char c =
     map of_nat
       (if c < 0x80 then [c]
        else if c < 0x800 then [0xC0 + c div 64, 0x80 + c mod 64]
        else if c < 0x10000 then [0xE0 + c div 4096, 0x80 + c div 64 mod 64, 0x80 + c mod 64]
        else [0xF0 + c div 262144, 0x80 + c div 4096 mod 64, 0x80 + c div 64 mod 64, 0x80 + c mod 64])"

definition as_bytes :: "rstr \<Rightarrow> u8 list" where
  "as_bytes s = concat (map utf8_char s)"

definition str_len :: "rstr \<Rightarrow> nat" where
  "str_len s = length (as_bytes s)"

definition cont :: "nat \<Rightarrow> bool" where
  "cont b \<longleftrightarrow> 0x80 \<le> b \<and> b < 0xC0"

text \<open>\<^verbatim>\<open>str::from_utf8\<close>, over byte values: \<^term>\<open>None\<close> when the bytes are not valid UTF-8.\<close>

fun decode_utf8 :: "nat list \<Rightarrow> rstr option" where
  "decode_utf8 [] = Some []"
| "decode_utf8 (a # bs) =
     (if a < 0x80 then map_option ((#) a) (decode_utf8 bs)
      else if 0xC2 \<le> a \<and> a < 0xE0 then
        (case bs of
           b # r \<Rightarrow> (if cont b then map_option ((#) ((a - 0xC0) * 64 + (b - 0x80))) (decode_utf8 r) else None)
         | _ \<Rightarrow> None)
      else if 0xE0 \<le> a \<and> a < 0xF0 then
        (case bs of
           b # c # r \<Rightarrow>
             (let v = (a - 0xE0) * 4096 + (b - 0x80) * 64 + (c - 0x80)
              in if cont b \<and> cont c \<and> 0x800 \<le> v \<and> scalar v then map_option ((#) v) (decode_utf8 r) else None)
         | _ \<Rightarrow> None)
      else if 0xF0 \<le> a \<and> a < 0xF5 then
        (case bs of
           b # c # d # r \<Rightarrow>
             (let v = (a - 0xF0) * 262144 + (b - 0x80) * 4096 + (c - 0x80) * 64 + (d - 0x80)
              in if cont b \<and> cont c \<and> cont d \<and> 0x10000 \<le> v \<and> scalar v
                 then map_option ((#) v) (decode_utf8 r) else None)
         | _ \<Rightarrow> None)
      else None)"

definition from_utf8 :: "u8 list \<Rightarrow> rstr option" where
  "from_utf8 bs = decode_utf8 (map unat bs)"

lemma length_utf8_char: "length (utf8_char c) = len_utf8 c"
  by (simp add: utf8_char_def len_utf8_def)

lemma str_len_Cons [simp]: "str_len (c # s) = len_utf8 c + str_len s"
  by (simp add: str_len_def as_bytes_def length_utf8_char)

lemma str_len_Nil [simp]: "str_len [] = 0"
  by (simp add: str_len_def as_bytes_def)

lemma str_len_append [simp]: "str_len (s @ t) = str_len s + str_len t"
  by (simp add: str_len_def as_bytes_def)

lemma as_bytes_simps [simp]:
  "as_bytes [] = []" "as_bytes (c # s) = utf8_char c @ as_bytes s" "as_bytes (s @ t) = as_bytes s @ as_bytes t"
  by (simp_all add: as_bytes_def)

lemma unat_of_nat_u8: "n < 256 \<Longrightarrow> unat (of_nat n :: u8) = n"
  by (rule unat_of_nat_small) simp

lemma digits64: "c div 4096 mod 64 * 64 + c div 64 mod 64 + c div 262144 * 4096 = c div 64" for c :: nat
proof -
  have "c div 64 = c div 64 div 64 * 64 + c div 64 mod 64" by simp
  moreover have "c div 64 div 64 = c div 4096" by (simp add: div_mult2_eq [symmetric])
  moreover have "c div 4096 = c div 4096 div 64 * 64 + c div 4096 mod 64" by simp
  moreover have "c div 4096 div 64 = c div 262144" by (simp add: div_mult2_eq [symmetric])
  ultimately show ?thesis by linarith
qed

lemma decode_utf8_char:
  assumes "scalar c"
  shows "decode_utf8 (map unat (utf8_char c) @ r) = map_option ((#) c) (decode_utf8 r)"
proof -
  have c: "c < 0x110000" using assms by (auto simp: scalar_def)
  consider "c < 0x80" | "0x80 \<le> c" "c < 0x800" | "0x800 \<le> c" "c < 0x10000" | "0x10000 \<le> c" by linarith
  then show ?thesis
  proof cases
    case 1
    then show ?thesis by (simp add: utf8_char_def unat_of_nat_u8 del: of_nat_add)
  next
    case 2
    then have "c div 64 < 32" "2 \<le> c div 64" by auto
    then have "map unat (utf8_char c) = [0xC0 + c div 64, 0x80 + c mod 64]"
      using 2 by (simp add: utf8_char_def unat_of_nat_u8 del: of_nat_add)
    then show ?thesis using \<open>c div 64 < 32\<close> \<open>2 \<le> c div 64\<close> by (simp add: cont_def)
  next
    case 3
    have a: "c div 4096 < 16" using 3 by auto
    have u: "map unat (utf8_char c) = [0xE0 + c div 4096, 0x80 + c div 64 mod 64, 0x80 + c mod 64]"
      using 3 a by (simp add: utf8_char_def unat_of_nat_u8 del: of_nat_add)
    have "c div 262144 = 0" using 3 by simp
    moreover have "c div 4096 mod 64 = c div 4096" using a by simp
    ultimately have "c div 4096 * 64 + c div 64 mod 64 = c div 64" using digits64 [of c] by linarith
    then have v: "c div 4096 * 4096 + c div 64 mod 64 * 64 + c mod 64 = c"
      using div_mult_mod_eq [of c 64] by linarith
    show ?thesis unfolding u using a v assms 3 by (simp add: cont_def Let_def)
  next
    case 4
    have a: "c div 262144 < 5" using c by auto
    have u: "map unat (utf8_char c) =
        [0xF0 + c div 262144, 0x80 + c div 4096 mod 64, 0x80 + c div 64 mod 64, 0x80 + c mod 64]"
      using 4 a by (simp add: utf8_char_def unat_of_nat_u8 del: of_nat_add)
    have v: "c div 262144 * 262144 + c div 4096 mod 64 * 4096 + c div 64 mod 64 * 64 + c mod 64 = c"
      using digits64 [of c] div_mult_mod_eq [of c 64] by linarith
    show ?thesis unfolding u using a v assms 4 by (simp add: cont_def Let_def)
  qed
qed

text \<open>Decoding inverts encoding.\<close>

lemma from_utf8_as_bytes [simp]: "wf_str s \<Longrightarrow> from_utf8 (as_bytes s) = Some s"
  unfolding from_utf8_def by (induction s) (simp_all add: decode_utf8_char)

section \<open>UTF-16\<close>

definition utf16_char :: "rchar \<Rightarrow> nat list" where
  "utf16_char c = (if c < 0x10000 then [c] else [0xD800 + (c - 0x10000) div 1024, 0xDC00 + (c - 0x10000) mod 1024])"

definition encode_utf16 :: "rstr \<Rightarrow> nat list" where
  "encode_utf16 s = concat (map utf16_char s)"

section \<open>Slices and searches\<close>

text \<open>The characters before and after byte index \<^term>\<open>i\<close>; \<^term>\<open>None\<close> when it is not a boundary.\<close>

fun split_at_byte :: "nat \<Rightarrow> rstr \<Rightarrow> (rstr \<times> rstr) option" where
  "split_at_byte i [] = (if i = 0 then Some ([], []) else None)"
| "split_at_byte i (c # s) =
     (if i = 0 then Some ([], c # s)
      else if i < len_utf8 c then None
      else map_option (\<lambda>(a, b). (c # a, b)) (split_at_byte (i - len_utf8 c) s))"

lemma len_utf8_pos [simp]: "0 < len_utf8 c"
  by (simp add: len_utf8_def)

lemma split_at_byte_append: "split_at_byte (str_len s) (s @ t) = Some (s, t)"
proof (induction s)
  case Nil
  then show ?case by (cases t) simp_all
qed simp

definition is_ascii :: "rstr \<Rightarrow> bool" where
  "is_ascii s \<longleftrightarrow> list_all (\<lambda>c. c < 0x80) s"

definition is_ascii_uppercase :: "rchar \<Rightarrow> bool" where
  "is_ascii_uppercase c \<longleftrightarrow> 0x41 \<le> c \<and> c \<le> 0x5A"

definition ascii_upper :: "nat \<Rightarrow> nat" where
  "ascii_upper b = (if 0x61 \<le> b \<and> b \<le> 0x7A then b - 32 else b)"

definition ascii_lower :: "nat \<Rightarrow> nat" where
  "ascii_lower b = (if 0x41 \<le> b \<and> b \<le> 0x5A then b + 32 else b)"

definition eq_ignore_ascii_case :: "rstr \<Rightarrow> rstr \<Rightarrow> bool" where
  "eq_ignore_ascii_case s t \<longleftrightarrow> map ascii_lower s = map ascii_lower t"

lemma ascii_lower_upper [simp]: "ascii_lower (ascii_upper b) = ascii_lower b"
  by (auto simp: ascii_lower_def ascii_upper_def)

lemma str_len_ascii: "is_ascii s \<Longrightarrow> str_len s = length s"
  by (induction s) (auto simp: is_ascii_def len_utf8_def)

lemma as_bytes_ascii: "is_ascii s \<Longrightarrow> as_bytes s = map of_nat s"
  by (induction s) (auto simp: is_ascii_def utf8_char_def)

lemma ascii_scalar: "is_ascii s \<Longrightarrow> wf_str s"
  by (induction s) (auto simp: is_ascii_def scalar_def)

text \<open>String literals.\<close>

definition lit :: "string \<Rightarrow> rstr" where
  "lit s = map of_char s"

end
