(* ===== verification/Fat_Item.thy ===== *)
theory Fat_Item
  imports Rust_String
begin

text \<open>
  \<^verbatim>\<open>fat32/src/tool.rs\<close> and \<^verbatim>\<open>fat32/src/directory_item.rs\<close>: file names and the 32-byte
  directory entries of the FAT32 library, as the kernel builds it (512-byte sectors).

  The lemmas show that entries survive being written to a sector and read back, that a name created
  in the short format is found again, and that the long-name format carries every name of up to
  thirteen characters it can represent.
\<close>

section \<open>tool.rs\<close>

definition BUFFER_SIZE :: nat where
  "BUFFER_SIZE = 512"

datatype NameType = SFN | LFN

definition is_fat32 :: "u8 list \<Rightarrow> ('s, bool) kernel" where
  "is_fat32 value =
     kbind (checked_slice 0 5 value) (\<lambda>bs.
     kbind (kunwrap (from_utf8 bs)) (\<lambda>s. kret (s = lit ''FAT32'')))"

definition read_le_u16 :: "u8 list \<Rightarrow> ('s, u16) kernel" where
  "read_le_u16 input = kbind (checked_slice 0 2 input) (\<lambda>bs. kret (from_le_bytes bs))"

definition read_le_u32 :: "u8 list \<Rightarrow> ('s, u32) kernel" where
  "read_le_u32 input = kbind (checked_slice 0 4 input) (\<lambda>bs. kret (from_le_bytes bs))"

definition illegal_char :: rstr where
  "illegal_char = [0x5C, 0x2F, 0x3A, 0x2A, 0x3F, 0x22, 0x3C, 0x3E, 0x7C]"

fun is_illegal_loop :: "rstr \<Rightarrow> rstr \<Rightarrow> bool" where
  "is_illegal_loop [] chs = False"
| "is_illegal_loop (ch # rest) chs = (if ch \<in> set chs then True else is_illegal_loop rest chs)"

definition is_illegal :: "rstr \<Rightarrow> bool" where
  "is_illegal chs = is_illegal_loop illegal_char chs"

text \<open>The name before the first dot and the extension after it.\<close>

definition dot :: rchar where
  "dot = 0x2E"

definition split_dot :: "rstr \<Rightarrow> rstr \<times> rstr" where
  "split_dot value =
     (case find_index (\<lambda>c. c = dot) value of
        Some i \<Rightarrow> (take i value, drop (i + 1) value)
      | None \<Rightarrow> (value, []))"

definition sfn_or_lfn :: "rstr \<Rightarrow> NameType" where
  "sfn_or_lfn value =
     (let (name, extension) = split_dot value
      in if is_ascii value \<and> \<not> list_ex is_ascii_uppercase value \<and> 0x20 \<notin> set value \<and>
            dot \<notin> set name \<and> dot \<notin> set extension \<and> str_len name \<le> 8 \<and> str_len extension \<le> 3
         then SFN else LFN)"

definition get_count_of_lfn :: "rstr \<Rightarrow> nat" where
  "get_count_of_lfn value =
     (let num_char = length value
      in if num_char mod 13 = 0 then num_char div 13 else num_char div 13 + 1)"

text \<open>With \<^verbatim>\<open>count = 0\<close> the end wraps around to a number no index reaches past.\<close>

definition get_lfn_index :: "rstr \<Rightarrow> nat \<Rightarrow> nat" where
  "get_lfn_index value_str cnt =
     (let e = (if cnt = 0 then length value_str else 13 * (cnt - 1))
      in fold (\<lambda>(index, ch) len. if index < e then len + len_utf8 ch else len) (enumerate 0 value_str) 0)"

definition generate_checksum :: "u8 list \<Rightarrow> u8" where
  "generate_checksum value =
     ucast (fold (\<lambda>i checksum. ((if checksum AND 1 = 1 then 0x80 else 0) + drop_bit 1 checksum + ucast i) AND 0xFF)
       value (0 :: u32))"

definition get_needed_sector :: "nat \<Rightarrow> nat" where
  "get_needed_sector value =
     (if value mod BUFFER_SIZE \<noteq> 0 then value div BUFFER_SIZE + 1 else value div BUFFER_SIZE)"

section \<open>Entry types\<close>

datatype OpType = OpDir | OpFile

datatype ItemType = ItDir | ItFile | ItLFN | ItDeleted

definition ItemType_from_value :: "u8 \<Rightarrow> ItemType" where
  "ItemType_from_value value =
     (if value AND 0x10 = 0x10 then ItDir else if value = 0x0F then ItLFN else ItFile)"

fun ItemType_from_create :: "OpType \<Rightarrow> ItemType" where
  "ItemType_from_create OpDir = ItDir"
| "ItemType_from_create OpFile = ItFile"

definition ItemType_default :: ItemType where
  "ItemType_default = ItDir"

section \<open>Short entries\<close>

record ShortDirectoryItem =
  si_name :: "u8 list"
  si_extension :: "u8 list"
  si_length :: u32
  si_cluster :: u32

definition Short_from_buf :: "u8 list \<Rightarrow> ('s, ShortDirectoryItem) kernel" where
  "Short_from_buf buf =
     kthen (kcheck OutOfBounds (0x20 \<le> length buf))
       (kbind (read_le_u32 (slice 0x1C 0x20 buf)) (\<lambda>len.
        kret \<lparr>si_name = slice 0x00 0x08 buf, si_extension = slice 0x08 0x0B buf, si_length = len,
          si_cluster = push_bit 24 (ucast (buf ! 0x15)) OR push_bit 16 (ucast (buf ! 0x14)) OR
            push_bit 8 (ucast (buf ! 0x1B)) OR ucast (buf ! 0x1A)\<rparr>))"

text \<open>The cluster number goes to two separate places; \<^verbatim>\<open>to_be_bytes\<close> then \<^verbatim>\<open>reverse\<close> is little endian.\<close>

definition put_cluster :: "u32 \<Rightarrow> u8 list \<Rightarrow> u8 list" where
  "put_cluster cluster item =
     (let c = to_le_bytes 4 cluster
      in overwrite 0x1A (slice 0 2 c) (overwrite 0x14 (slice 2 4 c) item))"

definition put_create_type :: "OpType \<Rightarrow> u8 list \<Rightarrow> u8 list" where
  "put_create_type create_type item =
     (case create_type of OpDir \<Rightarrow> item[0x0B := 0x10] | OpFile \<Rightarrow> item[0x10 := 0x20])"

definition uppercase_part :: "nat \<Rightarrow> nat \<Rightarrow> u8 list \<Rightarrow> u8 list" where
  "uppercase_part i j item = overwrite i (map (\<lambda>b. of_nat (ascii_upper (unat b))) (slice i j item)) item"

definition Short_new :: "u32 \<Rightarrow> rstr \<Rightarrow> OpType \<Rightarrow> ('s, ShortDirectoryItem) kernel" where
  "Short_new cluster value create_type =
     (let (name, extension) = split_dot value;
          item = overwrite 0 (replicate 11 0x20) (replicate 32 0)
      in kbind (copy_from_slice 0x00 (str_len name) (as_bytes name) item) (\<lambda>item.
         kbind (copy_from_slice 0x08 (0x08 + str_len extension) (as_bytes extension) item) (\<lambda>item.
         let item = uppercase_part 0x00 (str_len name) item;
             item = uppercase_part 0x08 (0x08 + str_len extension) item
         in Short_from_buf (put_create_type create_type (put_cluster cluster item)))))"

definition Short_new_bytes :: "u32 \<Rightarrow> u8 list \<Rightarrow> OpType \<Rightarrow> ('s, ShortDirectoryItem) kernel" where
  "Short_new_bytes cluster value create_type =
     kbind (copy_from_slice 0x00 0x0B value (replicate 32 0)) (\<lambda>item.
       Short_from_buf (put_create_type create_type (put_cluster cluster item)))"

definition Short_default :: ShortDirectoryItem where
  "Short_default = \<lparr>si_name = replicate 8 0, si_extension = replicate 3 0, si_length = 0, si_cluster = 0\<rparr>"

definition Short_root_dir :: "u32 \<Rightarrow> ShortDirectoryItem" where
  "Short_root_dir cluster = Short_default\<lparr>si_cluster := cluster\<rparr>"

definition push_byte :: "u8 \<Rightarrow> u8 list \<times> nat \<Rightarrow> u8 list \<times> nat" where
  "push_byte b = (\<lambda>(full_name, len). (full_name[len := b], len + 1))"

definition get_full_name_bytes :: "ShortDirectoryItem \<Rightarrow> u8 list \<times> nat" where
  "get_full_name_bytes it =
     (let acc = fold (\<lambda>i acc. if i \<noteq> 0x20 then push_byte i acc else acc) (si_name it) (replicate 12 0, 0);
          acc = (if si_extension it ! 0 \<noteq> 0x20 then push_byte 0x2E acc else acc)
      in fold (\<lambda>i acc. if i \<noteq> 0x20 then push_byte i acc else acc) (si_extension it) acc)"

definition Short_bytes :: "ShortDirectoryItem \<Rightarrow> ItemType \<Rightarrow> u8 list" where
  "Short_bytes it item_type =
     (let item = overwrite 0x00 (si_name it) (replicate 32 0);
          item = overwrite 0x08 (si_extension it) item;
          item = put_cluster (si_cluster it) item;
          item = item[0x0C := 0x18];
          item = overwrite 0x1C (to_le_bytes 4 (si_length it)) item
      in case item_type of
           ItDir \<Rightarrow> item[0x0B := 0x10]
         | ItFile \<Rightarrow> item[0x0B := 0x20]
         | ItLFN \<Rightarrow> item[0x0B := 0x0F]
         | ItDeleted \<Rightarrow> item[0x00 := 0xE5])"

section \<open>Long-name entries\<close>

record LongDirectoryItem =
  li_attribute :: u8
  li_check_sum :: u8
  li_unicode_part1 :: "u8 list"
  li_unicode_part2 :: "u8 list"
  li_unicode_part3 :: "u8 list"

text \<open>Each code unit takes two cells of the 26-cell \<^verbatim>\<open>temp\<close>; one too many is out of bounds.\<close>

fun put_units :: "nat list \<Rightarrow> nat \<Rightarrow> u8 list \<Rightarrow> ('s, nat \<times> u8 list) kernel" where
  "put_units [] index temp = kret (index, temp)"
| "put_units (u # us) index temp =
     kthen (kcheck OutOfBounds (index + 1 < length temp))
       (put_units us (index + 2) (temp[index := of_nat (u mod 256), index + 1 := of_nat (u div 256)]))"

definition write_unicode :: "rstr \<Rightarrow> u8 list \<Rightarrow> ('s, u8 list) kernel" where
  "write_unicode value buf =
     kbind (put_units (encode_utf16 value) 0 (replicate 26 0xFF)) (\<lambda>(index, temp).
       let temp = (if index \<noteq> 26 then temp[index := 0, index + 1 := 0] else temp)
       in kthen (kcheck OutOfBounds (0x20 \<le> length buf))
            (kret (overwrite 0x1C (slice 22 26 temp)
              (overwrite 0x0E (slice 10 22 temp) (overwrite 0x01 (slice 0 10 temp) buf)))))"

definition Long_from_buf :: "u8 list \<Rightarrow> ('s, LongDirectoryItem) kernel" where
  "Long_from_buf buf =
     kthen (kcheck OutOfBounds (0x20 \<le> length buf))
       (kret \<lparr>li_attribute = buf ! 0x00, li_check_sum = buf ! 0x0D,
          li_unicode_part1 = slice 0x01 0x0B buf, li_unicode_part2 = slice 0x0E 0x1A buf,
          li_unicode_part3 = slice 0x1C 0x20 buf\<rparr>)"

definition Long_new :: "u8 \<Rightarrow> u8 \<Rightarrow> rstr \<Rightarrow> ('s, LongDirectoryItem) kernel" where
  "Long_new attribute check_sum value =
     kbind (write_unicode value ((replicate 32 0)[0x00 := attribute, 0x0D := check_sum])) Long_from_buf"

text \<open>The bytes one code unit contributes; \<^verbatim>\<open>part1\<close> to \<^verbatim>\<open>part3\<close> of the source.\<close>

definition unit_utf8 :: "u16 \<Rightarrow> u8 list" where
  "unit_utf8 unicode =
     (if unicode \<le> 0x007F then [ucast unicode]
      else if 0x0080 \<le> unicode \<and> unicode \<le> 0x07FF then
        [ucast (0xC0 OR (0x1F AND drop_bit 6 unicode)), ucast (0x80 OR (0x3F AND unicode))]
      else [ucast (0xE0 OR (0x1F AND drop_bit 12 unicode)), ucast (0x80 OR (0x3F AND drop_bit 6 unicode)),
            ucast (0x80 OR (0x3F AND unicode))])"

text \<open>One part: pairs of bytes up to a terminator or a padding byte.\<close>

fun part_utf8 :: "u8 list \<Rightarrow> u8 list" where
  "part_utf8 (lo # hi # rest) =
     (if lo = 0x00 \<and> hi = 0x00 \<or> lo = 0xFF then []
      else unit_utf8 (push_bit 8 (ucast hi) OR ucast lo) @ part_utf8 rest)"
| "part_utf8 _ = []"

definition to_utf8 :: "LongDirectoryItem \<Rightarrow> u8 list \<times> nat" where
  "to_utf8 it =
     (let out = part_utf8 (li_unicode_part1 it) @ part_utf8 (li_unicode_part2 it) @ part_utf8 (li_unicode_part3 it)
      in (out @ replicate (39 - length out) 0, length out))"

definition Long_count_of_name :: "LongDirectoryItem \<Rightarrow> nat" where
  "Long_count_of_name it = unat (li_attribute it AND 0x1F)"

definition Long_is_name_end :: "LongDirectoryItem \<Rightarrow> bool" where
  "Long_is_name_end it \<longleftrightarrow> li_attribute it AND 0x40 = 0x40"

definition Long_bytes :: "LongDirectoryItem \<Rightarrow> u8 list" where
  "Long_bytes it =
     (let buf = (replicate 32 0)[0x00 := li_attribute it, 0x0B := 0x0F, 0x0D := li_check_sum it]
      in overwrite 0x1C (li_unicode_part3 it)
           (overwrite 0x0E (li_unicode_part2 it) (overwrite 0x01 (li_unicode_part1 it) buf)))"

section \<open>Directory entries\<close>

record DirectoryItem =
  di_item_type :: ItemType
  di_sfn :: "ShortDirectoryItem option"
  di_lfn :: "LongDirectoryItem option"

definition di_cluster :: "DirectoryItem \<Rightarrow> ('s, u32) kernel" where
  "di_cluster di = kbind (kunwrap (di_sfn di)) (\<lambda>s. kret (si_cluster s))"

definition get_sfn :: "DirectoryItem \<Rightarrow> (u8 list \<times> nat) option" where
  "get_sfn di = map_option get_full_name_bytes (di_sfn di)"

definition get_lfn :: "DirectoryItem \<Rightarrow> (u8 list \<times> nat) option" where
  "get_lfn di = map_option to_utf8 (di_lfn di)"

definition di_count_of_name :: "DirectoryItem \<Rightarrow> nat option" where
  "di_count_of_name di = map_option Long_count_of_name (di_lfn di)"

definition di_is_name_end :: "DirectoryItem \<Rightarrow> bool option" where
  "di_is_name_end di = map_option Long_is_name_end (di_lfn di)"

definition di_length :: "DirectoryItem \<Rightarrow> nat option" where
  "di_length di = map_option (\<lambda>s. unat (si_length s)) (di_sfn di)"

definition di_bytes :: "DirectoryItem \<Rightarrow> ('s, u8 list) kernel" where
  "di_bytes di =
     (case di_sfn di of
        Some s \<Rightarrow> kret (Short_bytes s (di_item_type di))
      | None \<Rightarrow> kbind (kunwrap (di_lfn di)) (\<lambda>l. kret (Long_bytes l)))"

definition new_lfn :: "u8 \<Rightarrow> u8 \<Rightarrow> rstr \<Rightarrow> ('s, DirectoryItem) kernel" where
  "new_lfn attribute check_sum value =
     kbind (Long_new attribute check_sum value) (\<lambda>l.
       kret \<lparr>di_item_type = ItLFN, di_sfn = None, di_lfn = Some l\<rparr>)"

definition new_sfn :: "u32 \<Rightarrow> rstr \<Rightarrow> OpType \<Rightarrow> ('s, DirectoryItem) kernel" where
  "new_sfn cluster value create_type =
     kbind (Short_new cluster value create_type) (\<lambda>s.
       kret \<lparr>di_item_type = ItemType_from_create create_type, di_sfn = Some s, di_lfn = None\<rparr>)"

definition new_sfn_bytes :: "u32 \<Rightarrow> u8 list \<Rightarrow> OpType \<Rightarrow> ('s, DirectoryItem) kernel" where
  "new_sfn_bytes cluster value create_type =
     kbind (Short_new_bytes cluster value create_type) (\<lambda>s.
       kret \<lparr>di_item_type = ItemType_from_create create_type, di_sfn = Some s, di_lfn = None\<rparr>)"

definition di_root_dir :: "u32 \<Rightarrow> DirectoryItem" where
  "di_root_dir cluster =
     \<lparr>di_item_type = ItemType_default, di_sfn = Some (Short_root_dir cluster), di_lfn = None\<rparr>"

definition di_from_buf :: "u8 list \<Rightarrow> ('s, DirectoryItem) kernel" where
  "di_from_buf buf =
     kbind (kindex buf 0x00) (\<lambda>b0. kbind (kindex buf 0x0B) (\<lambda>b11.
       let item_type = (if b0 = 0xE5 then ItDeleted else ItemType_from_value b11)
       in if item_type = ItLFN then
            kbind (Long_from_buf buf) (\<lambda>l. kret \<lparr>di_item_type = item_type, di_sfn = None, di_lfn = Some l\<rparr>)
          else
            kbind (Short_from_buf buf) (\<lambda>s. kret \<lparr>di_item_type = item_type, di_sfn = Some s, di_lfn = None\<rparr>)))"

definition is_lfn :: "DirectoryItem \<Rightarrow> bool" where
  "is_lfn di \<longleftrightarrow> ItLFN = di_item_type di"

definition is_deleted :: "DirectoryItem \<Rightarrow> bool" where
  "is_deleted di \<longleftrightarrow> ItDeleted = di_item_type di"

definition is_dir :: "DirectoryItem \<Rightarrow> bool" where
  "is_dir di \<longleftrightarrow> ItDir = di_item_type di"

definition is_file :: "DirectoryItem \<Rightarrow> bool" where
  "is_file di \<longleftrightarrow> ItFile = di_item_type di"

text \<open>Comparing a decoded name; bytes that are not UTF-8 compare unequal.\<close>

definition name_equal :: "u8 list \<times> nat \<Rightarrow> rstr \<Rightarrow> bool" where
  "name_equal = (\<lambda>(bytes, len) value.
     case from_utf8 (slice 0 len bytes) of
       Some res \<Rightarrow> eq_ignore_ascii_case value res
     | None \<Rightarrow> False)"

definition sfn_equal :: "DirectoryItem \<Rightarrow> rstr \<Rightarrow> bool" where
  "sfn_equal di value =
     (if is_deleted di then False
      else case get_sfn di of None \<Rightarrow> False | Some n \<Rightarrow> name_equal n value)"

definition lfn_equal :: "DirectoryItem \<Rightarrow> rstr \<Rightarrow> bool" where
  "lfn_equal di value =
     (if is_deleted di then False
      else case get_lfn di of None \<Rightarrow> False | Some n \<Rightarrow> name_equal n value)"

definition set_file_length :: "nat \<Rightarrow> DirectoryItem \<Rightarrow> ('s, DirectoryItem) kernel" where
  "set_file_length len di =
     kbind (kunwrap (di_sfn di)) (\<lambda>s. kret (di\<lparr>di_sfn := Some (s\<lparr>si_length := of_nat len\<rparr>)\<rparr>))"

section \<open>Slices of assembled entries\<close>

lemmas entry_simps = slice_overwrite_same slice_overwrite_other slice_update_other length_overwrite nth_overwrite
  nth_slice nth_list_update

lemma cluster_bytes:
  "(push_bit 24 (ucast (c ! 3)) OR push_bit 16 (ucast (c ! 2)) OR push_bit 8 (ucast (c ! 1)) OR ucast (c ! 0) :: u32) = w"
  if "c = to_le_bytes 4 w" for c and w :: u32
proof -
  have "c = [c ! 0, c ! 1, c ! 2, c ! 3]"
    by (rule nth_equalityI) (auto simp: that less_Suc_eq numeral_eq_Suc)
  then have "from_le_bytes [c ! 0, c ! 1, c ! 2, c ! 3] = w"
    using from_to_le_bytes [of 4 w] that by simp
  then show ?thesis by (simp add: push_bit_or ac_simps)
qed

section \<open>Entries survive the disk\<close>

definition wf_short :: "ShortDirectoryItem \<Rightarrow> bool" where
  "wf_short s \<longleftrightarrow> length (si_name s) = 8 \<and> length (si_extension s) = 3"

definition wf_long :: "LongDirectoryItem \<Rightarrow> bool" where
  "wf_long l \<longleftrightarrow> length (li_unicode_part1 l) = 10 \<and> length (li_unicode_part2 l) = 12 \<and>
     length (li_unicode_part3 l) = 4"

text \<open>The items a directory holds: a short entry of a file or directory, or a piece of a long name.\<close>

fun wf_item :: "DirectoryItem \<Rightarrow> bool" where
  "wf_item di =
     (case (di_sfn di, di_lfn di) of
        (Some s, None) \<Rightarrow> wf_short s \<and> si_name s ! 0 \<noteq> 0xE5 \<and> (di_item_type di = ItDir \<or> di_item_type di = ItFile)
      | (None, Some l) \<Rightarrow> wf_long l \<and> li_attribute l \<noteq> 0xE5 \<and> di_item_type di = ItLFN
      | _ \<Rightarrow> False)"

lemma length_put_cluster [simp]: "length item = 32 \<Longrightarrow> length (put_cluster c item) = 32"
  by (simp add: put_cluster_def Let_def length_overwrite)

lemma length_Short_bytes: "wf_short s \<Longrightarrow> length (Short_bytes s t) = 32"
  by (cases t) (simp_all add: Short_bytes_def Let_def wf_short_def length_overwrite)

lemma read_le_u32_bytes: "read_le_u32 (to_le_bytes 4 w) = kret w"
  by (simp add: read_le_u32_def checked_slice_def kcheck_def kthen_def slice_def from_to_le_bytes)

lemma Short_from_bytes:
  assumes "wf_short s" "t \<noteq> ItDeleted"
  shows "Short_from_buf (Short_bytes s t) = kret s"
proof -
  let ?b = "Short_bytes s t"
  have len: "length ?b = 32" using assms by (simp add: length_Short_bytes)
  have n: "slice 0x00 0x08 ?b = si_name s" "slice 0x08 0x0B ?b = si_extension s"
    "slice 0x1C 0x20 ?b = to_le_bytes 4 (si_length s)"
    using assms by (cases t; simp add: Short_bytes_def Let_def wf_short_def put_cluster_def entry_simps)+
  have c: "?b ! 0x15 = to_le_bytes 4 (si_cluster s) ! 3" "?b ! 0x14 = to_le_bytes 4 (si_cluster s) ! 2"
    "?b ! 0x1B = to_le_bytes 4 (si_cluster s) ! 1" "?b ! 0x1A = to_le_bytes 4 (si_cluster s) ! 0"
    using assms by (cases t; simp add: Short_bytes_def Let_def wf_short_def put_cluster_def entry_simps)+
  show ?thesis
    by (simp only: read_le_u32_bytes Short_from_buf_def n c cluster_bytes [OF refl] len kcheck_def kthen_def kbind_kret if_True le_refl)
       (cases s, simp)
qed

lemma length_Long_bytes: "wf_long l \<Longrightarrow> length (Long_bytes l) = 32"
  by (simp add: Long_bytes_def Let_def wf_long_def length_overwrite)

lemma Long_from_bytes: "wf_long l \<Longrightarrow> Long_from_buf (Long_bytes l) = kret l"
  by (cases l) (simp add: Long_from_buf_def Long_bytes_def Let_def wf_long_def entry_simps kcheck_def kthen_def)

lemma type_bytes:
  assumes "wf_short s" "si_name s ! 0 \<noteq> 0xE5" "t = ItDir \<or> t = ItFile"
  shows "Short_bytes s t ! 0x00 \<noteq> 0xE5" "ItemType_from_value (Short_bytes s t ! 0x0B) = t"
  using assms
  by (auto simp: Short_bytes_def Let_def wf_short_def put_cluster_def entry_simps ItemType_from_value_def)

lemma di_from_short_bytes:
  assumes "wf_short x" "si_name x ! 0 \<noteq> 0xE5" "t = ItDir \<or> t = ItFile"
  shows "di_from_buf (Short_bytes x t) = kret \<lparr>di_item_type = t, di_sfn = Some x, di_lfn = None\<rparr>"
proof -
  have len: "length (Short_bytes x t) = 32" using assms(1) by (rule length_Short_bytes)
  have "t \<noteq> ItDeleted" "t \<noteq> ItLFN" using assms(3) by auto
  then show ?thesis using len type_bytes [OF assms]
    by (simp add: di_from_buf_def kindex_def Short_from_bytes [OF assms(1)] split: ItemType.split)
qed

text \<open>C26: A directory entry survives the disk: encoding any well-formed entry (short entry of a file
  or directory, or a piece of a long name) gives 32 bytes, and decoding them gives the entry back,
  cluster number split over two fields included.\<close>

theorem entry_roundtrip:
  assumes "wf_item di"
  shows "\<exists>bs. di_bytes di s = Inr (bs, s) \<and> length bs = 32 \<and> di_from_buf bs s' = Inr (di, s')"
proof (cases "di_sfn di")
  case None
  then obtain l where l: "di_lfn di = Some l" "wf_long l" "li_attribute l \<noteq> 0xE5" "di_item_type di = ItLFN"
    using assms by (auto split: option.splits)
  have len: "length (Long_bytes l) = 32" using l(2) by (rule length_Long_bytes)
  have "Long_bytes l ! 0 = li_attribute l" "Long_bytes l ! 0x0B = 0x0F"
    using l(2) by (simp_all add: Long_bytes_def Let_def wf_long_def entry_simps)
  then have "di_from_buf (Long_bytes l) s' = Inr (di, s')"
    using len l None
    by (simp add: di_from_buf_def Long_from_bytes ItemType_from_value_def kindex_def) (cases di, simp add: kret_def)
  with len None l(1) show ?thesis by (simp add: di_bytes_def kret_def)
next
  case (Some x)
  then have x: "di_lfn di = None" "wf_short x" "si_name x ! 0 \<noteq> 0xE5" "di_item_type di = ItDir \<or> di_item_type di = ItFile"
    using assms by (auto split: option.splits)
  let ?b = "Short_bytes x (di_item_type di)"
  have len: "length ?b = 32" using x(2) by (rule length_Short_bytes)
  have "di_from_buf ?b s' = Inr (di, s')"
    unfolding di_from_short_bytes [OF x(2-4)] using x(1) Some by (cases di) (simp add: kret_def)
  with len Some show ?thesis by (simp add: di_bytes_def kret_def)
qed

theorem entry_roundtrip_witness:
  "\<exists>bs. di_bytes \<lparr>di_item_type = ItFile,
      di_sfn = Some \<lparr>si_name = [0x41, 0x42, 0x20, 0x20, 0x20, 0x20, 0x20, 0x20], si_extension = [0x43, 0x20, 0x20],
        si_length = 700, si_cluster = 0x12345\<rparr>, di_lfn = None\<rparr> () = Inr (bs, ()) \<and> length bs = 32 \<and>
    di_from_buf bs () = Inr (\<lparr>di_item_type = ItFile,
      di_sfn = Some \<lparr>si_name = [0x41, 0x42, 0x20, 0x20, 0x20, 0x20, 0x20, 0x20], si_extension = [0x43, 0x20, 0x20],
        si_length = 700, si_cluster = 0x12345\<rparr>, di_lfn = None\<rparr>, ())"
  by (rule entry_roundtrip) (simp add: wf_short_def)

section \<open>Short names\<close>

lemma push_bytes:
  assumes "len + length (filter P xs) \<le> length acc"
  shows "fold (\<lambda>i acc. if P i then push_byte i acc else acc) xs (acc, len) =
    (overwrite len (filter P xs) acc, len + length (filter P xs))"
  using assms
proof (induction xs arbitrary: acc len)
  case (Cons x xs)
  show ?case
  proof (cases "P x")
    case True
    then have "acc[len := x] = overwrite len [x] acc"
      using Cons.prems by (simp add: overwrite_def upd_conv_take_nth_drop)
    moreover have "overwrite (len + length [x]) (filter P xs) (overwrite len [x] acc) =
        overwrite len ([x] @ filter P xs) acc"
      using True Cons.prems by (simp add: overwrite_def min_def add.commute)
    ultimately show ?thesis
      using True Cons.prems Cons.IH [of "len + 1" "acc[len := x]"] length_overwrite [of len "[x]" acc]
      by (simp add: push_byte_def)
  next
    case False
    with Cons show ?thesis by simp
  qed
qed (simp add: overwrite_def)

lemma full_name:
  assumes "wf_short it"
  defines "n \<equiv> filter (\<lambda>b. b \<noteq> 0x20) (si_name it)"
  defines "e \<equiv> filter (\<lambda>b. b \<noteq> 0x20) (si_extension it)"
  shows "get_full_name_bytes it =
    (let out = n @ (if si_extension it ! 0 \<noteq> 0x20 then [0x2E] else []) @ e
     in (out @ drop (length out) (replicate 12 0), length out))"
proof -
  have ln: "length n \<le> 8" and le: "length e \<le> 3"
    using assms by (auto simp: wf_short_def n_def e_def intro: order_trans [OF length_filter_le])
  let ?a = "overwrite 0 n (replicate 12 0)"
  have f1: "fold (\<lambda>i acc. if i \<noteq> 0x20 then push_byte i acc else acc) (si_name it) (replicate 12 0, 0) = (?a, length n)"
    using push_bytes [of 0 "\<lambda>b. b \<noteq> 0x20" "si_name it" "replicate 12 0"] ln by (simp add: n_def)
  have la: "length ?a = 12" using ln by (simp add: length_overwrite)
  define m where "m = (if si_extension it ! 0 \<noteq> 0x20 then n @ [0x2E] else n)"
  have f2: "(if si_extension it ! 0 \<noteq> 0x20 then push_byte 0x2E (?a, length n) else (?a, length n)) =
      (overwrite 0 m (replicate 12 0), length m)"
    using ln by (auto simp: m_def push_byte_def overwrite_def upd_conv_take_nth_drop list_update_append split: nat.splits)
  have lm: "length m + length e \<le> 12" using ln le by (simp add: m_def)
  have f3: "fold (\<lambda>i acc. if i \<noteq> 0x20 then push_byte i acc else acc) (si_extension it) (overwrite 0 m (replicate 12 0), length m) =
      (overwrite (length m) e (overwrite 0 m (replicate 12 0)), length m + length e)"
    using push_bytes [of "length m" "\<lambda>b. b \<noteq> 0x20" "si_extension it" "overwrite 0 m (replicate 12 0)"] lm
    by (simp add: e_def length_overwrite)
  have "overwrite (length m) e (overwrite 0 m (replicate 12 0)) = m @ e @ drop (length m + length e) (replicate 12 0)"
    by (simp add: overwrite_def ac_simps)
  then show ?thesis
    unfolding get_full_name_bytes_def Let_def f1 f2 f3 by (simp add: m_def)
qed

definition up :: "u8 \<Rightarrow> u8" where
  "up = (\<lambda>b. of_nat (ascii_upper (unat b)))"

lemma name_field:
  assumes "length N \<le> 8" "length E \<le> 3"
  defines "item \<equiv> uppercase_part 8 (8 + length E) (uppercase_part 0 (length N)
    (overwrite 8 E (overwrite 0 N (overwrite 0 (replicate 11 0x20) (replicate 32 0)))))"
  shows "length item = 32" "slice 0 8 item = map up N @ replicate (8 - length N) 0x20"
    "slice 8 11 item = map up E @ replicate (3 - length E) 0x20"
proof -
  let ?i0 = "overwrite 0 (replicate 11 0x20) (replicate 32 0) :: u8 list"
  let ?i2 = "overwrite 8 E (overwrite 0 N ?i0)"
  have len0: "length ?i0 = 32" by (simp add: length_overwrite)
  have len2: "length ?i2 = 32" using assms len0 by (simp add: length_overwrite)
  have sN: "slice 0 (length N) ?i2 = N"
    using assms len0 by (subst slice_overwrite_other) (simp_all add: length_overwrite slice_overwrite_same)
  let ?i3 = "overwrite 0 (map up N) ?i2"
  have len3: "length ?i3 = 32" using assms len2 by (simp add: length_overwrite)
  have u3: "uppercase_part 0 (length N) ?i2 = ?i3" by (simp add: uppercase_part_def sN up_def)
  have "slice 8 (8 + length E) ?i3 = slice 8 (8 + length E) ?i2"
    using assms len2 by (intro slice_overwrite_other) simp_all
  also have "\<dots> = E" using assms len0 by (intro slice_overwrite_same) (simp_all add: length_overwrite)
  finally have item: "item = overwrite 8 (map up E) ?i3"
    unfolding item_def u3 by (simp add: uppercase_part_def up_def)
  show len: "length item = 32" using item assms len3 by (simp add: length_overwrite)
  have nth: "item ! k = (if k < length N then up (N ! k) else if k < 8 then 0x20
      else if k < 8 + length E then up (E ! (k - 8)) else 0x20)" if "k < 11" for k
    using that assms(1,2) len0 len2 len3 unfolding item
    by (auto simp: nth_overwrite length_overwrite nth_append)
  show "slice 0 8 item = map up N @ replicate (8 - length N) 0x20"
    by (rule nth_equalityI) (use len nth assms(1,2) in \<open>auto simp: nth_slice nth_append\<close>)
  show "slice 8 11 item = map up E @ replicate (3 - length E) 0x20"
    by (rule nth_equalityI) (use len nth assms(1,2) in \<open>auto simp: nth_slice nth_append\<close>)
qed

lemma split_dot_props:
  assumes "split_dot value = (name, extension)"
  shows "dot \<notin> set name" "value = name @ (if dot \<in> set value then dot # extension else [])"
    "dot \<notin> set value \<Longrightarrow> extension = []" "set name \<union> set extension \<subseteq> set value"
proof -
  have "dot \<notin> set name \<and> value = name @ (if dot \<in> set value then dot # extension else []) \<and>
    (dot \<notin> set value \<longrightarrow> extension = []) \<and> set name \<union> set extension \<subseteq> set value"
  proof (cases "find_index (\<lambda>c. c = dot) value")
    case None
    then have "name = value" "extension = []" using assms by (simp_all add: split_dot_def)
    moreover have "dot \<notin> set value" using None by (auto simp: find_index_None)
    ultimately show ?thesis by simp
  next
    case (Some i)
    then have ne: "name = take i value" "extension = drop (i + 1) value" using assms by (simp_all add: split_dot_def)
    note i = Some [unfolded find_index_Some]
    then have "value = take i value @ dot # drop (i + 1) value"
      using id_take_nth_drop [of i "value"] by simp
    moreover have "dot \<notin> set (take i value)" using i by (auto simp: in_set_conv_nth)
    moreover have "dot \<in> set value" using i nth_mem by metis
    ultimately show ?thesis using ne set_take_subset [of i "value"] set_drop_subset [of "i + 1" "value"] by auto
  qed
  then show "dot \<notin> set name" "value = name @ (if dot \<in> set value then dot # extension else [])"
    "dot \<notin> set value \<Longrightarrow> extension = []" "set name \<union> set extension \<subseteq> set value" by blast+
qed

lemma Short_from_assembled:
  assumes "length item = 32"
  obtains it where "Short_from_buf (put_create_type t (put_cluster cluster item)) s = Inr (it, s)"
    "si_cluster it = cluster" "si_name it = slice 0 8 item" "si_extension it = slice 8 11 item"
proof -
  let ?b = "put_create_type t (put_cluster cluster item)"
  have len: "length ?b = 32" using assms by (cases t) (simp_all add: put_create_type_def)
  have n: "slice 0 8 ?b = slice 0 8 item" "slice 8 11 ?b = slice 8 11 item"
    using assms by (cases t; simp add: put_create_type_def put_cluster_def Let_def entry_simps)+
  have c: "?b ! 0x15 = to_le_bytes 4 cluster ! 3" "?b ! 0x14 = to_le_bytes 4 cluster ! 2"
    "?b ! 0x1B = to_le_bytes 4 cluster ! 1" "?b ! 0x1A = to_le_bytes 4 cluster ! 0"
    using assms by (cases t; simp add: put_create_type_def put_cluster_def Let_def entry_simps)+
  show thesis
    by (rule that [of "\<lparr>si_name = slice 0 8 item, si_extension = slice 8 11 item,
          si_length = from_le_bytes (slice 0 4 (slice 0x1C 0x20 ?b)), si_cluster = cluster\<rparr>"])
       (use len n c cluster_bytes [OF refl, of cluster] in
         \<open>simp_all add: Short_from_buf_def read_le_u32_def checked_slice_def kdefs\<close>)
qed

lemma Short_new_fields:
  assumes "is_ascii value" "split_dot value = (name, extension)" "length name \<le> 8" "length extension \<le> 3"
  obtains it where "Short_new cluster value t s = Inr (it, s)" "si_cluster it = cluster" "wf_short it"
    "si_name it = map up (map of_nat name) @ replicate (8 - length name) 0x20"
    "si_extension it = map up (map of_nat extension) @ replicate (3 - length extension) 0x20"
proof -
  have asc: "is_ascii name" "is_ascii extension"
    using assms(1) split_dot_props(4) [OF assms(2)] by (auto simp: is_ascii_def list_all_iff)
  let ?N = "map of_nat name :: u8 list" and ?E = "map of_nat extension :: u8 list"
  let ?i0 = "overwrite 0 (replicate 11 0x20) (replicate 32 0) :: u8 list"
  have len0: "length ?i0 = 32" "length (overwrite 0 ?N ?i0) = 32"
    using assms(3) by (simp_all add: length_overwrite)
  define item where "item = uppercase_part 8 (8 + length ?E) (uppercase_part 0 (length ?N) (overwrite 8 ?E (overwrite 0 ?N ?i0)))"
  note f = name_field [of ?N ?E, folded item_def]
  obtain it where it: "Short_from_buf (put_create_type t (put_cluster cluster item)) s = Inr (it, s)"
    "si_cluster it = cluster" "si_name it = slice 0 8 item" "si_extension it = slice 8 11 item"
    using Short_from_assembled f(1) assms(3,4) by (metis length_map)
  have "Short_new cluster value t s = Inr (it, s)"
    using assms(2-4) asc len0 it(1)
    by (simp add: Short_new_def copy_from_slice_def str_len_ascii as_bytes_ascii kcheck_def kthen_def item_def)
  then show thesis
    by (rule that) (use it f assms(3,4) in \<open>simp_all add: wf_short_def\<close>)
qed

lemma up_ascii: "c < 0x80 \<Longrightarrow> up (of_nat c) = of_nat (ascii_upper c)"
  by (simp add: up_def unat_of_nat_u8)

lemma ascii_upper_small: "c < 0x80 \<Longrightarrow> ascii_upper c < 0x80"
  by (auto simp: ascii_upper_def)

lemma ascii_upper_space: "ascii_upper c = 0x20 \<longleftrightarrow> c = 0x20"
  by (auto simp: ascii_upper_def)

lemma filter_up:
  assumes "\<forall>c\<in>set xs. c < 0x80 \<and> c \<noteq> 0x20"
  shows "filter (\<lambda>b. b \<noteq> 0x20) (map up (map of_nat xs) @ replicate k 0x20) = map (of_nat :: nat \<Rightarrow> u8) (map ascii_upper xs)"
  using assms
proof (induction xs)
  case (Cons c xs)
  have "ascii_upper c < 256" using Cons.prems ascii_upper_small [of c] by simp
  then have "(of_nat (ascii_upper c) :: u8) \<noteq> 0x20"
    using Cons.prems ascii_upper_space [of c] unat_of_nat_u8 [of "ascii_upper c"] by auto
  with Cons show ?case by (simp add: up_ascii)
qed simp

lemma from_utf8_ascii:
  assumes "is_ascii s"
  shows "from_utf8 (map of_nat s) = Some s"
  using from_utf8_as_bytes [OF ascii_scalar [OF assms]] as_bytes_ascii [OF assms] by simp

lemma map_lower_upper [simp]: "map (ascii_lower \<circ> ascii_upper) xs = map ascii_lower xs"
  by simp

lemma split_dot_hd:
  assumes "split_dot value = (name, extension)" "value \<noteq> []"
  shows "(hd value = dot \<longleftrightarrow> name = []) \<and> (name \<noteq> [] \<longrightarrow> hd name = hd value)"
  using assms by (cases "value") (auto simp: split_dot_def split: option.splits if_splits)

lemma new_sfn_item:
  assumes sfn: "sfn_or_lfn value = SFN" and nd: "value \<noteq> []" "last value \<noteq> dot"
  obtains it where
    "new_sfn cluster value t s = Inr (\<lparr>di_item_type = ItemType_from_create t, di_sfn = Some it, di_lfn = None\<rparr>, s)"
    "si_cluster it = cluster" "wf_short it"
    "\<And>v. sfn_equal \<lparr>di_item_type = ItemType_from_create t, di_sfn = Some it, di_lfn = None\<rparr> v
       \<longleftrightarrow> eq_ignore_ascii_case v value"
    "si_name it ! 0 = (if hd value = dot then 0x20 else of_nat (ascii_upper (hd value)))"
proof -
  obtain name extension where sd: "split_dot value = (name, extension)" by (cases "split_dot value")
  note p = split_dot_props [OF sd]
  have c: "is_ascii value" "0x20 \<notin> set value" "dot \<notin> set extension" "str_len name \<le> 8" "str_len extension \<le> 3"
    using sfn sd by (auto simp: sfn_or_lfn_def split: if_splits)
  have asc: "is_ascii name" "is_ascii extension" using c(1) p(4) by (auto simp: is_ascii_def list_all_iff)
  have len: "length name \<le> 8" "length extension \<le> 3" using c asc by (simp_all add: str_len_ascii)
  obtain it where it: "Short_new cluster value t s = Inr (it, s)" "si_cluster it = cluster" "wf_short it"
    "si_name it = map up (map of_nat name) @ replicate (8 - length name) 0x20"
    "si_extension it = map up (map of_nat extension) @ replicate (3 - length extension) 0x20"
    using Short_new_fields [OF c(1) sd len] by metis
  let ?di = "\<lparr>di_item_type = ItemType_from_create t, di_sfn = Some it, di_lfn = None\<rparr>"
  have sm: "\<forall>c\<in>set name. c < 0x80 \<and> c \<noteq> 0x20" "\<forall>c\<in>set extension. c < 0x80 \<and> c \<noteq> 0x20"
    using asc c(2) p(4) by (auto simp: is_ascii_def list_all_iff)
  have e0: "si_extension it ! 0 \<noteq> 0x20 \<longleftrightarrow> dot \<in> set value"
  proof (cases extension)
    case Nil
    then have "dot \<notin> set value" using p(2) nd by (auto split: if_splits)
    then show ?thesis using Nil it(5) by simp
  next
    case (Cons x xs)
    then have "dot \<in> set value" using p(3) by auto
    moreover have "up (of_nat x) \<noteq> (0x20 :: u8)"
      using filter_up [of "[x]" 0] sm(2) Cons by (auto split: if_splits)
    ultimately show ?thesis using Cons it(5) by simp
  qed
  let ?full = "map ascii_upper name @ (if dot \<in> set value then [dot] else []) @ map ascii_upper extension"
  have full: "fst (get_full_name_bytes it) = map of_nat ?full @ drop (length ?full) (replicate 12 0)"
    "snd (get_full_name_bytes it) = length ?full"
    unfolding full_name [OF it(3)] it(4,5) filter_up [OF sm(1)] filter_up [OF sm(2)] e0 [unfolded it(5)]
    by (simp_all add: dot_def Let_def)
  have "is_ascii ?full" using asc by (auto simp: is_ascii_def list_all_iff ascii_upper_small dot_def)
  then have dec: "from_utf8 (slice 0 (length ?full) (map of_nat ?full @ drop (length ?full) (replicate 12 0))) = Some ?full"
    using from_utf8_ascii [of ?full] by (simp add: slice_def)
  have "map ascii_lower ?full = map ascii_lower value"
    using p(2,3) by (cases "dot \<in> set value") (auto simp: ascii_upper_def ascii_lower_def dot_def)
  with dec full have eq: "sfn_equal ?di v \<longleftrightarrow> eq_ignore_ascii_case v value" for v
    by (cases t; cases "get_full_name_bytes it")
       (auto simp: sfn_equal_def is_deleted_def get_sfn_def name_equal_def eq_ignore_ascii_case_def)
  have "hd value = dot \<longleftrightarrow> name = []" "name \<noteq> [] \<longrightarrow> hd name = hd value" using split_dot_hd [OF sd nd(1)] by simp_all
  then have "si_name it ! 0 = (if hd value = dot then 0x20 else of_nat (ascii_upper (hd value)))"
    using sm(1) by (cases name) (auto simp: it(4) up_ascii)
  moreover have "new_sfn cluster value t s = Inr (?di, s)" using it(1) by (simp add: new_sfn_def kdefs)
  ultimately show thesis using that it(2,3) eq by blast
qed



section \<open>Long names\<close>

definition unit_bytes :: "nat list \<Rightarrow> u8 list" where
  "unit_bytes us = concat (map (\<lambda>u. [of_nat (u mod 256), of_nat (u div 256)]) us)"

lemma length_unit_bytes [simp]: "length (unit_bytes us) = 2 * length us"
  by (induction us) (simp_all add: unit_bytes_def)

lemma unit_bytes_simps [simp]:
  "unit_bytes [] = []" "unit_bytes (u # us) = of_nat (u mod 256) # of_nat (u div 256) # unit_bytes us"
  "unit_bytes (us @ vs) = unit_bytes us @ unit_bytes vs"
  by (simp_all add: unit_bytes_def)

lemma put_units_spec:
  assumes "index + 2 * length us \<le> length temp"
  shows "put_units us index temp = kret (index + 2 * length us, overwrite index (unit_bytes us) temp)"
  using assms
proof (induction us arbitrary: index temp)
  case (Cons u us)
  let ?t = "temp[index := of_nat (u mod 256), index + 1 := of_nat (u div 256)]"
  have t: "?t = overwrite index [of_nat (u mod 256), of_nat (u div 256)] temp"
    by (rule nth_equalityI) (use Cons.prems in \<open>auto simp: length_overwrite nth_overwrite nth_list_update nth_Cons'\<close>)
  have "overwrite (index + 2) (unit_bytes us) ?t = overwrite index (unit_bytes (u # us)) temp"
    unfolding t using Cons.prems by (simp add: overwrite_def min_def add.commute)
  moreover have "index + 1 < length temp" using Cons.prems by simp
  ultimately show ?case using Cons.IH [of "index + 2" ?t] Cons.prems by (simp add: kcheck_def kthen_def)
qed (simp add: overwrite_def)

text \<open>The characters the format can represent: in the basic plane, no NUL, low byte not 0xFF.\<close>

definition lfn_char :: "rchar \<Rightarrow> bool" where
  "lfn_char c \<longleftrightarrow> scalar c \<and> c \<noteq> 0 \<and> c < 0x10000 \<and> c mod 256 \<noteq> 0xFF"

lemma encode_utf16_bmp: "list_all (\<lambda>c. c < 0x10000) s \<Longrightarrow> encode_utf16 s = s"
  by (induction s) (simp_all add: encode_utf16_def utf16_char_def)

lemma nat_or_plus:
  "x < 32 \<Longrightarrow> (0xC0 :: nat) OR x = 0xC0 + x" "x < 64 \<Longrightarrow> (0x80 :: nat) OR x = 0x80 + x"
  "x < 32 \<Longrightarrow> (0xE0 :: nat) OR (x mod 16) = 0xE0 + x mod 16"
proof -
  have "list_all (\<lambda>x. (0xC0 :: nat) OR x = 0xC0 + x) [0..<32]" "list_all (\<lambda>x. (0x80 :: nat) OR x = 0x80 + x) [0..<64]"
    "list_all (\<lambda>x. (0xE0 :: nat) OR x = 0xE0 + x) [0..<16]"
    by code_simp+
  then show "x < 32 \<Longrightarrow> (0xC0 :: nat) OR x = 0xC0 + x" "x < 64 \<Longrightarrow> (0x80 :: nat) OR x = 0x80 + x"
    "x < 32 \<Longrightarrow> (0xE0 :: nat) OR (x mod 16) = 0xE0 + x mod 16"
    by (auto simp: list_all_iff)
qed

lemma nat_and_mask: "(0x3F :: nat) AND x = x mod 64" "(0x1F :: nat) AND x = x mod 32"
proof -
  have m: "(0x3F :: nat) = mask 6" "(0x1F :: nat) = mask 5" by (simp_all add: mask_eq_exp_minus_1)
  show "(0x3F :: nat) AND x = x mod 64" "(0x1F :: nat) AND x = x mod 32"
    unfolding m and.commute [of _ x] take_bit_eq_mask [symmetric] by (simp_all add: take_bit_eq_mod)
qed

lemma unit_utf8_char:
  assumes "c < 0x10000"
  shows "unit_utf8 (of_nat c) = utf8_char c"
proof -
  have u: "unat (of_nat c :: u16) = c" using assms by (intro unat_of_nat_small) simp
  have le: "(of_nat c :: u16) \<le> 0x7F \<longleftrightarrow> c < 0x80" "(0x80 :: u16) \<le> of_nat c \<longleftrightarrow> 0x80 \<le> c"
    "(of_nat c :: u16) \<le> 0x7FF \<longleftrightarrow> c < 0x800"
    using u by (auto simp: word_le_nat_alt)
  have uc: "ucast w = (of_nat (unat w) :: u8)" for w :: u16 by simp
  have d: "c div 4096 mod 32 = c div 4096 mod 16" "c div 4096 < 32" using assms by auto
  have low: "unat ((0x80 :: u16) OR (0x3F AND of_nat c)) = 0x80 + c mod 64"
    by (simp add: unsigned_or_eq unsigned_and_eq u nat_and_mask nat_or_plus)
  have mid: "unat ((0x80 :: u16) OR (0x3F AND drop_bit 6 (of_nat c))) = 0x80 + c div 64 mod 64"
    by (simp add: unsigned_or_eq unsigned_and_eq unat_drop_bit u nat_and_mask nat_or_plus)
  have two: "unat ((0xC0 :: u16) OR (0x1F AND drop_bit 6 (of_nat c))) = 0xC0 + c div 64" if "c < 0x800"
    using that by (simp add: unsigned_or_eq unsigned_and_eq unat_drop_bit u nat_and_mask nat_or_plus)
  have three: "unat ((0xE0 :: u16) OR (0x1F AND drop_bit 12 (of_nat c))) = 0xE0 + c div 4096"
    using nat_or_plus(3) [OF d(2)] d assms
    by (simp add: unsigned_or_eq unsigned_and_eq unat_drop_bit u nat_and_mask)
  show ?thesis
    unfolding unit_utf8_def utf8_char_def le uc using assms low mid two three u by simp
qed

text \<open>Reading the parts back, at the level of code units.\<close>

abbreviation good_unit :: "nat \<Rightarrow> bool" where
  "good_unit u \<equiv> \<not> (u = 0 \<or> u mod 256 = 0xFF)"

lemma part_utf8_units:
  assumes "\<forall>u\<in>set us. u < 0x10000"
  shows "part_utf8 (unit_bytes us) = concat (map utf8_char (takeWhile good_unit us))"
  using assms
proof (induction us)
  case (Cons u us)
  have d: "u div 256 < 256" "u mod 256 < 256" using Cons.prems by auto
  have lo: "(of_nat (u mod 256) :: u8) = 0xFF \<longleftrightarrow> u mod 256 = 0xFF"
    "(of_nat (u mod 256) :: u8) = 0 \<longleftrightarrow> u mod 256 = 0" "(of_nat (u div 256) :: u8) = 0 \<longleftrightarrow> u div 256 = 0"
    using unat_of_nat_u8 [OF d(1)] unat_of_nat_u8 [OF d(2)] by auto
  have z: "u mod 256 = 0 \<and> u div 256 = 0 \<longleftrightarrow> u = 0" by (metis div_mult_mod_eq add.right_neutral div_0 mod_0 mult_zero_left)
  have hl: "(push_bit 8 (ucast (of_nat (u div 256) :: u8)) OR ucast (of_nat (u mod 256) :: u8) :: u16) = of_nat u"
  proof -
    have u: "unat (of_nat u :: u16) = u" using Cons.prems by (intro unat_of_nat_small) simp
    have uc: "ucast w = (of_nat (unat w) :: u8)" for w :: u16 by simp
    have "to_le_bytes 2 (of_nat u :: u16) = [of_nat u, of_nat (u div 256)]"
      unfolding to_le_bytes_def uc by (simp add: upt_rec unat_drop_bit u)
    moreover have "(of_nat u :: u8) = of_nat (u mod 256)"
      by (rule unat_eqI) (simp add: unat_of_nat)
    ultimately show ?thesis using from_to_le_bytes [of 2 "of_nat u :: u16"] by (simp add: or.commute)
  qed
  show ?case using Cons lo z hl by (auto simp: unit_utf8_char)
qed simp

lemma takeWhile_prefix:
  assumes "\<forall>x\<in>set us. P x" "\<forall>x\<in>set pad. \<not> P x"
  shows "takeWhile P (take k (drop j (us @ pad))) = take k (drop j us)"
proof -
  have tw: "takeWhile P (take k xs @ take m ys) = take k xs"
    if "\<forall>x\<in>set xs. P x" "\<forall>x\<in>set ys. \<not> P x" for k m xs ys
    using that by (subst takeWhile_append2) (auto simp: takeWhile_eq_Nil_iff dest!: in_set_takeD)
  have "takeWhile P (take k (drop j us) @ take (k - (length us - j)) (drop (j - length us) pad)) = take k (drop j us)"
    by (rule tw) (use assms in \<open>auto dest: in_set_dropD\<close>)
  then show ?thesis by simp
qed

lemma slice_unit_bytes: "slice (2 * i) (2 * j) (unit_bytes us) = unit_bytes (take (j - i) (drop i us))"
proof -
  have d: "drop (2 * i) (unit_bytes us) = unit_bytes (drop i us)" for i us
  proof (induction i arbitrary: us)
    case (Suc i)
    then show ?case by (cases us) simp_all
  qed simp
  have t: "take (2 * i) (unit_bytes us) = unit_bytes (take i us)" for i us
  proof (induction i arbitrary: us)
    case (Suc i)
    then show ?case by (cases us) simp_all
  qed simp
  show ?thesis using d t by (simp add: slice_def right_diff_distrib' [symmetric])
qed

definition lfn_pad :: "nat \<Rightarrow> nat list" where
  "lfn_pad n = (if n < 13 then 0 # replicate (12 - n) 0xFFFF else [])"

lemma lfn_temp:
  assumes "length us \<le> 13"
  defines "temp \<equiv> overwrite 0 (unit_bytes us) (replicate 26 0xFF)"
  shows "(if 2 * length us \<noteq> 26 then temp[2 * length us := 0, 2 * length us + 1 := 0] else temp) =
    unit_bytes (us @ lfn_pad (length us))"
proof (cases "length us = 13")
  case True
  then show ?thesis by (simp add: temp_def overwrite_def lfn_pad_def)
next
  case False
  then have n: "length us < 13" using assms(1) by simp
  have r: "unit_bytes (replicate k 0xFFFF) = replicate (2 * k) 0xFF" for k
    by (induction k) simp_all
  have "26 - 2 * length us = Suc (Suc (2 * (12 - length us)))" using n by simp
  then have "temp = unit_bytes us @ 0xFF # 0xFF # replicate (2 * (12 - length us)) 0xFF"
    by (simp add: temp_def overwrite_def)
  then show ?thesis using n r by (simp add: lfn_pad_def list_update_append)
qed

lemma Long_assembled:
  assumes "length p1 = 10" "length p2 = 12" "length p3 = 4"
  shows "Long_from_buf (overwrite 0x1C p3 (overwrite 0x0E p2 (overwrite 0x01 p1
      ((replicate 32 0)[0x00 := a, 0x0D := c])))) =
    kret \<lparr>li_attribute = a, li_check_sum = c, li_unicode_part1 = p1, li_unicode_part2 = p2, li_unicode_part3 = p3\<rparr>"
  using assms by (simp add: Long_from_buf_def entry_simps kcheck_def kthen_def)

lemma write_unicode_parts:
  assumes "length value \<le> 13" "list_all (\<lambda>c. c < 0x10000) value" "length buf = 32"
  defines "T \<equiv> value @ lfn_pad (length value)"
  shows "write_unicode value buf = kret (overwrite 0x1C (unit_bytes (take 2 (drop 11 T)))
    (overwrite 0x0E (unit_bytes (take 6 (drop 5 T))) (overwrite 0x01 (unit_bytes (take 5 T)) buf)))"
proof -
  have pu: "put_units (encode_utf16 value) 0 (replicate 26 0xFF) =
      kret (2 * length value, overwrite 0 (unit_bytes value) (replicate 26 0xFF))"
    using put_units_spec [of 0 "value" "replicate 26 0xFF"] assms(1,2) by (simp add: encode_utf16_bmp)
  have s: "slice 0 10 (unit_bytes T) = unit_bytes (take 5 T)"
    "slice 10 22 (unit_bytes T) = unit_bytes (take 6 (drop 5 T))"
    "slice 22 26 (unit_bytes T) = unit_bytes (take 2 (drop 11 T))"
    using slice_unit_bytes [of 0 5 T] slice_unit_bytes [of 5 11 T] slice_unit_bytes [of 11 13 T] by simp_all
  have "(0x20 :: nat) \<le> length buf" using assms(3) by simp
  then show ?thesis
    unfolding write_unicode_def pu kbind_kret prod.case Let_def lfn_temp [OF assms(1)] T_def [symmetric] s kcheck_def kthen_def
    by (simp only: if_True kbind_kret)
qed

lemma Long_new_fields:
  assumes "length value \<le> 13" "list_all (\<lambda>c. c < 0x10000) value"
  defines "T \<equiv> value @ lfn_pad (length value)"
  shows "Long_new attribute check_sum value = kret \<lparr>li_attribute = attribute, li_check_sum = check_sum,
      li_unicode_part1 = unit_bytes (take 5 T), li_unicode_part2 = unit_bytes (take 6 (drop 5 T)),
      li_unicode_part3 = unit_bytes (take 2 (drop 11 T))\<rparr>"
proof -
  have lT: "length T = 13" using assms(1) by (simp add: T_def lfn_pad_def)
  have lb: "length ((replicate 32 0)[0x00 := attribute, 0x0D := check_sum]) = 32" by simp
  show ?thesis
    unfolding Long_new_def write_unicode_parts [OF assms(1,2) lb] T_def [symmetric] kbind_kret
    by (rule Long_assembled) (simp_all add: lT)
qed

text \<open>C28: The long-name format carries every name piece of up to thirteen representable characters (basic
  plane, no NUL, low byte not 0xFF): writing it as UTF-16 into an entry succeeds, decoding the entry
  gives exactly its UTF-8 bytes, and the entry matches exactly the names equal to it up to ASCII case.\<close>

theorem long_name_roundtrip:
  assumes "length value \<le> 13" "list_all lfn_char value"
  shows "\<exists>di. new_lfn attribute check_sum value s = Inr (di, s) \<and>
    map_option (\<lambda>(bs, len). take len bs) (get_lfn di) = Some (as_bytes value) \<and>
    (\<forall>v. lfn_equal di v \<longleftrightarrow> eq_ignore_ascii_case v value)"
proof -
  have bmp: "list_all (\<lambda>c. c < 0x10000) value" and wf: "wf_str value"
    and good: "\<forall>u\<in>set value. good_unit u"
    using assms(2) by (auto simp: list_all_iff lfn_char_def)
  let ?pad = "lfn_pad (length value)"
  have pad: "\<forall>u\<in>set ?pad. \<not> good_unit u" "\<forall>u\<in>set (value @ ?pad). u < 0x10000"
    using bmp by (auto simp: lfn_pad_def list_all_iff split: if_splits)
  define l where "l = \<lparr>li_attribute = attribute, li_check_sum = check_sum,
      li_unicode_part1 = unit_bytes (take 5 (value @ ?pad)),
      li_unicode_part2 = unit_bytes (take 6 (drop 5 (value @ ?pad))),
      li_unicode_part3 = unit_bytes (take 2 (drop 11 (value @ ?pad)))\<rparr>"
  let ?di = "\<lparr>di_item_type = ItLFN, di_sfn = None, di_lfn = Some l\<rparr>"
  have p: "part_utf8 (unit_bytes (take k (drop j (value @ ?pad)))) = concat (map utf8_char (take k (drop j value)))" for j k
  proof -
    have "\<forall>u\<in>set (take k (drop j (value @ ?pad))). u < 0x10000"
      using pad(2) by (meson in_set_dropD in_set_takeD)
    from part_utf8_units [OF this] show ?thesis
      by (simp only: takeWhile_prefix [OF good pad(1)])
  qed
  have p0: "part_utf8 (unit_bytes (take 5 (value @ ?pad))) = concat (map utf8_char (take 5 value))"
    using p [of 5 0] by (simp only: drop0)
  have "value = take 5 value @ take 6 (drop 5 value) @ take 2 (drop 11 value)"
    using assms(1) append_take_drop_id [of 5 "value"] append_take_drop_id [of 6 "drop 5 value"] by simp
  then have out: "as_bytes value = concat (map utf8_char (take 5 value)) @
      concat (map utf8_char (take 6 (drop 5 value))) @ concat (map utf8_char (take 2 (drop 11 value)))"
    by (metis as_bytes_def concat_append map_append)
  have u: "to_utf8 l = (as_bytes value @ replicate (39 - length (as_bytes value)) 0, length (as_bytes value))"
    unfolding to_utf8_def l_def LongDirectoryItem.select_convs p p0 out [symmetric] Let_def ..
  have "lfn_equal ?di v \<longleftrightarrow> eq_ignore_ascii_case v value" for v
    using wf by (simp add: lfn_equal_def is_deleted_def get_lfn_def u name_equal_def slice_def)
  moreover have "new_lfn attribute check_sum value s = Inr (?di, s)"
    unfolding new_lfn_def Long_new_fields [OF assms(1) bmp] l_def [symmetric] kbind_kret by (simp add: kret_def)
  moreover have "map_option (\<lambda>(bs, len). take len bs) (get_lfn ?di) = Some (as_bytes value)"
    by (simp add: get_lfn_def u)
  ultimately show ?thesis by blast
qed

theorem long_name_roundtrip_witness:
  "\<exists>di. new_lfn 0x41 7 [0x52, 0x75, 0x73, 0x74, 0x725B, 0x2E, 0x74] () = Inr (di, ()) \<and>
    lfn_equal di [0x72, 0x55, 0x73, 0x74, 0x725B, 0x2E, 0x54]"
proof -
  have "list_all lfn_char [0x52, 0x75, 0x73, 0x74, 0x725B, 0x2E, 0x74]"
    "eq_ignore_ascii_case [0x72, 0x55, 0x73, 0x74, 0x725B, 0x2E, 0x54] [0x52, 0x75, 0x73, 0x74, 0x725B, 0x2E, 0x74]"
    by (simp_all add: lfn_char_def scalar_def eq_ignore_ascii_case_def ascii_lower_def)
  then show ?thesis
    using long_name_roundtrip [of "[0x52, 0x75, 0x73, 0x74, 0x725B, 0x2E, 0x74]" "0x41" 7 "()"] by auto
qed

end
