(* ===== verification/Sector_Device.thy ===== *)
theory Sector_Device
  imports Fat_Item
begin

text \<open>
  The sector device below the FAT32 library: the two operations of the \<^verbatim>\<open>BlockDevice\<close> trait the
  library is generic in, as a record over the state \<^typ>\<open>'d\<close> of the device, and the contract the
  library relies on.  Reading takes the caller's buffer and returns the success flag and the buffer
  afterwards.
\<close>

record 'd sector_dev =
  sd_read :: "u8 list \<Rightarrow> usize \<Rightarrow> nat \<Rightarrow> ('d, bool \<times> u8 list) kernel"
  sd_write :: "u8 list \<Rightarrow> usize \<Rightarrow> nat \<Rightarrow> ('d, bool) kernel"

text \<open>\<^verbatim>\<open>device.read(..).unwrap()\<close> and \<^verbatim>\<open>device.write(..).unwrap()\<close>.\<close>

definition sector_read :: "'d sector_dev \<Rightarrow> u8 list \<Rightarrow> usize \<Rightarrow> nat \<Rightarrow> ('d, u8 list) kernel" where
  "sector_read D buf address n =
     kbind (sd_read D buf address n) (\<lambda>(ok, buf'). kthen (kcheck UnwrapErr ok) (kret buf'))"

definition sector_write :: "'d sector_dev \<Rightarrow> u8 list \<Rightarrow> usize \<Rightarrow> nat \<Rightarrow> ('d, unit) kernel" where
  "sector_write D buf address n = kbind (sd_write D buf address n) (\<lambda>ok. kcheck UnwrapErr ok)"

text \<open>The bytes of \<^term>\<open>n\<close> sectors from sector \<^term>\<open>i\<close> on.\<close>

definition secs :: "(nat \<Rightarrow> u8 list) \<Rightarrow> nat \<Rightarrow> nat \<Rightarrow> u8 list" where
  "secs f i n = concat (map f [i..<i + n])"

text \<open>The byte address of a sector.\<close>

definition sector_addr :: "nat \<Rightarrow> usize" where
  "sector_addr i = of_nat (i * BUFFER_SIZE)"

lemma sector_addr_add: "sector_addr i + of_nat (k * BUFFER_SIZE) = sector_addr (i + k)"
  by (simp add: sector_addr_def add_mult_distrib)

lemma secs_0 [simp]: "secs f i 0 = []"
  by (simp add: secs_def)

lemma secs_1 [simp]: "secs f i (Suc 0) = f i"
  by (simp add: secs_def)

lemma secs_add: "secs f i (m + n) = secs f i m @ secs f (i + m) n"
  using upt_add_eq_append [of i "i + m" n] by (simp add: secs_def add.assoc)

lemma length_secs: "(\<And>j. i \<le> j \<Longrightarrow> j < i + n \<Longrightarrow> length (f j) = b) \<Longrightarrow> length (secs f i n) = n * b"
  by (induction n) (simp_all add: secs_def)

lemma secs_cong: "(\<And>j. i \<le> j \<Longrightarrow> j < i + n \<Longrightarrow> f j = g j) \<Longrightarrow> secs f i n = secs g i n"
  by (auto simp: secs_def intro!: arg_cong [where f = concat] map_cong)

text \<open>
  The contract: sectors \<^term>\<open>0\<close> to \<^term>\<open>cap - 1\<close> hold 512 bytes each; reads and writes of whole
  sectors inside the device succeed and mean what they say.
\<close>

locale sector_device =
  fixes D :: "'d sector_dev" and I :: "'d \<Rightarrow> bool" and cap :: nat and sec :: "'d \<Rightarrow> nat \<Rightarrow> u8 list"
  assumes cap_small: "cap * BUFFER_SIZE < 2 ^ 64"
    and sec_length: "I s \<Longrightarrow> i < cap \<Longrightarrow> length (sec s i) = BUFFER_SIZE"
    and read_sectors: "I s \<Longrightarrow> i + n \<le> cap \<Longrightarrow> get_needed_sector (length buf) = n \<Longrightarrow>
      \<exists>t. sd_read D buf (sector_addr i) n s = Inr ((True, take (length buf) (secs (sec s) i n)), t) \<and>
          I t \<and> (\<forall>j<cap. sec t j = sec s j)"
    and write_sectors: "I s \<Longrightarrow> i + n \<le> cap \<Longrightarrow> length buf = n * BUFFER_SIZE \<Longrightarrow>
      \<exists>t. sd_write D buf (sector_addr i) n s = Inr (True, t) \<and> I t \<and>
          (\<forall>j<cap. sec t j = (if i \<le> j \<and> j < i + n
             then slice ((j - i) * BUFFER_SIZE) ((j - i + 1) * BUFFER_SIZE) buf else sec s j))"
begin

text \<open>The rules for one sector, the case the library uses almost everywhere.\<close>

lemma wpe_sector_read:
  assumes "I s" "i < cap" "length buf = BUFFER_SIZE"
    and "\<And>t. I t \<Longrightarrow> (\<And>j. j < cap \<Longrightarrow> sec t j = sec s j) \<Longrightarrow> Q (sec s i) t"
  shows "wpe (sector_read D buf (sector_addr i) 1) Q E s"
proof -
  have "get_needed_sector (length buf) = 1" using assms(3) by (simp add: get_needed_sector_def BUFFER_SIZE_def)
  then obtain t where t: "sd_read D buf (sector_addr i) 1 s = Inr ((True, take (length buf) (secs (sec s) i 1)), t)"
      "I t" "\<forall>j<cap. sec t j = sec s j"
    using read_sectors [of s i 1 buf] assms by auto
  have "Q (sec s i) t" using assms(4) t by blast
  moreover have "take (length buf) (secs (sec s) i 1) = sec s i" using sec_length [of s i] assms by simp
  ultimately show ?thesis using t by (simp add: sector_read_def wpe_def kdefs)
qed

lemma wpe_sector_write:
  assumes "I s" "i < cap" "length buf = BUFFER_SIZE"
    and "\<And>t. I t \<Longrightarrow> (\<And>j. j < cap \<Longrightarrow> sec t j = (if j = i then buf else sec s j)) \<Longrightarrow> Q () t"
  shows "wpe (sector_write D buf (sector_addr i) 1) Q E s"
proof -
  obtain t where t: "sd_write D buf (sector_addr i) 1 s = Inr (True, t)" "I t"
      "\<forall>j<cap. sec t j = (if i \<le> j \<and> j < i + 1
         then slice ((j - i) * BUFFER_SIZE) ((j - i + 1) * BUFFER_SIZE) buf else sec s j)"
    using write_sectors [of s i 1 buf] assms by auto
  have "slice 0 BUFFER_SIZE buf = buf" using assms(3) by (simp add: slice_def)
  then have "Q () t" using assms(4) t by (auto simp: less_Suc_eq)
  then show ?thesis using t by (simp add: sector_write_def wpe_def kdefs)
qed

lemmas wpe_sector_rw = wpe_sector_read wpe_sector_write
  wpe_sector_read [unfolded One_nat_def] wpe_sector_write [unfolded One_nat_def]

end

end
