(* ===== verification/Fat_Table.thy ===== *)
theory Fat_Table
  imports Sector_Device
begin

text \<open>
  \<^verbatim>\<open>fat32/src/bpb.rs\<close>, \<^verbatim>\<open>fat.rs\<close> and \<^verbatim>\<open>volume.rs\<close>: the BIOS parameter block, the file
  allocation table and its cluster-chain iterator, and mounting a volume.

  The lemmas show that a write to the table changes exactly one entry, that the search for a free
  cluster ends and finds the first one, and that the iterator visits exactly a cluster chain.
\<close>

section \<open>bpb.rs\<close>

record BIOSParameterBlock =
  byte_per_sector :: u16
  sector_per_cluster :: u8
  reserved_sector :: u16
  num_fat :: u8
  total_sector :: u32
  sector_per_fat :: u32
  root_cluster :: u32
  bpb_id :: u32
  bpb_volume_label :: "u8 list"
  bpb_file_system :: "u8 list"

definition bpb_offset :: "BIOSParameterBlock \<Rightarrow> u32 \<Rightarrow> usize" where
  "bpb_offset bpb cluster =
     (ucast (reserved_sector bpb) + ucast (num_fat bpb) * ucast (sector_per_fat bpb)
       + (ucast cluster - 2) * ucast (sector_per_cluster bpb)) * ucast (byte_per_sector bpb)"

definition bpb_fat1 :: "BIOSParameterBlock \<Rightarrow> usize" where
  "bpb_fat1 bpb = ucast (reserved_sector bpb) * ucast (byte_per_sector bpb)"

definition sector_per_cluster_usize :: "BIOSParameterBlock \<Rightarrow> nat" where
  "sector_per_cluster_usize bpb = unat (sector_per_cluster bpb)"

section \<open>fat.rs\<close>

record FAT =
  fat_offset :: usize
  start_cluster :: u32
  previous_cluster :: u32
  current_cluster :: u32
  next_cluster :: "u32 option"
  fat_buffer :: "u8 list"

definition FAT_new :: "u32 \<Rightarrow> usize \<Rightarrow> FAT" where
  "FAT_new cluster offset =
     \<lparr>fat_offset = offset, start_cluster = cluster, previous_cluster = 0, current_cluster = 0,
      next_cluster = None, fat_buffer = replicate BUFFER_SIZE 0\<rparr>"

text \<open>The scan of one sector for a zero entry; the result says whether one was found.\<close>

fun blank_scan :: "nat list \<Rightarrow> u8 list \<Rightarrow> u32 \<Rightarrow> ('s, bool \<times> u32) kernel" where
  "blank_scan [] buffer cluster = kret (False, cluster)"
| "blank_scan (i # is) buffer cluster =
     kbind (checked_slice i (i + 4) buffer) (\<lambda>bs.
     kbind (read_le_u32 bs) (\<lambda>entry.
       if entry = 0 then kret (True, cluster) else blank_scan is buffer (cluster + 1)))"

definition blank_cluster_step ::
  "'d sector_dev \<Rightarrow> nat \<times> u32 \<times> FAT \<Rightarrow> ('d, (nat \<times> u32 \<times> FAT) + (u32 \<times> FAT)) kernel" where
  "blank_cluster_step D = (\<lambda>(block, cluster, fat).
     kbind (sector_read D (fat_buffer fat) (fat_offset fat + of_nat block * of_nat BUFFER_SIZE) 1) (\<lambda>buffer.
     kbind (blank_scan (map ((*) 4) [0..<BUFFER_SIZE div 4]) buffer cluster) (\<lambda>(found, cluster').
       let fat' = fat\<lparr>fat_buffer := buffer\<rparr>
       in kret (if found then Inr (cluster', fat') else Inl (block + 1, cluster', fat')))))"

definition FAT_blank_cluster :: "'d sector_dev \<Rightarrow> FAT \<Rightarrow> ('d, u32 \<times> FAT) kernel" where
  "FAT_blank_cluster D fat = kloop (blank_cluster_step D) (0, 0, fat)"

definition FAT_write :: "'d sector_dev \<Rightarrow> u32 \<Rightarrow> u32 \<Rightarrow> FAT \<Rightarrow> ('d, FAT) kernel" where
  "FAT_write D cluster val fat =
     (let offset = unat cluster * 4;
          block_offset = offset div BUFFER_SIZE;
          offset_left = offset mod BUFFER_SIZE;
          address = fat_offset fat + of_nat (block_offset * BUFFER_SIZE)
      in kbind (sector_read D (fat_buffer fat) address 1) (\<lambda>buffer.
         kbind (copy_from_slice offset_left (offset_left + 4) (to_le_bytes 4 val) buffer) (\<lambda>buffer'.
         kthen (sector_write D buffer' address 1)
           (kret (fat\<lparr>fat_buffer := buffer'\<rparr>)))))"

definition FAT_refresh :: "u32 \<Rightarrow> FAT \<Rightarrow> FAT" where
  "FAT_refresh start fat = fat\<lparr>current_cluster := 0, start_cluster := start\<rparr>"

definition FAT_previous :: "FAT \<Rightarrow> FAT" where
  "FAT_previous fat =
     (if current_cluster fat \<noteq> 0
      then fat\<lparr>next_cluster := Some (current_cluster fat), current_cluster := previous_cluster fat\<rparr>
      else fat)"

definition next_is_none :: "FAT \<Rightarrow> bool" where
  "next_is_none fat \<longleftrightarrow> next_cluster fat = None"

text \<open>
  The part of \<^verbatim>\<open>next\<close> after the current cluster is set: look its entry up.  The yielded item
  is a copy of the iterator itself.
\<close>

definition FAT_load :: "'d sector_dev \<Rightarrow> FAT \<Rightarrow> ('d, FAT option \<times> FAT) kernel" where
  "FAT_load D fat =
     (let offset = unat (current_cluster fat) * 4;
          block_offset = offset div BUFFER_SIZE;
          offset_left = offset mod BUFFER_SIZE
      in kbind (sector_read D (fat_buffer fat) (fat_offset fat + of_nat (block_offset * BUFFER_SIZE)) 1) (\<lambda>buffer.
         kbind (checked_slice offset_left (offset_left + 4) buffer) (\<lambda>bs.
         kbind (read_le_u32 bs) (\<lambda>entry.
           let fat' = fat\<lparr>fat_buffer := buffer,
                 next_cluster := (if entry = 0x0FFFFFFF then None else Some entry)\<rparr>
           in kret (Some fat', fat')))))"

definition FAT_next :: "'d sector_dev \<Rightarrow> FAT \<Rightarrow> ('d, FAT option \<times> FAT) kernel" where
  "FAT_next D fat =
     (if current_cluster fat = 0 then FAT_load D (fat\<lparr>current_cluster := start_cluster fat\<rparr>)
      else case next_cluster fat of
        Some c \<Rightarrow> FAT_load D (fat\<lparr>previous_cluster := current_cluster fat, current_cluster := c\<rparr>)
      | None \<Rightarrow> kret (None, fat))"

text \<open>
  Driving the iterator to its end with an action on every item: \<^verbatim>\<open>map(..).last()\<close>,
  \<^verbatim>\<open>count()\<close> and \<^verbatim>\<open>find(|_| false)\<close> of the library are instances.
\<close>

definition FAT_for_each ::
  "'d sector_dev \<Rightarrow> (FAT \<Rightarrow> 'a \<Rightarrow> ('d, 'a) kernel) \<Rightarrow> FAT \<Rightarrow> 'a \<Rightarrow> ('d, 'a \<times> FAT) kernel" where
  "FAT_for_each D act fat a =
     kloop (\<lambda>(fat, a). kbind (FAT_next D fat) (\<lambda>(item, fat').
       case item of
         None \<Rightarrow> kret (Inr (a, fat'))
       | Some f \<Rightarrow> kbind (act f a) (\<lambda>a'. kret (Inl (fat', a'))))) (fat, a)"

section \<open>volume.rs\<close>

definition Volume_new :: "'d sector_dev \<Rightarrow> ('d, BIOSParameterBlock) kernel" where
  "Volume_new D =
     kbind (sector_read D (replicate BUFFER_SIZE 0) 0 1) (\<lambda>buf.
     kbind (checked_slice 0x47 0x52 buf) (\<lambda>volume_label.
     kbind (checked_slice 0x52 0x5A buf) (\<lambda>file_system.
     kbind (kbind (checked_slice 0x0B 0x0D buf) read_le_u16) (\<lambda>bps.
     kthen (kcheck (Explicit ''BUFFER_SIZE'') (unat bps = BUFFER_SIZE))
     (kbind (is_fat32 file_system) (\<lambda>fat32.
     kthen (kcheck (Explicit ''not fat32 file system'') fat32)
     (kbind (kindex buf 0x0D) (\<lambda>spc.
     kbind (kbind (checked_slice 0x0E 0x10 buf) read_le_u16) (\<lambda>reserved.
     kbind (kindex buf 0x10) (\<lambda>nfat.
     kbind (kbind (checked_slice 0x20 0x24 buf) read_le_u32) (\<lambda>total.
     kbind (kbind (checked_slice 0x24 0x28 buf) read_le_u32) (\<lambda>spf.
     kbind (kbind (checked_slice 0x2C 0x30 buf) read_le_u32) (\<lambda>root.
     kbind (kbind (checked_slice 0x43 0x47 buf) read_le_u32) (\<lambda>ident.
       kret \<lparr>byte_per_sector = bps, sector_per_cluster = spc, reserved_sector = reserved, num_fat = nfat,
             total_sector = total, sector_per_fat = spf, root_cluster = root, bpb_id = ident,
             bpb_volume_label = volume_label, bpb_file_system = file_system\<rparr>))))))))))))))"

definition Volume_volume_label :: "BIOSParameterBlock \<Rightarrow> ('d, rstr) kernel" where
  "Volume_volume_label bpb = kunwrap (from_utf8 (bpb_volume_label bpb))"

text \<open>A directory handle: the item it was opened from and the iterator over its clusters.\<close>

record Dir =
  dir_detail :: DirectoryItem
  dir_fat :: FAT

definition Volume_root_dir :: "BIOSParameterBlock \<Rightarrow> Dir" where
  "Volume_root_dir bpb =
     \<lparr>dir_detail = di_root_dir (root_cluster bpb), dir_fat = FAT_new (root_cluster bpb) (bpb_fat1 bpb)\<rparr>"

section \<open>Entries of the table\<close>

text \<open>The entry at byte \<^term>\<open>i\<close> of a sector, and entry \<^term>\<open>c\<close> of the table that starts at sector \<^term>\<open>f0\<close>.\<close>

definition entry_at :: "u8 list \<Rightarrow> nat \<Rightarrow> u32" where
  "entry_at buf i = from_le_bytes (slice i (i + 4) buf)"

definition fat_entry :: "(nat \<Rightarrow> u8 list) \<Rightarrow> nat \<Rightarrow> nat \<Rightarrow> u32" where
  "fat_entry f f0 c = entry_at (f (f0 + c div 128)) (4 * (c mod 128))"

abbreviation end_of_chain :: u32 where
  "end_of_chain \<equiv> 0x0FFFFFFF"

abbreviation fat_ready :: "nat \<Rightarrow> FAT \<Rightarrow> bool" where
  "fat_ready f0 fat \<equiv> fat_offset fat = sector_addr f0 \<and> length (fat_buffer fat) = BUFFER_SIZE"

text \<open>Only the sector buffer of an iterator differs; the link an entry holds.\<close>

definition rebuffered :: "FAT \<Rightarrow> FAT \<Rightarrow> bool" where
  "rebuffered fat fat' \<longleftrightarrow> length (fat_buffer fat') = BUFFER_SIZE \<and> fat' = fat\<lparr>fat_buffer := fat_buffer fat'\<rparr>"

lemma rebuffered_fields:
  "rebuffered fat fat' \<Longrightarrow> fat_offset fat' = fat_offset fat \<and> start_cluster fat' = start_cluster fat \<and>
     previous_cluster fat' = previous_cluster fat \<and> current_cluster fat' = current_cluster fat \<and>
     next_cluster fat' = next_cluster fat \<and> length (fat_buffer fat') = BUFFER_SIZE"
  by (cases fat; cases fat') (simp add: rebuffered_def)

lemma rebuffered_update [simp]: "rebuffered fat (fat\<lparr>fat_buffer := b\<rparr>) \<longleftrightarrow> length b = BUFFER_SIZE"
  by (simp add: rebuffered_def)

lemma rebuffered_refl: "length (fat_buffer fat) = BUFFER_SIZE \<Longrightarrow> rebuffered fat fat"
  by (simp add: rebuffered_def)

lemma rebuffered_trans: "rebuffered f g \<Longrightarrow> rebuffered g h \<Longrightarrow> rebuffered f h"
  by (cases f; cases g; cases h) (simp add: rebuffered_def)

definition link_of :: "u32 \<Rightarrow> u32 option" where
  "link_of e = (if e = end_of_chain then None else Some e)"

lemma entry_position:
  "n * 4 div BUFFER_SIZE = n div 128" "n * 4 mod BUFFER_SIZE = 4 * (n mod 128)"
  using mult_mod_right [of 4 n 128] div_mult_mult1 [of 4 n 128] by (simp_all add: BUFFER_SIZE_def mult.commute)

lemma entry_slot: "4 * (c mod 128) + 4 \<le> BUFFER_SIZE" for c :: nat
  using mod_less_divisor [of 128 c] by (simp add: BUFFER_SIZE_def)

lemma read_entry:
  "i + 4 \<le> length buf \<Longrightarrow> kbind (checked_slice i (i + 4) buf) (\<lambda>bs. kbind (read_le_u32 bs) f) = f (entry_at buf i)"
  by (rule ext) (simp add: checked_slice_def read_le_u32_def entry_at_def kdefs slice_def)

lemma blank_scan_spec:
  assumes "\<forall>i\<in>set is. i + 4 \<le> length buf"
  shows "blank_scan is buf c =
    kret (case find_index (\<lambda>i. entry_at buf i = 0) is of
            Some i \<Rightarrow> (True, c + of_nat i) | None \<Rightarrow> (False, c + of_nat (length is)))"
  using assms
proof (induction "is" arbitrary: c)
  case (Cons i "is")
  then show ?case
    by (auto simp: read_entry add.assoc split: option.splits)
qed simp

lemma entry_overwrite:
  assumes "length buf = BUFFER_SIZE" "length bs = 4" "i < 128" "j < 128"
  shows "entry_at (overwrite (4 * i) bs buf) (4 * j) = (if j = i then from_le_bytes bs else entry_at buf (4 * j))"
proof (cases "j = i")
  case True
  then show ?thesis using assms by (simp add: entry_at_def slice_overwrite_same BUFFER_SIZE_def)
next
  case False
  then have "4 * j + 4 \<le> 4 * i \<or> 4 * i + 4 \<le> 4 * j" by linarith
  then show ?thesis
    using assms False by (simp add: entry_at_def slice_overwrite_other BUFFER_SIZE_def)
qed

lemma fat_entry_update:
  assumes "length (f (f0 + c div 128)) = BUFFER_SIZE"
    and "g (f0 + c div 128) = overwrite (4 * (c mod 128)) (to_le_bytes 4 v) (f (f0 + c div 128))"
    and "\<And>j. j < k \<Longrightarrow> j \<noteq> f0 + c div 128 \<Longrightarrow> g j = f j" "f0 + c' div 128 < k"
  shows "fat_entry g f0 c' = (if c' = c then v else fat_entry f f0 c')"
proof (cases "c' div 128 = c div 128")
  case True
  then have "c' = c \<longleftrightarrow> c' mod 128 = c mod 128" by (metis div_mult_mod_eq)
  then show ?thesis
    using True assms entry_overwrite [OF assms(1), of "to_le_bytes 4 v" "c mod 128" "c' mod 128"]
    by (simp add: fat_entry_def from_to_le_bytes)
next
  case False
  then show ?thesis using assms by (auto simp: fat_entry_def)
qed

lemma fat_entry_cong: "f (f0 + c div 128) = g (f0 + c div 128) \<Longrightarrow> fat_entry f f0 c = fat_entry g f0 c"
  by (simp add: fat_entry_def)

context sector_device
begin

text \<open>The sectors of two states agree.\<close>

abbreviation same :: "'d \<Rightarrow> 'd \<Rightarrow> bool" where
  "same s t \<equiv> I t \<and> (\<forall>j<cap. sec t j = sec s j)"

lemma fat_address:
  "fat_offset fat = sector_addr f0 \<Longrightarrow> fat_offset fat + of_nat (k * BUFFER_SIZE) = sector_addr (f0 + k)"
  by (simp only: sector_addr_add)

lemma FAT_write_spec:
  assumes s: "I s" and r: "fat_ready f0 fat" and c: "f0 + unat c div 128 < cap"
  shows "wpe (FAT_write D c v fat) (\<lambda>fat' t. I t \<and> rebuffered fat fat' \<and>
     sec t (f0 + unat c div 128) = overwrite (4 * (unat c mod 128)) (to_le_bytes 4 v) (sec s (f0 + unat c div 128)) \<and>
     (\<forall>j<cap. j \<noteq> f0 + unat c div 128 \<longrightarrow> sec t j = sec s j)) E s"
proof -
  let ?i = "f0 + unat c div 128" and ?b = "4 * (unat c mod 128)"
  have len: "length (sec s ?i) = BUFFER_SIZE" using sec_length [OF s c] .
  have slot: "?b + 4 \<le> BUFFER_SIZE" by (rule entry_slot)
  show ?thesis
    unfolding FAT_write_def Let_def entry_position fat_address [OF conjunct1 [OF r]] wpe_kbind
  proof (rule wpe_sector_read [OF s c], goal_cases)
    case 1
    then show ?case using r by simp
  next
    case (2 t)
    show ?case
      unfolding copy_from_slice_def wpe_kthen wpe_kbind
      using slot len 2
      by (auto intro!: wpe_sector_rw simp: length_overwrite r c)
  qed
qed

lemma FAT_load_spec:
  assumes s: "I s" and r: "fat_ready f0 fat" and c: "f0 + unat (current_cluster fat) div 128 < cap"
  shows "wpe (FAT_load D fat) (\<lambda>(item, fat') t. same s t \<and> item = Some fat' \<and>
     rebuffered (fat\<lparr>next_cluster := link_of (fat_entry (sec s) f0 (unat (current_cluster fat)))\<rparr>) fat') E s"
proof -
  let ?c = "unat (current_cluster fat)"
  have len: "length (sec s (f0 + ?c div 128)) = BUFFER_SIZE" using sec_length [OF s c] .
  have slot: "4 * (?c mod 128) + 4 \<le> BUFFER_SIZE" by (rule entry_slot)
  show ?thesis
    unfolding FAT_load_def Let_def entry_position fat_address [OF conjunct1 [OF r]] wpe_kbind
  proof (rule wpe_sector_read [OF s c], goal_cases)
    case 1
    then show ?case using r by simp
  next
    case (2 t)
    show ?case
      unfolding wpe_kbind [symmetric] using slot len 2 r by (auto simp: read_entry fat_entry_def link_of_def rebuffered_def)
  qed
qed

end

section \<open>Finding a free cluster\<close>

lemma find_index_map: "find_index P (map f xs) = find_index (P \<circ> f) xs"
  by (induction xs) auto

lemma blank_scan_sector:
  assumes "length buf = BUFFER_SIZE"
  shows "blank_scan (map ((*) 4) [0..<BUFFER_SIZE div 4]) buf c =
    kret (case find_index (\<lambda>i. entry_at buf (4 * i) = 0) [0..<128] of
            Some i \<Rightarrow> (True, c + of_nat i) | None \<Rightarrow> (False, c + 128))"
proof -
  have "blank_scan (map ((*) 4) [0..<BUFFER_SIZE div 4]) buf c =
    kret (case find_index (\<lambda>i. entry_at buf i = 0) (map ((*) 4) [0..<BUFFER_SIZE div 4]) of
            Some i \<Rightarrow> (True, c + of_nat i) | None \<Rightarrow> (False, c + of_nat (BUFFER_SIZE div 4)))"
    using assms by (subst blank_scan_spec) (auto simp: BUFFER_SIZE_def cong: option.case_cong)
  then show ?thesis by (simp add: find_index_map comp_def BUFFER_SIZE_def cong: option.case_cong)
qed

lemma first_hit:
  fixes b i c :: nat
  assumes "f c = z" "\<And>d. d < c \<Longrightarrow> f d \<noteq> z" "f (128 * b + i) = z" "\<forall>j<i. f (128 * b + j) \<noteq> z" "b \<le> c div 128"
  shows "c = 128 * b + i"
proof (rule antisym)
  show "c \<le> 128 * b + i" using assms(2) [of "128 * b + i"] assms(3) by linarith
  show "128 * b + i \<le> c"
  proof (rule ccontr)
    assume "\<not> 128 * b + i \<le> c"
    moreover have "128 * b \<le> c" using assms(5) by (simp add: less_eq_div_iff_mult_less_eq mult.commute)
    ultimately have "c - 128 * b < i" "128 * b + (c - 128 * b) = c" by simp_all
    then show False using assms(1,4) by metis
  qed
qed

context sector_device
begin

text \<open>The cluster found is the first zero entry of the table.\<close>

lemma blank_cluster_spec:
  assumes s: "I s" and r: "fat_ready f0 fat" and nf: "f0 + nf \<le> cap" "128 * nf \<le> 2 ^ 32"
    and c: "c < 128 * nf" "fat_entry (sec s) f0 c = 0" and first: "\<And>d. d < c \<Longrightarrow> fat_entry (sec s) f0 d \<noteq> 0"
  shows "wpe (FAT_blank_cluster D fat) (\<lambda>(found, fat') t. same s t \<and> found = of_nat c \<and> rebuffered fat fat') E s"
proof -
  define inv where "inv = (\<lambda>(b, cl :: u32, g) t. same s t \<and> b \<le> c div 128 \<and> cl = of_nat (128 * b) \<and> rebuffered fat g)"
  show ?thesis
    unfolding FAT_blank_cluster_def
  proof (rule wpe_kloop_measure [where I = inv and m = "\<lambda>a t. Suc c - fst a"])
    show "inv (0, 0, fat) s" using s r by (simp add: inv_def rebuffered_refl)
  next
    fix a t assume "inv a t"
    then obtain b g where a: "a = (b, of_nat (128 * b), g)" and t: "same s t" and b: "b \<le> c div 128"
      and g: "fat_ready f0 g" "rebuffered fat g"
      using r rebuffered_fields by (cases a) (fastforce simp: inv_def)
    have in_cap: "f0 + b < cap" using b nf(1) c(1) less_mult_imp_div_less [of c nf 128] by (simp add: mult.commute)
    have len: "length (sec t (f0 + b)) = BUFFER_SIZE" using sec_length t in_cap by blast
    have entry: "entry_at (sec t (f0 + b)) (4 * i) = fat_entry (sec s) f0 (128 * b + i)" if "i < 128" for i
      using that t in_cap by (simp add: fat_entry_def)
    show "wpe (blank_cluster_step D a) (\<lambda>r u. case r of
        Inl a' \<Rightarrow> inv a' u \<and> Suc c - fst a' < Suc c - fst a
      | Inr b \<Rightarrow> (case b of (found, fat') \<Rightarrow> \<lambda>t. same s t \<and> found = of_nat c \<and> rebuffered fat fat') u) E t"
      unfolding a blank_cluster_step_def prod.case of_nat_mult [symmetric] fat_address [OF conjunct1 [OF g(1)]] wpe_kbind
    proof (rule wpe_sector_read [OF conjunct1 [OF t] in_cap conjunct2 [OF g(1)]], goal_cases)
      case (1 u)
      have u: "same s u" using 1 t by simp
      have g': "rebuffered fat (g\<lparr>fat_buffer := sec t (f0 + b)\<rparr>)"
        using g(2) len by (auto intro: rebuffered_trans)
      show ?case
      proof (cases "find_index (\<lambda>i. entry_at (sec t (f0 + b)) (4 * i) = 0) [0..<128]")
        case None
        then have "\<forall>i<128. fat_entry (sec s) f0 (128 * b + i) \<noteq> 0"
          using entry by (auto simp: find_index_None)
        then have "c div 128 \<noteq> b" using c(2) by (metis div_mult_mod_eq mod_less_divisor mult.commute zero_less_numeral)
        then have "Suc b \<le> c div 128" "Suc b \<le> c" using b by auto
        then show ?thesis using None u g' len
          by (auto simp: blank_scan_sector inv_def algebra_simps)
      next
        case (Some i)
        then have i: "i < 128" "fat_entry (sec s) f0 (128 * b + i) = 0" "\<forall>j<i. fat_entry (sec s) f0 (128 * b + j) \<noteq> 0"
          using entry by (auto simp: find_index_Some)
        have "c = 128 * b + i" by (rule first_hit [OF c(2) first i(2,3)]) (use b in auto)
        then show ?thesis using Some u g' len by (auto simp: blank_scan_sector algebra_simps)
      qed
    qed
  qed
qed

end

section \<open>Cluster chains\<close>

text \<open>The entry of a cluster that is followed by the clusters \<^term>\<open>ys\<close>.\<close>

fun chain_link :: "u32 list \<Rightarrow> u32" where
  "chain_link [] = end_of_chain"
| "chain_link (y # ys) = y"

text \<open>
  \<^term>\<open>fat_chain E cs\<close>: the table \<^term>\<open>E\<close> links the clusters \<^term>\<open>cs\<close> in this order and ends after
  them.  Cluster 0 and the end mark are not clusters.
\<close>

definition fat_chain :: "(nat \<Rightarrow> u32) \<Rightarrow> u32 list \<Rightarrow> bool" where
  "fat_chain E cs \<longleftrightarrow> cs \<noteq> [] \<and> 0 \<notin> set cs \<and> end_of_chain \<notin> set cs \<and>
     (\<forall>xs x ys. cs = xs @ x # ys \<longrightarrow> E (unat x) = chain_link ys)"

lemma last_ne: "x \<notin> set xs \<Longrightarrow> xs \<noteq> [] \<Longrightarrow> last xs \<noteq> x"
  by (metis last_in_set)

lemma fat_chain_cong: "(\<And>c. c \<in> set cs \<Longrightarrow> E (unat c) = F (unat c)) \<Longrightarrow> fat_chain E cs = fat_chain F cs"
  unfolding fat_chain_def by (metis in_set_conv_decomp)

text \<open>The iterator standing on the last of the visited clusters \<^term>\<open>xs\<close> of the chain \<^term>\<open>xs @ ys\<close>.\<close>

definition fat_at :: "nat \<Rightarrow> FAT \<Rightarrow> u32 list \<Rightarrow> u32 list \<Rightarrow> bool" where
  "fat_at f0 fat xs ys \<longleftrightarrow> fat_ready f0 fat \<and>
     (if xs = [] then current_cluster fat = 0 \<and> ys \<noteq> [] \<and> start_cluster fat = hd ys
      else current_cluster fat = last xs \<and> next_cluster fat = link_of (chain_link ys))"

lemma fat_at_start: "length cs \<noteq> 0 \<Longrightarrow> fat_at f0 (FAT_new (hd cs) (sector_addr f0)) [] cs"
  by (simp add: fat_at_def FAT_new_def)

lemma fat_at_rebuffered: "rebuffered fat fat' \<Longrightarrow> fat_at f0 fat xs ys \<Longrightarrow> fat_at f0 fat' xs ys"
  by (auto simp: fat_at_def dest: rebuffered_fields)

lemma FAT_for_each_unfold:
  "FAT_for_each D act fat a = kbind (FAT_next D fat) (\<lambda>(item, fat'). case item of
     None \<Rightarrow> kret (a, fat') | Some f \<Rightarrow> kbind (act f a) (FAT_for_each D act fat'))"
  unfolding FAT_for_each_def
  by (subst kloop_unfold) (auto simp: fun_eq_iff kdefs split: sum.splits option.splits)

context sector_device
begin

lemma FAT_next_step:
  assumes s: "I s" and at: "fat_at f0 fat xs (y # ys)" and ch: "fat_chain E (xs @ y # ys)"
    and e: "fat_entry (sec s) f0 (unat y) = chain_link ys" and c: "f0 + unat y div 128 < cap"
  shows "wpe (FAT_next D fat) (\<lambda>(item, fat') t. same s t \<and> item = Some fat' \<and> fat_at f0 fat' (xs @ [y]) ys) F s"
proof -
  define fat1 where "fat1 = (if xs = [] then fat\<lparr>current_cluster := start_cluster fat\<rparr>
    else fat\<lparr>previous_cluster := current_cluster fat, current_cluster := y\<rparr>)"
  have y: "y \<noteq> 0" "y \<noteq> end_of_chain" and "xs \<noteq> [] \<Longrightarrow> last xs \<noteq> 0"
    using ch by (auto simp: fat_chain_def last_ne)
  then have eq: "FAT_next D fat = FAT_load D fat1"
    using at by (auto simp: FAT_next_def fat1_def fat_at_def link_of_def)
  have f1: "fat_ready f0 fat1" "current_cluster fat1 = y"
    using at by (auto simp: fat1_def fat_at_def)
  show ?thesis
    unfolding eq
    by (rule wpe_post [OF FAT_load_spec [OF s f1(1)]])
      (use f1 c e in \<open>auto simp: fat_at_def dest: rebuffered_fields\<close>)
qed

lemma FAT_next_end:
  assumes "fat_at f0 fat xs []" "0 \<notin> set xs"
  shows "FAT_next D fat = kret (None, fat)"
  using assms by (auto simp: FAT_next_def fat_at_def link_of_def last_ne split: if_splits)

text \<open>
  The loop rule for a chain: an invariant over the clusters already visited that says that the rest of
  the chain is still linked in the table.
\<close>

lemma wpe_for_each:
  assumes at: "fat_at f0 fat [] cs" and ch: "fat_chain E cs" and init: "J [] a s"
    and inv: "\<And>xs ys a s. cs = xs @ ys \<Longrightarrow> J xs a s \<Longrightarrow> I s"
    and entry: "\<And>xs y ys a s. cs = xs @ y # ys \<Longrightarrow> J xs a s \<Longrightarrow> fat_entry (sec s) f0 (unat y) = chain_link ys"
    and small: "\<And>c. c \<in> set cs \<Longrightarrow> f0 + unat c div 128 < cap"
    and stable: "\<And>xs a s t. J xs a s \<Longrightarrow> same s t \<Longrightarrow> J xs a t"
    and act: "\<And>xs y ys a s f. cs = xs @ y # ys \<Longrightarrow> J xs a s \<Longrightarrow> fat_at f0 f (xs @ [y]) ys \<Longrightarrow>
       current_cluster f = y \<Longrightarrow> wpe (act f a) (J (xs @ [y])) F s"
  shows "wpe (FAT_for_each D act fat a) (\<lambda>(b, fat') t. J cs b t \<and> fat_at f0 fat' cs []) F s"
proof -
  have "wpe (FAT_for_each D act g a) (\<lambda>(b, fat') t. J cs b t \<and> fat_at f0 fat' cs []) F s"
    if "cs = xs @ ys" "fat_at f0 g xs ys" "J xs a s" for xs ys g a s
    using that
  proof (induction ys arbitrary: xs g a s)
    case Nil
    then have "FAT_next D g = kret (None, g)" using ch FAT_next_end by (simp add: fat_chain_def)
    with Nil show ?case by (simp add: FAT_for_each_unfold [of D act g])
  next
    case (Cons y ys)
    have nxt: "wpe (FAT_next D g) (\<lambda>(item, g') t. same s t \<and> item = Some g' \<and> fat_at f0 g' (xs @ [y]) ys) F s"
      using Cons.prems ch inv entry small by (intro FAT_next_step [of s f0 g xs y ys]) auto
    show ?case
      unfolding FAT_for_each_unfold [of D act g] wpe_kbind
    proof (rule wpe_post [OF nxt], clarsimp)
      fix g' t assume t: "I t" "\<forall>j<cap. sec t j = sec s j" and g': "fat_at f0 g' (xs @ [y]) ys"
      have "J xs a t" using stable Cons.prems(3) t by blast
      then have "wpe (act g' a) (J (xs @ [y])) F t"
        using act [OF Cons.prems(1) _ g'] g' by (simp add: fat_at_def)
      then show "wpe (act g' a) (\<lambda>b. wpe (FAT_for_each D act g' b)
          (\<lambda>(b, fat') t. J cs b t \<and> fat_at f0 fat' cs []) F) F t"
        by (rule wpe_post) (use Cons.IH [OF _ g'] Cons.prems(1) in simp)
    qed
  qed
  from this [of "[]" cs fat a s] at init show ?thesis by simp
qed

end

end
