(* ===== verification/Fat_Dir.thy ===== *)
theory Fat_Dir
  imports Fat_Table
begin

text \<open>
  \<^verbatim>\<open>fat32/src/dir.rs\<close>: the directory iterator and the operations on a directory: looking names up,
  opening, creating and deleting entries.

  Iterating a directory is shown to list exactly its entries up to the end mark, in order and without
  the dot entries; looking a name up finds the first entry that carries it.
\<close>

section \<open>The directory iterator\<close>

datatype DirError = NoMatchDir | NoMatchFile | IllegalChar | DirHasExist | FileHasExist

record DirIter =
  it_fat :: FAT
  it_offset :: usize
  it_sector_offset :: nat
  it_index :: nat
  it_buffer :: "u8 list"

definition DirIter_new :: "'d sector_dev \<Rightarrow> FAT \<Rightarrow> BIOSParameterBlock \<Rightarrow> ('d, DirIter) kernel" where
  "DirIter_new D fat bpb =
     kbind (FAT_next D fat) (\<lambda>(_, fat').
       kret \<lparr>it_fat = fat', it_offset = bpb_offset bpb (current_cluster fat'), it_sector_offset = 0,
             it_index = 0, it_buffer = replicate BUFFER_SIZE 0\<rparr>)"

definition offset_value :: "DirIter \<Rightarrow> usize" where
  "offset_value it = it_offset it + of_nat (it_sector_offset it * BUFFER_SIZE)"

definition offset_index :: "'d sector_dev \<Rightarrow> BIOSParameterBlock \<Rightarrow> DirIter \<Rightarrow> ('d, DirIter) kernel" where
  "offset_index D bpb it =
     (let spc = sector_per_cluster_usize bpb;
          index = it_index it + 32;
          it1 = (if index mod BUFFER_SIZE = 0
                 then it\<lparr>it_sector_offset := it_sector_offset it + 1, it_index := 0\<rparr>
                 else it\<lparr>it_index := index\<rparr>)
      in kthen (kcheck (Explicit ''remainder with a divisor of zero'') (spc \<noteq> 0))
         (if it_sector_offset it1 mod spc = 0 \<and> it_sector_offset it1 \<noteq> 0 then
            if next_is_none (it_fat it1) then kret (it1\<lparr>it_sector_offset := spc\<rparr>)
            else kbind (FAT_next D (it_fat it1)) (\<lambda>(_, fat').
              kret (it1\<lparr>it_fat := fat', it_offset := bpb_offset bpb (current_cluster fat'), it_sector_offset := 0\<rparr>))
          else kret it1))"

definition is_end_sector :: "BIOSParameterBlock \<Rightarrow> DirIter \<Rightarrow> bool" where
  "is_end_sector bpb it \<longleftrightarrow> it_sector_offset it = sector_per_cluster_usize bpb"

definition is_end :: "BIOSParameterBlock \<Rightarrow> DirIter \<Rightarrow> ('d, bool) kernel" where
  "is_end bpb it =
     (if is_end_sector bpb it then kret True
      else kbind (kindex (it_buffer it) (it_index it)) (\<lambda>b. kret (b = 0)))"

definition is_special_item :: "DirIter \<Rightarrow> ('d, bool) kernel" where
  "is_special_item it =
     kbind (kindex (it_buffer it) (it_index it)) (\<lambda>x.
     if x \<noteq> 0x2E then kret False
     else kbind (kindex (it_buffer it) (it_index it + 1)) (\<lambda>y.
       if y = 0x20 then kret True
       else if y \<noteq> 0x2E then kret False
       else kbind (kindex (it_buffer it) (it_index it + 2)) (\<lambda>z. kret (z = 0x20))))"

definition get_part_buf :: "DirIter \<Rightarrow> ('d, u8 list) kernel" where
  "get_part_buf it = checked_slice (it_index it) (it_index it + 32) (it_buffer it)"

definition set_deleted :: "DirIter \<Rightarrow> ('d, DirIter) kernel" where
  "set_deleted it =
     kthen (kcheck OutOfBounds (it_index it < length (it_buffer it)))
       (kret (it\<lparr>it_buffer := (it_buffer it)[it_index it := 0xE5]\<rparr>))"

definition update_buffer :: "'d sector_dev \<Rightarrow> DirIter \<Rightarrow> ('d, DirIter) kernel" where
  "update_buffer D it =
     kbind (sector_read D (it_buffer it) (offset_value it) 1) (\<lambda>buf. kret (it\<lparr>it_buffer := buf\<rparr>))"

definition DirIter_update :: "'d sector_dev \<Rightarrow> DirIter \<Rightarrow> ('d, unit) kernel" where
  "DirIter_update D it = sector_write D (it_buffer it) (offset_value it) 1"

text \<open>Zeroing all sectors of a cluster; the library has this loop twice, in \<^verbatim>\<open>Dir\<close> and in \<^verbatim>\<open>DirIter\<close>.\<close>

definition clean_cluster_data :: "'d sector_dev \<Rightarrow> BIOSParameterBlock \<Rightarrow> u32 \<Rightarrow> ('d, unit) kernel" where
  "clean_cluster_data D bpb cluster =
     kfold (\<lambda>i _. sector_write D (replicate BUFFER_SIZE 0) (bpb_offset bpb cluster + of_nat (i * BUFFER_SIZE)) 1)
       [0..<sector_per_cluster_usize bpb] ()"

definition clean_new_cluster_data :: "'d sector_dev \<Rightarrow> BIOSParameterBlock \<Rightarrow> u32 \<Rightarrow> ('d, unit) kernel" where
  "clean_new_cluster_data D bpb cluster =
     kfold (\<lambda>i _. sector_write D (replicate BUFFER_SIZE 0) (bpb_offset bpb cluster + of_nat (i * BUFFER_SIZE)) 1)
       [0..<sector_per_cluster_usize bpb] ()"

text \<open>Appending a cluster to the directory, the first half of \<^verbatim>\<open>update_item\<close>.\<close>

definition append_cluster :: "'d sector_dev \<Rightarrow> BIOSParameterBlock \<Rightarrow> DirIter \<Rightarrow> ('d, DirIter) kernel" where
  "append_cluster D bpb it =
     kbind (FAT_blank_cluster D (it_fat it)) (\<lambda>(blank, fat).
     kthen (clean_new_cluster_data D bpb blank)
     (kbind (FAT_write D blank 0x0FFFFFFF fat) (\<lambda>fat.
      kbind (FAT_write D (current_cluster fat) blank fat) (\<lambda>fat.
      kbind (FAT_next D (FAT_previous fat)) (\<lambda>(_, fat).
      kbind (FAT_next D fat) (\<lambda>(_, fat).
        update_buffer D (it\<lparr>it_fat := fat, it_offset := bpb_offset bpb blank, it_index := 0,
                            it_sector_offset := 0\<rparr>)))))))"

definition update_item :: "'d sector_dev \<Rightarrow> BIOSParameterBlock \<Rightarrow> u8 list \<Rightarrow> DirIter \<Rightarrow> ('d, DirIter) kernel" where
  "update_item D bpb buf it =
     kbind (if is_end_sector bpb it then append_cluster D bpb it else kret it) (\<lambda>it.
     kbind (copy_from_slice (it_index it) (it_index it + 32) buf (it_buffer it)) (\<lambda>b.
       kret (it\<lparr>it_buffer := b\<rparr>)))"

definition DirIter_previous :: "'d sector_dev \<Rightarrow> BIOSParameterBlock \<Rightarrow> DirIter \<Rightarrow> ('d, DirIter) kernel" where
  "DirIter_previous D bpb it =
     (if it_index it = 0 \<and> it_sector_offset it \<noteq> 0 then
        update_buffer D (it\<lparr>it_index := BUFFER_SIZE - 32, it_sector_offset := it_sector_offset it - 1\<rparr>)
      else if it_index it \<noteq> 0 then kret (it\<lparr>it_index := usub (it_index it) 32\<rparr>)
      else
        update_buffer D (it\<lparr>it_sector_offset := usub (sector_per_cluster_usize bpb) 1,
                            it_index := BUFFER_SIZE - 32, it_fat := FAT_previous (it_fat it)\<rparr>))"

text \<open>\<^verbatim>\<open>next\<close> calls itself to step over a dot entry, in tail position: one round of that loop.\<close>

definition DirIter_next_step ::
  "'d sector_dev \<Rightarrow> BIOSParameterBlock \<Rightarrow> DirIter \<Rightarrow> ('d, DirIter + (DirectoryItem option \<times> DirIter)) kernel" where
  "DirIter_next_step D bpb it =
     kbind (if it_index it = 0 then update_buffer D it else kret it) (\<lambda>it.
     kbind (is_end bpb it) (\<lambda>stop.
     if stop then kret (Inr (None, it))
     else kbind (is_special_item it) (\<lambda>special.
       if special then kbind (offset_index D bpb it) (\<lambda>it. kret (Inl it))
       else kbind (get_part_buf it) (\<lambda>buf.
            kbind (di_from_buf buf) (\<lambda>di.
            kbind (offset_index D bpb it) (\<lambda>it. kret (Inr (Some di, it))))))))"

definition DirIter_next ::
  "'d sector_dev \<Rightarrow> BIOSParameterBlock \<Rightarrow> DirIter \<Rightarrow> ('d, DirectoryItem option \<times> DirIter) kernel" where
  "DirIter_next D bpb it = kloop (DirIter_next_step D bpb) it"

text \<open>\<^verbatim>\<open>Iterator::find\<close> on the directory iterator.\<close>

definition DirIter_find ::
  "'d sector_dev \<Rightarrow> BIOSParameterBlock \<Rightarrow> (DirectoryItem \<Rightarrow> ('d, bool) kernel) \<Rightarrow> DirIter \<Rightarrow>
   ('d, DirectoryItem option \<times> DirIter) kernel" where
  "DirIter_find D bpb P it =
     kloop (\<lambda>it. kbind (DirIter_next D bpb it) (\<lambda>(item, it').
       case item of
         None \<Rightarrow> kret (Inr (None, it'))
       | Some d \<Rightarrow> kbind (P d) (\<lambda>hit. kret (if hit then Inr (Some d, it') else Inl it')))) it"

section \<open>Looking names up\<close>

text \<open>Slices of a string at a byte position; a position inside a character panics.\<close>

definition str_from :: "nat \<Rightarrow> rstr \<Rightarrow> ('d, rstr) kernel" where
  "str_from i v = kbind (kunwrap (split_at_byte i v)) (\<lambda>(_, b). kret b)"

definition str_to :: "nat \<Rightarrow> rstr \<Rightarrow> ('d, rstr) kernel" where
  "str_to i v = kbind (kunwrap (split_at_byte i v)) (\<lambda>(a, _). kret a)"

definition lfn_head :: "rstr \<Rightarrow> nat \<Rightarrow> nat \<Rightarrow> DirectoryItem \<Rightarrow> ('d, bool) kernel" where
  "lfn_head val cnt index d =
     (if \<not> is_lfn d then kret False
      else kbind (kunwrap (di_count_of_name d)) (\<lambda>n.
        if n \<noteq> cnt then kret False
        else kbind (kunwrap (di_is_name_end d)) (\<lambda>e.
          if \<not> e then kret False
          else kbind (str_from index val) (\<lambda>v. kret (lfn_equal d v)))))"

fun find_lfn_rest ::
  "'d sector_dev \<Rightarrow> BIOSParameterBlock \<Rightarrow> rstr \<Rightarrow> nat list \<Rightarrow> nat \<Rightarrow> DirIter \<Rightarrow> ('d, bool \<times> DirIter) kernel" where
  "find_lfn_rest D bpb val [] index it = kret (True, it)"
| "find_lfn_rest D bpb val (c # cs) index it =
     kbind (str_to index val) (\<lambda>v.
     let index' = get_lfn_index v c
     in kbind (DirIter_next D bpb it) (\<lambda>(item, it').
        kbind (kunwrap item) (\<lambda>nxt.
        kbind (str_from index' v) (\<lambda>part.
          if lfn_equal nxt part then find_lfn_rest D bpb val cs index' it' else kret (False, it')))))"

definition find_lfn ::
  "'d sector_dev \<Rightarrow> BIOSParameterBlock \<Rightarrow> rstr \<Rightarrow> DirIter \<Rightarrow> ('d, DirectoryItem option \<times> DirIter) kernel" where
  "find_lfn D bpb val it =
     (let cnt = get_count_of_lfn val; index = get_lfn_index val cnt
      in kbind (DirIter_find D bpb (lfn_head val cnt index) it) (\<lambda>(result, it).
         kbind (if result \<noteq> None then find_lfn_rest D bpb val (rev [1..<cnt]) index it else kret (True, it))
           (\<lambda>(has_match, it). if has_match then DirIter_next D bpb it else kret (None, it))))"

definition exist_iter ::
  "'d sector_dev \<Rightarrow> BIOSParameterBlock \<Rightarrow> rstr \<Rightarrow> DirIter \<Rightarrow> ('d, DirectoryItem option \<times> DirIter) kernel" where
  "exist_iter D bpb val it =
     (case sfn_or_lfn val of
        SFN \<Rightarrow> DirIter_find D bpb (\<lambda>d. kret (sfn_equal d val)) it
      | LFN \<Rightarrow> find_lfn D bpb val it)"

definition Dir_iter :: "'d sector_dev \<Rightarrow> BIOSParameterBlock \<Rightarrow> Dir \<Rightarrow> ('d, DirIter) kernel" where
  "Dir_iter D bpb dir = DirIter_new D (dir_fat dir) bpb"

definition Dir_exist :: "'d sector_dev \<Rightarrow> BIOSParameterBlock \<Rightarrow> Dir \<Rightarrow> rstr \<Rightarrow> ('d, DirectoryItem option) kernel" where
  "Dir_exist D bpb dir val =
     kbind (DirIter_new D (dir_fat dir) bpb) (\<lambda>it.
     kbind (case sfn_or_lfn val of
              SFN \<Rightarrow> DirIter_find D bpb (\<lambda>d. kret (sfn_equal d val)) it
            | LFN \<Rightarrow> find_lfn D bpb val it) (\<lambda>(item, _). kret item))"

record File =
  file_dir_cluster :: u32
  file_detail :: DirectoryItem
  file_fat :: FAT

definition open_file_from_dentry ::
  "BIOSParameterBlock \<Rightarrow> Dir \<Rightarrow> DirectoryItem \<Rightarrow> ('d, DirError + File) kernel" where
  "open_file_from_dentry bpb dir di =
     (if is_file di then
        kbind (di_cluster di) (\<lambda>c.
        kbind (di_cluster (dir_detail dir)) (\<lambda>dc.
          kret (Inr \<lparr>file_dir_cluster = dc, file_detail = di, file_fat = FAT_new c (bpb_fat1 bpb)\<rparr>)))
      else kret (Inl NoMatchFile))"

definition open_file :: "'d sector_dev \<Rightarrow> BIOSParameterBlock \<Rightarrow> Dir \<Rightarrow> rstr \<Rightarrow> ('d, DirError + File) kernel" where
  "open_file D bpb dir file =
     (if is_illegal file then kret (Inl IllegalChar)
      else kbind (Dir_exist D bpb dir file) (\<lambda>item.
        case item of
          None \<Rightarrow> kret (Inl NoMatchFile)
        | Some di \<Rightarrow>
            if is_file di then
              kbind (di_cluster di) (\<lambda>c.
              kbind (di_cluster (dir_detail dir)) (\<lambda>dc.
                kret (Inr \<lparr>file_dir_cluster = dc, file_detail = di, file_fat = FAT_new c (bpb_fat1 bpb)\<rparr>)))
            else kret (Inl NoMatchFile)))"

definition Dir_cd :: "'d sector_dev \<Rightarrow> BIOSParameterBlock \<Rightarrow> Dir \<Rightarrow> rstr \<Rightarrow> ('d, DirError + Dir) kernel" where
  "Dir_cd D bpb dir name =
     (if is_illegal name then kret (Inl IllegalChar)
      else kbind (Dir_exist D bpb dir name) (\<lambda>item.
        case item of
          None \<Rightarrow> kret (Inl NoMatchDir)
        | Some di \<Rightarrow>
            if is_dir di then
              kbind (di_cluster di) (\<lambda>c.
                kret (Inr \<lparr>dir_detail = di, dir_fat = FAT_new c (bpb_fat1 bpb)\<rparr>))
            else kret (Inl NoMatchDir)))"

section \<open>Creating entries\<close>

definition write_directory_item ::
  "'d sector_dev \<Rightarrow> BIOSParameterBlock \<Rightarrow> Dir \<Rightarrow> DirectoryItem \<Rightarrow> ('d, unit) kernel" where
  "write_directory_item D bpb dir di =
     kbind (DirIter_new D (dir_fat dir) bpb) (\<lambda>it.
     kbind (DirIter_find D bpb (\<lambda>_. kret False) it) (\<lambda>(_, it).
     kbind (di_bytes di) (\<lambda>bytes.
     kbind (update_item D bpb bytes it) (\<lambda>it. DirIter_update D it))))"

definition add_dot_item :: "'d sector_dev \<Rightarrow> BIOSParameterBlock \<Rightarrow> Dir \<Rightarrow> u32 \<Rightarrow> ('d, unit) kernel" where
  "add_dot_item D bpb dir cluster =
     (let buffer = replicate BUFFER_SIZE 0; val = (replicate 11 0x20)[0 := 0x2E]
      in kbind (new_sfn_bytes cluster val OpDir) (\<lambda>di.
         kbind (di_bytes di) (\<lambda>bs.
         kbind (copy_from_slice 0 32 bs buffer) (\<lambda>buffer.
         kbind (di_cluster (dir_detail dir)) (\<lambda>parent.
         kbind (new_sfn_bytes parent (val[1 := 0x2E]) OpDir) (\<lambda>di.
         kbind (di_bytes di) (\<lambda>bs.
         kbind (copy_from_slice 32 64 bs buffer) (\<lambda>buffer.
           sector_write D buffer (bpb_offset bpb cluster) 1))))))))"

fun create_lfn_rest ::
  "'d sector_dev \<Rightarrow> BIOSParameterBlock \<Rightarrow> Dir \<Rightarrow> u8 \<Rightarrow> rstr \<Rightarrow> nat list \<Rightarrow> nat \<Rightarrow> ('d, unit) kernel" where
  "create_lfn_rest D bpb dir check_sum val [] lfn_index = kret ()"
| "create_lfn_rest D bpb dir check_sum val (c # cs) lfn_index =
     kbind (str_to lfn_index val) (\<lambda>v.
     let lfn_index' = get_lfn_index v c
     in kbind (str_from lfn_index' v) (\<lambda>part.
        kbind (new_lfn (of_nat c) check_sum part) (\<lambda>di.
        kthen (write_directory_item D bpb dir di)
          (create_lfn_rest D bpb dir check_sum val cs lfn_index'))))"

definition create_items ::
  "'d sector_dev \<Rightarrow> BIOSParameterBlock \<Rightarrow> Dir \<Rightarrow> rstr \<Rightarrow> OpType \<Rightarrow> u32 \<Rightarrow> ('d, unit) kernel" where
  "create_items D bpb dir val create_type blank =
     (case sfn_or_lfn val of
        SFN \<Rightarrow> kbind (new_sfn blank val create_type) (write_directory_item D bpb dir)
      | LFN \<Rightarrow>
          let sfn = as_bytes (lit ''unsupported'');
              check_sum = generate_checksum sfn;
              cnt = get_count_of_lfn val;
              lfn_index = get_lfn_index val cnt
          in kbind (str_from lfn_index val) (\<lambda>part.
             kbind (new_lfn (of_nat cnt OR push_bit 6 1) check_sum part) (\<lambda>di.
             kthen (write_directory_item D bpb dir di)
             (kthen (create_lfn_rest D bpb dir check_sum val (rev [1..<cnt]) lfn_index)
             (kbind (new_sfn_bytes blank sfn create_type) (write_directory_item D bpb dir))))))"

definition Dir_create ::
  "'d sector_dev \<Rightarrow> BIOSParameterBlock \<Rightarrow> Dir \<Rightarrow> rstr \<Rightarrow> OpType \<Rightarrow> ('d, (DirError + unit) \<times> Dir) kernel" where
  "Dir_create D bpb dir val create_type =
     (if is_illegal val then kret (Inl IllegalChar, dir)
      else kbind (Dir_exist D bpb dir val) (\<lambda>item.
        if item \<noteq> None then kret (Inl (case create_type of OpDir \<Rightarrow> DirHasExist | OpFile \<Rightarrow> FileHasExist), dir)
        else
          kbind (FAT_blank_cluster D (dir_fat dir)) (\<lambda>(blank, fat).
          kbind (FAT_write D blank 0x0FFFFFFF fat) (\<lambda>fat.
          let dir = dir\<lparr>dir_fat := fat\<rparr>
          in kthen (create_items D bpb dir val create_type blank)
             (kthen (case create_type of
                       OpDir \<Rightarrow> kthen (clean_cluster_data D bpb blank) (add_dot_item D bpb dir blank)
                     | OpFile \<Rightarrow> kret ())
               (kret (Inr (), dir)))))))"

definition create_dir ::
  "'d sector_dev \<Rightarrow> BIOSParameterBlock \<Rightarrow> Dir \<Rightarrow> rstr \<Rightarrow> ('d, (DirError + unit) \<times> Dir) kernel" where
  "create_dir D bpb self dir = Dir_create D bpb self dir OpDir"

definition create_file ::
  "'d sector_dev \<Rightarrow> BIOSParameterBlock \<Rightarrow> Dir \<Rightarrow> rstr \<Rightarrow> ('d, (DirError + unit) \<times> Dir) kernel" where
  "create_file D bpb self file = Dir_create D bpb self file OpFile"

section \<open>Deleting entries\<close>

text \<open>\<^verbatim>\<open>previous\<close>, \<^verbatim>\<open>set_deleted\<close> and \<^verbatim>\<open>update\<close>, the three calls that mark the entry just read.\<close>

definition mark_previous :: "'d sector_dev \<Rightarrow> BIOSParameterBlock \<Rightarrow> DirIter \<Rightarrow> ('d, DirIter) kernel" where
  "mark_previous D bpb it =
     kbind (DirIter_previous D bpb it) (\<lambda>it.
     kbind (set_deleted it) (\<lambda>it. kthen (DirIter_update D it) (kret it)))"

text \<open>
  The loop of \<^verbatim>\<open>delete_in_dir\<close>; it calls \<^verbatim>\<open>delete_in_dir\<close> on every sub-directory, which
  starts the same loop on a new iterator.
\<close>

partial_function (option) delete_loop ::
  "'d sector_dev \<Rightarrow> BIOSParameterBlock \<Rightarrow> DirIter \<Rightarrow> 'd \<Rightarrow> (unit \<times> 'd) res option" where
  "delete_loop D bpb it s =
     (case DirIter_next D bpb it s of
        Inl e \<Rightarrow> Some (Inl e)
      | Inr ((None, it1), s1) \<Rightarrow> Some (Inr ((), s1))
      | Inr ((Some d, it1), s1) \<Rightarrow>
          Option.bind
            (if is_dir d then
               case kbind (di_cluster d) (\<lambda>c. DirIter_new D (FAT_new c (bpb_fat1 bpb)) bpb) s1 of
                 Inl e \<Rightarrow> Some (Inl e)
               | Inr (sub, s2) \<Rightarrow> delete_loop D bpb sub s2
             else Some (Inr ((), s1)))
            (\<lambda>r. case r of
               Inl e \<Rightarrow> Some (Inl e)
             | Inr (_, s3) \<Rightarrow>
                 if is_deleted d then delete_loop D bpb it1 s3
                 else case kbind (mark_previous D bpb it1) (DirIter_next D bpb) s3 of
                   Inl e \<Rightarrow> Some (Inl e)
                 | Inr ((_, it4), s4) \<Rightarrow> delete_loop D bpb it4 s4))"

definition delete_in_dir :: "'d sector_dev \<Rightarrow> BIOSParameterBlock \<Rightarrow> u32 \<Rightarrow> ('d, unit) kernel" where
  "delete_in_dir D bpb cluster =
     kbind (DirIter_new D (FAT_new cluster (bpb_fat1 bpb)) bpb) (\<lambda>it. kpartial (delete_loop D bpb it))"

definition Dir_delete ::
  "'d sector_dev \<Rightarrow> BIOSParameterBlock \<Rightarrow> Dir \<Rightarrow> rstr \<Rightarrow> OpType \<Rightarrow> ('d, (DirError + unit) \<times> Dir) kernel" where
  "Dir_delete D bpb dir val delete_type =
     (if is_illegal val then kret (Inl IllegalChar, dir)
      else kbind (DirIter_new D (dir_fat dir) bpb) (\<lambda>it.
        kbind (exist_iter D bpb val it) (\<lambda>(item, it).
        case item of
          None \<Rightarrow> kret (Inl (case delete_type of OpDir \<Rightarrow> NoMatchDir | OpFile \<Rightarrow> NoMatchFile), dir)
        | Some di \<Rightarrow>
            if delete_type = OpDir \<and> is_file di then kret (Inl NoMatchDir, dir)
            else if delete_type = OpFile \<and> is_dir di then kret (Inl NoMatchFile, dir)
            else
              kthen (case delete_type of
                       OpDir \<Rightarrow> kbind (di_cluster di) (delete_in_dir D bpb)
                     | OpFile \<Rightarrow> kret ())
              (kbind (di_cluster di) (\<lambda>c.
               kbind (FAT_write D c 0 (dir_fat dir)) (\<lambda>fat.
               kbind (kfold (\<lambda>_ it. mark_previous D bpb it)
                        (case sfn_or_lfn val of SFN \<Rightarrow> [0] | LFN \<Rightarrow> [0..<get_count_of_lfn val + 1]) it) (\<lambda>_.
                 kret (Inr (), dir\<lparr>dir_fat := fat\<rparr>))))))))"

definition delete_dir ::
  "'d sector_dev \<Rightarrow> BIOSParameterBlock \<Rightarrow> Dir \<Rightarrow> rstr \<Rightarrow> ('d, (DirError + unit) \<times> Dir) kernel" where
  "delete_dir D bpb self dir = Dir_delete D bpb self dir OpDir"

definition delete_file ::
  "'d sector_dev \<Rightarrow> BIOSParameterBlock \<Rightarrow> Dir \<Rightarrow> rstr \<Rightarrow> ('d, (DirError + unit) \<times> Dir) kernel" where
  "delete_file D bpb self file = Dir_delete D bpb self file OpFile"

section \<open>Geometry of a volume\<close>

text \<open>
  The table starts at sector \<^term>\<open>reserved_sector\<close>, the clusters after all copies of the table.  A
  well-formed volume with \<^term>\<open>n\<close> clusters lies inside the device, and its table has an entry for
  each cluster.
\<close>

definition fat_sector :: "BIOSParameterBlock \<Rightarrow> nat" where
  "fat_sector bpb = unat (reserved_sector bpb)"

definition cluster_sector :: "BIOSParameterBlock \<Rightarrow> u32 \<Rightarrow> nat" where
  "cluster_sector bpb c = unat (reserved_sector bpb) + unat (num_fat bpb) * unat (sector_per_fat bpb)
     + (unat c - 2) * sector_per_cluster_usize bpb"

definition vol_ok :: "nat \<Rightarrow> BIOSParameterBlock \<Rightarrow> nat \<Rightarrow> bool" where
  "vol_ok cap bpb n \<longleftrightarrow> unat (byte_per_sector bpb) = BUFFER_SIZE \<and> sector_per_cluster_usize bpb \<noteq> 0 \<and>
     num_fat bpb \<noteq> 0 \<and> n + 2 \<le> 128 * unat (sector_per_fat bpb) \<and> 128 * unat (sector_per_fat bpb) \<le> 2 ^ 32 \<and>
     cluster_sector bpb 2 + n * sector_per_cluster_usize bpb < cap"

definition is_cluster :: "nat \<Rightarrow> u32 \<Rightarrow> bool" where
  "is_cluster n c \<longleftrightarrow> 2 \<le> unat c \<and> unat c < n + 2"

lemma ucast_usize: "(ucast w :: usize) = of_nat (unat w)"
  by simp

lemma bpb_offset_sector:
  assumes "vol_ok cap bpb n" "is_cluster n c"
  shows "bpb_offset bpb c = sector_addr (cluster_sector bpb c)"
proof -
  have "(of_nat (unat c) - 2 :: usize) = of_nat (unat c - 2)" using assms(2) by (simp add: is_cluster_def of_nat_diff)
  moreover have "(of_nat (unat (byte_per_sector bpb)) :: usize) = of_nat BUFFER_SIZE"
    using assms(1) by (simp add: vol_ok_def)
  ultimately show ?thesis
    unfolding bpb_offset_def sector_addr_def cluster_sector_def sector_per_cluster_usize_def ucast_usize
    by (simp only: of_nat_add of_nat_mult)
qed

lemma bpb_fat1_sector: "vol_ok cap bpb n \<Longrightarrow> bpb_fat1 bpb = sector_addr (fat_sector bpb)"
  unfolding bpb_fat1_def sector_addr_def fat_sector_def ucast_usize vol_ok_def by simp

lemma fat_before_clusters:
  assumes "vol_ok cap bpb n" "is_cluster n c"
  shows "fat_sector bpb + unat c div 128 < cluster_sector bpb d"
proof -
  have "unat c < 128 * unat (sector_per_fat bpb)" using assms by (auto simp: vol_ok_def is_cluster_def)
  then have "unat c div 128 < unat (sector_per_fat bpb)" by (simp add: less_mult_imp_div_less mult.commute)
  also have "\<dots> \<le> unat (num_fat bpb) * unat (sector_per_fat bpb)"
  proof -
    have "unat (num_fat bpb) \<noteq> 0" using assms(1) by (simp add: vol_ok_def)
    then show ?thesis by (cases "unat (num_fat bpb)") simp_all
  qed
  finally show ?thesis by (simp add: fat_sector_def cluster_sector_def)
qed

lemma cluster_inside:
  assumes "vol_ok cap bpb n" "is_cluster n c"
  shows "cluster_sector bpb c + sector_per_cluster_usize bpb < cap"
proof -
  have "unat c - 2 + 1 \<le> n" using assms(2) by (auto simp: is_cluster_def)
  then have "(unat c - 2 + 1) * sector_per_cluster_usize bpb \<le> n * sector_per_cluster_usize bpb"
    by (rule mult_right_mono) simp
  then show ?thesis using assms(1) by (simp add: vol_ok_def cluster_sector_def algebra_simps)
qed

lemma fat_inside: "vol_ok cap bpb n \<Longrightarrow> is_cluster n c \<Longrightarrow> fat_sector bpb + unat c div 128 < cap"
  using fat_before_clusters [of cap bpb n c c] cluster_inside [of cap bpb n c] by simp

lemma clusters_apart:
  assumes "is_cluster n c" "is_cluster n d" "c \<noteq> d" "r < sector_per_cluster_usize bpb" "q < sector_per_cluster_usize bpb"
  shows "cluster_sector bpb c + r \<noteq> cluster_sector bpb d + q"
proof
  let ?s = "sector_per_cluster_usize bpb"
  assume "cluster_sector bpb c + r = cluster_sector bpb d + q"
  then have e: "(unat c - 2) * ?s + r = (unat d - 2) * ?s + q" by (simp add: cluster_sector_def)
  have "unat c - 2 = ((unat c - 2) * ?s + r) div ?s" using assms(4) by simp
  also have "\<dots> = unat d - 2" unfolding e using assms(5) by simp
  finally have "unat c = unat d" using assms(1,2) unfolding is_cluster_def by linarith
  then show False using assms(3) unat_eqI by blast
qed

section \<open>The slots of a directory\<close>

lemma length_concat_uniform: "\<forall>x\<in>set xss. length x = n \<Longrightarrow> length (concat xss) = length xss * n"
  by (induction xss) auto

lemma concat_uniform_nth:
  "\<forall>x\<in>set xss. length x = n \<Longrightarrow> i < length xss \<Longrightarrow> j < n \<Longrightarrow> concat xss ! (i * n + j) = xss ! i ! j"
proof (induction xss arbitrary: i)
  case (Cons x xss)
  then show ?case by (cases i) (auto simp: nth_append add.assoc)
qed simp

lemma concat_uniform_update:
  "\<forall>x\<in>set xss. length x = n \<Longrightarrow> i < length xss \<Longrightarrow> j < n \<Longrightarrow>
   concat (xss[i := (xss ! i)[j := v]]) = (concat xss)[i * n + j := v]"
proof (induction xss arbitrary: i)
  case (Cons x xss)
  then show ?case by (cases i) (auto simp: list_update_append add.assoc)
qed simp

definition cluster_sectors :: "BIOSParameterBlock \<Rightarrow> u32 \<Rightarrow> nat list" where
  "cluster_sectors bpb c = [cluster_sector bpb c..<cluster_sector bpb c + sector_per_cluster_usize bpb]"

definition chain_sectors :: "BIOSParameterBlock \<Rightarrow> u32 list \<Rightarrow> nat list" where
  "chain_sectors bpb cs = concat (map (cluster_sectors bpb) cs)"

definition sector_slots :: "u8 list \<Rightarrow> u8 list list" where
  "sector_slots b = map (\<lambda>k. slice (32 * k) (32 * k + 32) b) [0..<16]"

definition dir_slots :: "(nat \<Rightarrow> u8 list) \<Rightarrow> nat list \<Rightarrow> u8 list list" where
  "dir_slots f js = concat (map (\<lambda>j. sector_slots (f j)) js)"

lemma length_chain_sectors: "length (chain_sectors bpb cs) = length cs * sector_per_cluster_usize bpb"
  unfolding chain_sectors_def by (subst length_concat_uniform) (auto simp: cluster_sectors_def)

lemma chain_sectors_nth:
  assumes "cs = xs @ c # ys" "r < sector_per_cluster_usize bpb"
  shows "chain_sectors bpb cs ! (length xs * sector_per_cluster_usize bpb + r) = cluster_sector bpb c + r"
  unfolding chain_sectors_def
  by (subst concat_uniform_nth) (use assms in \<open>auto simp: cluster_sectors_def nth_append\<close>)

lemma length_dir_slots [simp]: "length (dir_slots f js) = length js * 16"
  unfolding dir_slots_def by (subst length_concat_uniform) (auto simp: sector_slots_def)

lemma dir_slots_nth:
  "i < length js \<Longrightarrow> k < 16 \<Longrightarrow> dir_slots f js ! (i * 16 + k) = slice (32 * k) (32 * k + 32) (f (js ! i))"
  unfolding dir_slots_def by (subst concat_uniform_nth) (auto simp: sector_slots_def)

lemma dir_slots_cong: "(\<And>j. j \<in> set js \<Longrightarrow> f j = g j) \<Longrightarrow> dir_slots f js = dir_slots g js"
  by (simp add: dir_slots_def cong: map_cong)

lemma sector_slots_overwrite:
  assumes "length b = BUFFER_SIZE" "length bs = 32" "k < 16"
  shows "sector_slots (overwrite (32 * k) bs b) = (sector_slots b)[k := bs]"
proof (rule nth_equalityI)
  fix i assume "i < length (sector_slots (overwrite (32 * k) bs b))"
  then have i: "i < 16" by (simp add: sector_slots_def)
  show "sector_slots (overwrite (32 * k) bs b) ! i = (sector_slots b)[k := bs] ! i"
  proof (cases "i = k")
    case True
    then show ?thesis using assms by (simp add: sector_slots_def slice_overwrite_same BUFFER_SIZE_def)
  next
    case False
    then have "32 * i + 32 \<le> 32 * k \<or> 32 * k + 32 \<le> 32 * i" by linarith
    then show ?thesis
      using assms False i by (simp add: sector_slots_def slice_overwrite_other BUFFER_SIZE_def)
  qed
qed (simp add: sector_slots_def)

lemma dir_slots_write:
  assumes "distinct js" "i < length js" "k < 16" "length bs = 32" "length (f (js ! i)) = BUFFER_SIZE"
    and "g (js ! i) = overwrite (32 * k) bs (f (js ! i))" "\<And>j. j \<in> set js \<Longrightarrow> j \<noteq> js ! i \<Longrightarrow> g j = f j"
  shows "dir_slots g js = (dir_slots f js)[i * 16 + k := bs]"
proof -
  let ?xss = "map (\<lambda>j. sector_slots (f j)) js"
  have "map (\<lambda>j. sector_slots (g j)) js = ?xss[i := (?xss ! i)[k := bs]]"
  proof (rule nth_equalityI)
    fix m assume m: "m < length (map (\<lambda>j. sector_slots (g j)) js)"
    show "map (\<lambda>j. sector_slots (g j)) js ! m = ?xss[i := (?xss ! i)[k := bs]] ! m"
    proof (cases "m = i")
      case True
      then show ?thesis using assms m by (simp add: sector_slots_overwrite)
    next
      case False
      then have "js ! m \<noteq> js ! i" using assms(1,2) m by (simp add: nth_eq_iff_index_eq)
      then show ?thesis using assms m False by simp
    qed
  qed simp
  then show ?thesis
    using concat_uniform_update [of ?xss 16 i k bs] assms(2,3) by (simp add: dir_slots_def sector_slots_def)
qed

section \<open>What a directory lists\<close>

text \<open>Decoding 32 bytes never panics; the state plays no part.\<close>

definition decode :: "u8 list \<Rightarrow> DirectoryItem" where
  "decode b = (case di_from_buf b () of Inr (d, _) \<Rightarrow> d)"

lemma di_from_buf_decode: "length b = 32 \<Longrightarrow> di_from_buf b = kret (decode b)"
  by (rule ext) (simp add: decode_def di_from_buf_def Long_from_buf_def Short_from_buf_def read_le_u32_def
      checked_slice_def copy_from_slice_def kdefs Let_def split: ItemType.splits)

text \<open>The slots that hold \<^verbatim>\<open>.\<close> and \<^verbatim>\<open>..\<close>, and the items of a slot list up to its end mark.\<close>

definition dot_slot :: "u8 list \<Rightarrow> bool" where
  "dot_slot b \<longleftrightarrow> b ! 0 = 0x2E \<and> (b ! 1 = 0x20 \<or> b ! 1 = 0x2E \<and> b ! 2 = 0x20)"

fun listing :: "u8 list list \<Rightarrow> DirectoryItem list" where
  "listing [] = []"
| "listing (b # bs) = (if b ! 0 = 0 then [] else if dot_slot b then listing bs else decode b # listing bs)"

definition used_slots :: "u8 list list \<Rightarrow> nat" where
  "used_slots bs = length (takeWhile (\<lambda>b. b ! 0 \<noteq> 0) bs)"

lemma used_slots_le: "used_slots bs \<le> length bs"
  by (simp add: used_slots_def length_takeWhile_le)

lemma listing_append: "\<forall>b\<in>set xs. b ! 0 \<noteq> 0 \<Longrightarrow> listing (xs @ ys) = map decode (filter (\<lambda>b. \<not> dot_slot b) xs) @ listing ys"
  by (induction xs) auto

section \<open>The position of the iterator\<close>

text \<open>
  The iterator over the clusters \<^term>\<open>cs\<close> stands before slot \<^term>\<open>p\<close>.  Except at the start of a sector
  its buffer holds the sector the slot is in.  Behind the last slot it stays one sector past the last cluster.
\<close>

definition it_at ::
  "(nat \<Rightarrow> u8 list) \<Rightarrow> BIOSParameterBlock \<Rightarrow> u32 list \<Rightarrow> DirIter \<Rightarrow> nat \<Rightarrow> bool" where
  "it_at f bpb cs it p \<longleftrightarrow> length (it_buffer it) = BUFFER_SIZE \<and>
     (\<exists>xs c ys r k. cs = xs @ c # ys \<and> p = (length xs * sector_per_cluster_usize bpb + r) * 16 + k \<and>
        fat_at (fat_sector bpb) (it_fat it) (xs @ [c]) ys \<and>
        it_offset it = sector_addr (cluster_sector bpb c) \<and> it_sector_offset it = r \<and> it_index it = 32 * k \<and>
        (r < sector_per_cluster_usize bpb \<and> k < 16 \<and> (k \<noteq> 0 \<longrightarrow> it_buffer it = f (cluster_sector bpb c + r)) \<or>
         r = sector_per_cluster_usize bpb \<and> k = 0 \<and> ys = []))"

lemma it_at_cong:
  assumes "it_at f bpb cs it p" "\<And>j. j \<in> set (chain_sectors bpb cs) \<Longrightarrow> g j = f j"
  shows "it_at g bpb cs it p"
proof -
  obtain xs c ys r k where *: "cs = xs @ c # ys" "p = (length xs * sector_per_cluster_usize bpb + r) * 16 + k"
      "fat_at (fat_sector bpb) (it_fat it) (xs @ [c]) ys" "it_offset it = sector_addr (cluster_sector bpb c)"
      "it_sector_offset it = r" "it_index it = 32 * k"
      "r < sector_per_cluster_usize bpb \<and> k < 16 \<and> (k \<noteq> 0 \<longrightarrow> it_buffer it = f (cluster_sector bpb c + r)) \<or>
       r = sector_per_cluster_usize bpb \<and> k = 0 \<and> ys = []" and b: "length (it_buffer it) = BUFFER_SIZE"
    using assms(1) unfolding it_at_def by blast
  have "cluster_sector bpb c + r \<in> set (chain_sectors bpb cs)" if "r < sector_per_cluster_usize bpb"
    using that *(1) by (auto simp: chain_sectors_def cluster_sectors_def)
  then have "r < sector_per_cluster_usize bpb \<and> k < 16 \<and> (k \<noteq> 0 \<longrightarrow> it_buffer it = g (cluster_sector bpb c + r)) \<or>
       r = sector_per_cluster_usize bpb \<and> k = 0 \<and> ys = []"
    using *(7) assms(2) by auto
  with *(1-6) b show ?thesis unfolding it_at_def by blast
qed

text \<open>A directory of the volume: a chain of clusters the table links.\<close>

definition dir_ok :: "(nat \<Rightarrow> u8 list) \<Rightarrow> BIOSParameterBlock \<Rightarrow> nat \<Rightarrow> u32 list \<Rightarrow> bool" where
  "dir_ok f bpb n cs \<longleftrightarrow> fat_chain (fat_entry f (fat_sector bpb)) cs \<and> (\<forall>c\<in>set cs. is_cluster n c)"

lemma dir_ok_link:
  "dir_ok f bpb n (xs @ c # ys) \<Longrightarrow> fat_entry f (fat_sector bpb) (unat c) = chain_link ys"
  by (auto simp: dir_ok_def fat_chain_def)

lemma it_at_slot:
  assumes "it_at f bpb cs it p" "p < length (dir_slots f (chain_sectors bpb cs))"
    and "\<And>j. j \<in> set (chain_sectors bpb cs) \<Longrightarrow> length (f j) = BUFFER_SIZE"
  obtains xs c ys r k where "cs = xs @ c # ys" "p = (length xs * sector_per_cluster_usize bpb + r) * 16 + k"
    "fat_at (fat_sector bpb) (it_fat it) (xs @ [c]) ys" "it_offset it = sector_addr (cluster_sector bpb c)"
    "it_sector_offset it = r" "it_index it = 32 * k" "r < sector_per_cluster_usize bpb" "k < 16"
    "k \<noteq> 0 \<longrightarrow> it_buffer it = f (cluster_sector bpb c + r)" "length (it_buffer it) = BUFFER_SIZE"
    "cluster_sector bpb c + r \<in> set (chain_sectors bpb cs)"
    "dir_slots f (chain_sectors bpb cs) ! p = slice (32 * k) (32 * k + 32) (f (cluster_sector bpb c + r))"
proof -
  let ?s = "sector_per_cluster_usize bpb"
  obtain xs c ys r k where *: "cs = xs @ c # ys" "p = (length xs * ?s + r) * 16 + k"
      "fat_at (fat_sector bpb) (it_fat it) (xs @ [c]) ys" "it_offset it = sector_addr (cluster_sector bpb c)"
      "it_sector_offset it = r" "it_index it = 32 * k"
      "r < ?s \<and> k < 16 \<and> (k \<noteq> 0 \<longrightarrow> it_buffer it = f (cluster_sector bpb c + r)) \<or>
       r = ?s \<and> k = 0 \<and> ys = []" and b: "length (it_buffer it) = BUFFER_SIZE"
    using assms(1) unfolding it_at_def by blast
  have r: "r < ?s" "k < 16" "k \<noteq> 0 \<longrightarrow> it_buffer it = f (cluster_sector bpb c + r)"
    using *(1,2,7) assms(2) by (auto simp: length_chain_sectors algebra_simps)
  have i: "length xs * ?s + r < length (chain_sectors bpb cs)"
    using assms(2) *(2) by (simp add: length_chain_sectors)
  have nth: "chain_sectors bpb cs ! (length xs * ?s + r) = cluster_sector bpb c + r"
    by (rule chain_sectors_nth [OF *(1) r(1)])
  have "dir_slots f (chain_sectors bpb cs) ! p = slice (32 * k) (32 * k + 32) (f (cluster_sector bpb c + r))"
    unfolding *(2) using dir_slots_nth [OF i r(2)] nth by simp
  moreover have "cluster_sector bpb c + r \<in> set (chain_sectors bpb cs)" using nth i nth_mem by metis
  ultimately show thesis using that * r b by blast
qed

text \<open>The iterator with its sector loaded, at slot \<^term>\<open>k\<close> of sector \<^term>\<open>r\<close> of cluster \<^term>\<open>c\<close>.\<close>

definition it_on ::
  "(nat \<Rightarrow> u8 list) \<Rightarrow> BIOSParameterBlock \<Rightarrow> u32 list \<Rightarrow> DirIter \<Rightarrow> u32 list \<Rightarrow> u32 \<Rightarrow> u32 list \<Rightarrow> nat \<Rightarrow> nat \<Rightarrow> bool" where
  "it_on f bpb cs it xs c ys r k \<longleftrightarrow> cs = xs @ c # ys \<and> fat_at (fat_sector bpb) (it_fat it) (xs @ [c]) ys \<and>
     it_offset it = sector_addr (cluster_sector bpb c) \<and> it_sector_offset it = r \<and> it_index it = 32 * k \<and>
     r < sector_per_cluster_usize bpb \<and> k < 16 \<and> it_buffer it = f (cluster_sector bpb c + r) \<and>
     length (it_buffer it) = BUFFER_SIZE"

definition it_loaded :: "(nat \<Rightarrow> u8 list) \<Rightarrow> BIOSParameterBlock \<Rightarrow> u32 list \<Rightarrow> DirIter \<Rightarrow> nat \<Rightarrow> bool" where
  "it_loaded f bpb cs it p \<longleftrightarrow>
     (\<exists>xs c ys r k. it_on f bpb cs it xs c ys r k \<and> p = (length xs * sector_per_cluster_usize bpb + r) * 16 + k)"

lemma it_loaded_at: "it_loaded f bpb cs it p \<Longrightarrow> it_at f bpb cs it p"
  unfolding it_loaded_def it_on_def it_at_def by blast

lemma slot_position:
  assumes "cs = xs @ c # ys" "r < sector_per_cluster_usize bpb"
  shows "length xs * sector_per_cluster_usize bpb + r < length (chain_sectors bpb cs)"
proof -
  have "length xs * sector_per_cluster_usize bpb + r < Suc (length xs) * sector_per_cluster_usize bpb"
    using assms(2) by simp
  also have "\<dots> \<le> length cs * sector_per_cluster_usize bpb" by (rule mult_right_mono) (simp_all add: assms(1))
  finally show ?thesis by (simp add: length_chain_sectors)
qed

lemma it_on_position:
  assumes "it_on f bpb cs it xs c ys r k"
  shows "length xs * sector_per_cluster_usize bpb + r < length (chain_sectors bpb cs)"
    "chain_sectors bpb cs ! (length xs * sector_per_cluster_usize bpb + r) = cluster_sector bpb c + r"
    "dir_slots f (chain_sectors bpb cs) ! ((length xs * sector_per_cluster_usize bpb + r) * 16 + k) =
       slice (it_index it) (it_index it + 32) (it_buffer it)"
proof -
  let ?s = "sector_per_cluster_usize bpb"
  have o: "cs = xs @ c # ys" "r < ?s" "k < 16" "it_index it = 32 * k" "it_buffer it = f (cluster_sector bpb c + r)"
    using assms by (auto simp: it_on_def)
  show len: "length xs * ?s + r < length (chain_sectors bpb cs)" by (rule slot_position [OF o(1,2)])
  show nth: "chain_sectors bpb cs ! (length xs * ?s + r) = cluster_sector bpb c + r"
    by (rule chain_sectors_nth [OF o(1,2)])
  show "dir_slots f (chain_sectors bpb cs) ! ((length xs * ?s + r) * 16 + k) =
      slice (it_index it) (it_index it + 32) (it_buffer it)"
    using dir_slots_nth [OF len o(3)] nth o(4,5) by simp
qed

lemma it_loaded_less: "it_loaded f bpb cs it p \<Longrightarrow> p < length (dir_slots f (chain_sectors bpb cs))"
  using it_on_position(1) by (fastforce simp: it_loaded_def it_on_def)

lemma it_on_bytes:
  assumes "it_on f bpb cs it xs c ys r k"
  defines "b \<equiv> slice (it_index it) (it_index it + 32) (it_buffer it)"
  shows "is_end bpb it = kret (b ! 0 = 0)" "is_special_item it = kret (dot_slot b)" "get_part_buf it = kret b"
    "length b = 32"
proof -
  have i: "it_index it + 32 \<le> length (it_buffer it)" "it_sector_offset it \<noteq> sector_per_cluster_usize bpb"
    using assms(1) by (auto simp: it_on_def BUFFER_SIZE_def)
  then have b: "b ! j = it_buffer it ! (it_index it + j)" if "j < 32" for j
    using that by (simp add: b_def nth_slice)
  show "length b = 32" using i by (simp add: b_def)
  show "is_end bpb it = kret (b ! 0 = 0)"
    by (rule ext) (use i b [of 0] in \<open>simp add: is_end_def is_end_sector_def kdefs\<close>)
  show "is_special_item it = kret (dot_slot b)"
    by (rule ext) (use i b [of 0] b [of 1] b [of 2] in \<open>simp add: is_special_item_def dot_slot_def kdefs\<close>)
  show "get_part_buf it = kret b"
    by (rule ext) (use i in \<open>simp add: get_part_buf_def checked_slice_def b_def kdefs\<close>)
qed

context sector_device
begin

lemma chain_sectors_inside:
  "vol_ok cap bpb n \<Longrightarrow> \<forall>c\<in>set cs. is_cluster n c \<Longrightarrow> j \<in> set (chain_sectors bpb cs) \<Longrightarrow> j < cap"
  using cluster_inside [of cap bpb n] by (fastforce simp: chain_sectors_def cluster_sectors_def)

lemma it_at_endI:
  assumes "cs = xs @ [c]" "fat_at (fat_sector bpb) (it_fat it) cs []" "it_offset it = sector_addr (cluster_sector bpb c)"
    "it_sector_offset it = sector_per_cluster_usize bpb" "it_index it = 0" "length (it_buffer it) = BUFFER_SIZE"
  shows "it_at f bpb cs it (length (dir_slots f (chain_sectors bpb cs)))"
proof -
  have "length (dir_slots f (chain_sectors bpb cs)) =
      (length xs * sector_per_cluster_usize bpb + sector_per_cluster_usize bpb) * 16 + 0"
    using assms(1) by (simp add: length_chain_sectors)
  moreover have "cs = xs @ c # []" "it_index it = 32 * 0" using assms by simp_all
  ultimately show ?thesis unfolding it_at_def using assms by blast
qed

lemma load_slot:
  assumes vol: "vol_ok cap bpb n" and dir: "dir_ok (sec s) bpb n cs" and s: "I s" and t: "same s t"
    and at: "it_at (sec s) bpb cs it p" and p: "p < length (dir_slots (sec s) (chain_sectors bpb cs))"
  shows "wpe (if it_index it = 0 then update_buffer D it else kret it)
     (\<lambda>it' u. same s u \<and> it_loaded (sec s) bpb cs it' p) E t"
proof -
  have in_cap: "j < cap" if "j \<in> set (chain_sectors bpb cs)" for j
    using chain_sectors_inside [OF vol _ that] dir by (simp add: dir_ok_def)
  obtain xs c ys r k where *: "cs = xs @ c # ys" "p = (length xs * sector_per_cluster_usize bpb + r) * 16 + k"
    "fat_at (fat_sector bpb) (it_fat it) (xs @ [c]) ys" "it_offset it = sector_addr (cluster_sector bpb c)"
    "it_sector_offset it = r" "it_index it = 32 * k" "r < sector_per_cluster_usize bpb" "k < 16"
    "k \<noteq> 0 \<longrightarrow> it_buffer it = sec s (cluster_sector bpb c + r)" "length (it_buffer it) = BUFFER_SIZE"
    "cluster_sector bpb c + r \<in> set (chain_sectors bpb cs)"
    "dir_slots (sec s) (chain_sectors bpb cs) ! p = slice (32 * k) (32 * k + 32) (sec s (cluster_sector bpb c + r))"
    by (rule it_at_slot [OF at p sec_length [OF s in_cap]])
  have addr: "offset_value it = sector_addr (cluster_sector bpb c + r)"
    using *(4,5) by (simp only: offset_value_def sector_addr_add)
  have loaded: "it_loaded (sec s) bpb cs it' p" if "it' = it\<lparr>it_buffer := sec s (cluster_sector bpb c + r)\<rparr>" for it'
  proof -
    have "it_on (sec s) bpb cs it' xs c ys r k" using * that sec_length [OF s in_cap [OF *(11)]] by (simp add: it_on_def)
    then show ?thesis using *(2) unfolding it_loaded_def by blast
  qed
  show ?thesis
  proof (cases "it_index it = 0")
    case True
    have "sec t (cluster_sector bpb c + r) = sec s (cluster_sector bpb c + r)" using t in_cap [OF *(11)] by simp
    then show ?thesis using True t loaded in_cap [OF *(11)] *(10)
      by (auto simp: update_buffer_def addr intro!: wpe_sector_rw)
  next
    case False
    then have "it = it\<lparr>it_buffer := sec s (cluster_sector bpb c + r)\<rparr>" using *(6,9) by auto
    then show ?thesis using False t loaded by simp
  qed
qed

lemma load_end:
  assumes vol: "vol_ok cap bpb n" and dir: "dir_ok (sec s) bpb n cs" and t: "same s t"
    and at: "it_at (sec s) bpb cs it p" and p: "p = length (dir_slots (sec s) (chain_sectors bpb cs))"
  shows "wpe (if it_index it = 0 then update_buffer D it else kret it)
     (\<lambda>it' u. same s u \<and> it_at (sec s) bpb cs it' p \<and> is_end_sector bpb it') E t"
proof -
  let ?s = "sector_per_cluster_usize bpb"
  obtain xs c ys r k where *: "cs = xs @ c # ys" "p = (length xs * ?s + r) * 16 + k"
      "fat_at (fat_sector bpb) (it_fat it) (xs @ [c]) ys" "it_offset it = sector_addr (cluster_sector bpb c)"
      "it_sector_offset it = r" "it_index it = 32 * k"
      "r < ?s \<and> k < 16 \<and> (k \<noteq> 0 \<longrightarrow> it_buffer it = sec s (cluster_sector bpb c + r)) \<or> r = ?s \<and> k = 0 \<and> ys = []"
      and b: "length (it_buffer it) = BUFFER_SIZE"
    using at unfolding it_at_def by blast
  have "\<not> (r < ?s \<and> k < 16)" using slot_position [OF *(1), of r bpb] *(2) p by auto
  then have end_pos: "r = ?s" "k = 0" "ys = []" using *(7) by auto
  have c: "is_cluster n c" using dir *(1) by (simp add: dir_ok_def)
  have in_cap: "cluster_sector bpb c + r < cap" using cluster_inside [OF vol c] end_pos by simp
  have addr: "offset_value it = sector_addr (cluster_sector bpb c + r)"
    using *(4,5) by (simp only: offset_value_def sector_addr_add)
  have at': "it_at (sec s) bpb cs (it\<lparr>it_buffer := sec t (cluster_sector bpb c + r)\<rparr>) p"
    unfolding p by (rule it_at_endI) (use * end_pos sec_length [of t, OF _ in_cap] t in simp_all)
  show ?thesis
    using *(5,6) end_pos t at' in_cap b by (auto simp: update_buffer_def addr is_end_sector_def intro!: wpe_sector_rw)
qed

end

lemma it_at_slotI:
  assumes "cs = xs @ c # ys" "p = (length xs * sector_per_cluster_usize bpb + r) * 16 + k"
    "fat_at (fat_sector bpb) (it_fat it) (xs @ [c]) ys" "it_offset it = sector_addr (cluster_sector bpb c)"
    "it_sector_offset it = r" "it_index it = 32 * k" "r < sector_per_cluster_usize bpb" "k < 16"
    "k \<noteq> 0 \<longrightarrow> it_buffer it = f (cluster_sector bpb c + r)" "length (it_buffer it) = BUFFER_SIZE"
  shows "it_at f bpb cs it p"
  unfolding it_at_def using assms by blast

lemma next_is_none_at:
  "fat_at f0 fat (xs @ [c]) ys \<Longrightarrow> end_of_chain \<notin> set ys \<Longrightarrow> next_is_none fat \<longleftrightarrow> ys = []"
  by (cases ys) (auto simp: next_is_none_def fat_at_def link_of_def)

context sector_device
begin

lemma next_cluster_of_dir:
  assumes vol: "vol_ok cap bpb n" and dir: "dir_ok (sec s) bpb n (xs @ y # ys)" and t: "same s t"
    and at: "fat_at (fat_sector bpb) fat xs (y # ys)"
  shows "wpe (FAT_next D fat) (\<lambda>(item, fat') u. same s u \<and> fat_at (fat_sector bpb) fat' (xs @ [y]) ys \<and>
     bpb_offset bpb (current_cluster fat') = sector_addr (cluster_sector bpb y)) E t"
proof -
  let ?f = "fat_sector bpb"
  have y: "is_cluster n y" using dir by (simp add: dir_ok_def)
  have ch: "fat_chain (fat_entry (sec s) ?f) (xs @ y # ys)" using dir by (simp add: dir_ok_def)
  have c: "?f + unat y div 128 < cap" by (rule fat_inside [OF vol y])
  have e: "fat_entry (sec t) ?f (unat y) = chain_link ys"
    using dir_ok_link [OF dir] fat_entry_cong [of "sec t" ?f "unat y" "sec s"] t c by simp
  show ?thesis
    by (rule wpe_post [OF FAT_next_step [OF _ at ch e c]])
      (use t bpb_offset_sector [OF vol y] in \<open>auto simp: fat_at_def\<close>)
qed

lemma DirIter_new_spec:
  assumes vol: "vol_ok cap bpb n" and dir: "dir_ok (sec s) bpb n cs" and t: "same s t"
    and at: "fat_at (fat_sector bpb) fat [] cs"
  shows "wpe (DirIter_new D fat bpb) (\<lambda>it u. same s u \<and> it_at (sec s) bpb cs it 0) E t"
proof -
  obtain y ys where cs: "cs = y # ys" using at by (cases cs) (auto simp: fat_at_def)
  have dir': "dir_ok (sec s) bpb n ([] @ y # ys)" and at': "fat_at (fat_sector bpb) fat [] (y # ys)"
    using dir at cs by simp_all
  have spc: "0 < sector_per_cluster_usize bpb" using vol by (simp add: vol_ok_def)
  have first: "it_at (sec s) bpb cs \<lparr>it_fat = g, it_offset = sector_addr (cluster_sector bpb y),
      it_sector_offset = 0, it_index = 0, it_buffer = replicate BUFFER_SIZE 0\<rparr> 0"
    if "fat_at (fat_sector bpb) g [y] ys" for g
    by (rule it_at_slotI [of cs "[]" y ys 0 bpb 0 0]) (use cs that spc in simp_all)
  show ?thesis
    unfolding DirIter_new_def wpe_kbind
    by (rule wpe_post [OF next_cluster_of_dir [OF vol dir' t at']])
      (use first in auto)
qed

lemma offset_index_spec:
  assumes vol: "vol_ok cap bpb n" and dir: "dir_ok (sec s) bpb n cs" and t: "same s t"
    and on: "it_loaded (sec s) bpb cs it p"
  shows "wpe (offset_index D bpb it) (\<lambda>it' u. same s u \<and> it_at (sec s) bpb cs it' (Suc p)) E t"
proof -
  let ?s = "sector_per_cluster_usize bpb"
  obtain xs c ys r k where o: "it_on (sec s) bpb cs it xs c ys r k" and p: "p = (length xs * ?s + r) * 16 + k"
    using on by (auto simp: it_loaded_def)
  have cs: "cs = xs @ c # ys" and fat: "fat_at (fat_sector bpb) (it_fat it) (xs @ [c]) ys"
    and r: "r < ?s" and k: "k < 16" and rest: "it_offset it = sector_addr (cluster_sector bpb c)"
      "it_sector_offset it = r" "it_index it = 32 * k" "it_buffer it = sec s (cluster_sector bpb c + r)"
      "length (it_buffer it) = BUFFER_SIZE"
    using o by (auto simp: it_on_def)
  consider "k < 15" | "k = 15" "Suc r < ?s" | "k = 15" "Suc r = ?s" using r k by linarith
  then show ?thesis
  proof cases
    case 1
    have "it_at (sec s) bpb cs (it\<lparr>it_index := 32 * k + 32\<rparr>) (Suc p)"
      by (rule it_at_slotI [OF cs, of _ _ r "Suc k"]) (use fat rest r 1 p in simp_all)
    moreover have "(32 * k + 32) mod 512 \<noteq> 0" using 1 by simp
    ultimately show ?thesis using t r rest by (auto simp: offset_index_def BUFFER_SIZE_def Let_def)
  next
    case 2
    have "it_at (sec s) bpb cs (it\<lparr>it_sector_offset := Suc r, it_index := 0\<rparr>) (Suc p)"
      by (rule it_at_slotI [OF cs, of _ _ "Suc r" 0]) (use fat rest 2 p in simp_all)
    then show ?thesis using t rest 2 by (simp add: offset_index_def BUFFER_SIZE_def Let_def)
  next
    case 3
    have none: "next_is_none (it_fat it) \<longleftrightarrow> ys = []"
      by (rule next_is_none_at [OF fat]) (use dir cs in \<open>simp add: dir_ok_def fat_chain_def\<close>)
    show ?thesis
    proof (cases ys)
      case Nil
      have "it_at (sec s) bpb cs (it\<lparr>it_index := 0, it_sector_offset := ?s\<rparr>) (length (dir_slots (sec s) (chain_sectors bpb cs)))"
        by (rule it_at_endI [of cs xs c]) (use fat rest cs Nil in simp_all)
      moreover have "length (dir_slots (sec s) (chain_sectors bpb cs)) = Suc p"
        using p 3(1) cs Nil by (simp add: length_chain_sectors 3(2) [symmetric])
      ultimately show ?thesis using t rest 3 none Nil by (simp add: offset_index_def BUFFER_SIZE_def Let_def)
    next
      case (Cons y zs)
      have dir': "dir_ok (sec s) bpb n ((xs @ [c]) @ y # zs)" using dir cs Cons by simp
      have at': "fat_at (fat_sector bpb) (it_fat it) (xs @ [c]) (y # zs)" using fat Cons by simp
      have p': "Suc p = (length (xs @ [c]) * ?s + 0) * 16 + 0" using p 3(1) by (simp add: 3(2) [symmetric])
      have cs': "cs = (xs @ [c]) @ y # zs" using cs Cons by simp
      have "wpe (FAT_next D (it_fat it)) (\<lambda>a u. same s u \<and>
          it_at (sec s) bpb cs (it\<lparr>it_index := 0, it_fat := snd a,
            it_offset := bpb_offset bpb (current_cluster (snd a)), it_sector_offset := 0\<rparr>) (Suc p)) E t"
        by (rule wpe_post [OF next_cluster_of_dir [OF vol dir' t at']])
          (use rest r in \<open>auto intro!: it_at_slotI [OF cs' p']\<close>)
      then show ?thesis using rest 3 none Cons
        by (simp add: offset_index_def BUFFER_SIZE_def Let_def case_prod_beta)
    qed
  qed
qed

end

lemma used_slots_cases:
  assumes "p \<le> used_slots bs"
  shows "p < used_slots bs \<Longrightarrow> p < length bs \<and> bs ! p ! 0 \<noteq> 0"
    "p = used_slots bs \<Longrightarrow> p < length bs \<Longrightarrow> bs ! p ! 0 = 0"
proof -
  let ?P = "\<lambda>b. b ! 0 \<noteq> 0"
  show "p < length bs \<and> bs ! p ! 0 \<noteq> 0" if "p < used_slots bs"
  proof -
    have "takeWhile ?P bs ! p = bs ! p" "takeWhile ?P bs ! p \<in> set (takeWhile ?P bs)"
      using that nth_mem [of p "takeWhile ?P bs"] by (simp_all add: used_slots_def takeWhile_nth)
    then show ?thesis
      using that set_takeWhileD [of "bs ! p" ?P bs] length_takeWhile_le [of ?P bs] by (auto simp: used_slots_def)
  qed
  show "bs ! p ! 0 = 0" if "p = used_slots bs" "p < length bs"
    using nth_length_takeWhile [of ?P bs] that by (simp add: used_slots_def)
qed

lemma listing_drop:
  assumes "p \<le> used_slots bs"
  shows "listing (drop p bs) = (if p = used_slots bs then []
    else if dot_slot (bs ! p) then listing (drop (Suc p) bs) else decode (bs ! p) # listing (drop (Suc p) bs))"
proof (cases "p < length bs")
  case True
  then have "drop p bs = bs ! p # drop (Suc p) bs" by (simp add: Cons_nth_drop_Suc)
  then show ?thesis using used_slots_cases [OF assms] assms True by auto
next
  case False
  then show ?thesis using assms used_slots_le [of bs] by simp
qed

text \<open>The iterator at the end mark, with the sector of the mark loaded, or behind the last slot.\<close>

definition it_stop :: "(nat \<Rightarrow> u8 list) \<Rightarrow> BIOSParameterBlock \<Rightarrow> u32 list \<Rightarrow> DirIter \<Rightarrow> bool" where
  "it_stop f bpb cs it \<longleftrightarrow>
     (let slots = dir_slots f (chain_sectors bpb cs); e = used_slots slots
      in if e < length slots then it_loaded f bpb cs it e else it_at f bpb cs it e \<and> is_end_sector bpb it)"

context sector_device
begin

lemma next_step_spec:
  assumes vol: "vol_ok cap bpb n" and dir: "dir_ok (sec s) bpb n cs" and s: "I s" and t: "same s t"
    and at: "it_at (sec s) bpb cs it p"
  defines "slots \<equiv> dir_slots (sec s) (chain_sectors bpb cs)"
  assumes p: "p \<le> used_slots slots"
  shows "wpe (DirIter_next_step D bpb it) (\<lambda>r u. same s u \<and> (case r of
      Inl it' \<Rightarrow> p < used_slots slots \<and> dot_slot (slots ! p) \<and> it_at (sec s) bpb cs it' (Suc p)
    | Inr (None, it') \<Rightarrow> p = used_slots slots \<and> it_stop (sec s) bpb cs it'
    | Inr (Some d, it') \<Rightarrow> p < used_slots slots \<and> \<not> dot_slot (slots ! p) \<and> d = decode (slots ! p) \<and>
        it_at (sec s) bpb cs it' (Suc p))) E t"
proof (cases "p < length slots")
  case True
  show ?thesis
    unfolding DirIter_next_step_def wpe_kbind
  proof (rule wpe_post [OF load_slot [OF vol dir s t at]], goal_cases)
    case 1
    then show ?case using True by (simp add: slots_def)
  next
    case (2 it' u)
    then obtain xs c ys r k where o: "it_on (sec s) bpb cs it' xs c ys r k"
        and pp: "p = (length xs * sector_per_cluster_usize bpb + r) * 16 + k"
      by (auto simp: it_loaded_def)
    define b where "b = slice (it_index it') (it_index it' + 32) (it_buffer it')"
    have b: "slots ! p = b" using it_on_position(3) [OF o] by (simp add: slots_def pp b_def)
    note bytes = it_on_bytes [OF o, folded b_def]
    have zero: "b ! 0 = 0 \<longleftrightarrow> p = used_slots slots" using used_slots_cases [OF p] True b le_neq_implies_less [OF p] by auto
    have stop: "it_stop (sec s) bpb cs it'" if "p = used_slots slots"
      using 2 that True by (simp add: it_stop_def slots_def Let_def)
    have move: "wpe (offset_index D bpb it') (\<lambda>i v. same s v \<and> it_at (sec s) bpb cs i (Suc p)) E u"
      using offset_index_spec [OF vol dir] 2 by blast
    show ?case
      using move zero stop p 2
      by (auto simp: bytes di_from_buf_decode b elim!: wpe_post)
  qed
next
  case False
  then have e: "p = length slots" "used_slots slots = p" using p used_slots_le [of slots] by simp_all
  then show ?thesis
    unfolding DirIter_next_step_def wpe_kbind
    by (intro wpe_post [OF load_end [OF vol dir t at]])
      (auto simp: is_end_def it_stop_def slots_def Let_def)
qed

lemma DirIter_next_unfold:
  "DirIter_next D bpb it = kbind (DirIter_next_step D bpb it) (\<lambda>r. case r of Inl it' \<Rightarrow> DirIter_next D bpb it' | Inr b \<Rightarrow> kret b)"
  unfolding DirIter_next_def by (rule kloop_unfold)

lemma DirIter_next_spec:
  assumes vol: "vol_ok cap bpb n" and dir: "dir_ok (sec s) bpb n cs" and s: "I s" and t: "same s t"
    and at: "it_at (sec s) bpb cs it p"
  defines "slots \<equiv> dir_slots (sec s) (chain_sectors bpb cs)"
  assumes p: "p \<le> used_slots slots"
  shows "wpe (DirIter_next D bpb it) (\<lambda>(item, it') u. same s u \<and> (case item of
      None \<Rightarrow> listing (drop p slots) = [] \<and> it_stop (sec s) bpb cs it'
    | Some d \<Rightarrow> \<exists>q. p \<le> q \<and> q < used_slots slots \<and> it_at (sec s) bpb cs it' (Suc q) \<and> d = decode (slots ! q) \<and>
        listing (drop p slots) = d # listing (drop (Suc q) slots))) E t"
  using t at p
proof (induction "length slots - p" arbitrary: p it t rule: less_induct)
  case less
  show ?case
    unfolding DirIter_next_unfold [of bpb it] wpe_kbind
  proof (rule wpe_post [OF next_step_spec [OF vol dir s less.prems(1,2) less.prems(3) [unfolded slots_def]]],
      fold slots_def, goal_cases)
    case (1 r u)
    have u: "same s u" using 1 by simp
    show ?case
    proof (cases r)
      case (Inl it')
      then have q: "p < used_slots slots" "dot_slot (slots ! p)" "it_at (sec s) bpb cs it' (Suc p)" using 1 by auto
      have "listing (drop p slots) = listing (drop (Suc p) slots)" using listing_drop [OF less.prems(3)] q by simp
      moreover have "length slots - Suc p < length slots - p" using q(1) used_slots_le [of slots] by linarith
      ultimately show ?thesis
        using less.hyps [OF _ u q(3)] q(1) Inl by (auto elim!: wpe_post split: option.splits) (metis Suc_leD)
    next
      case (Inr x)
      then show ?thesis
        using 1 listing_drop [OF less.prems(3)] less.prems by (cases x) (auto split: option.splits)
    qed
  qed
qed

lemma DirIter_find_spec:
  assumes vol: "vol_ok cap bpb n" and dir: "dir_ok (sec s) bpb n cs" and s: "I s" and t: "same s t"
    and at: "it_at (sec s) bpb cs it p"
  defines "slots \<equiv> dir_slots (sec s) (chain_sectors bpb cs)"
  assumes p: "p \<le> used_slots slots"
  shows "wpe (DirIter_find D bpb (\<lambda>d. kret (P d)) it) (\<lambda>(item, it') u. same s u \<and>
      item = find P (listing (drop p slots)) \<and>
      (case item of None \<Rightarrow> it_stop (sec s) bpb cs it'
       | Some d \<Rightarrow> \<exists>q. p \<le> q \<and> q < used_slots slots \<and> it_at (sec s) bpb cs it' (Suc q) \<and> d = decode (slots ! q))) E t"
  using t at p
proof (induction "length slots - p" arbitrary: p it t rule: less_induct)
  case less
  show ?case
    unfolding DirIter_find_def kloop_unfold [of _ it] wpe_kbind
  proof (rule wpe_post [OF DirIter_next_spec [OF vol dir s less.prems(1,2) less.prems(3) [unfolded slots_def]]],
      fold slots_def, goal_cases)
    case (1 r u)
    show ?case
    proof (cases r)
      case (Pair item it')
      show ?thesis
      proof (cases item)
        case None
        then show ?thesis using 1 Pair by simp
      next
        case (Some d)
        then obtain q where q: "p \<le> q" "q < used_slots slots" "it_at (sec s) bpb cs it' (Suc q)" "d = decode (slots ! q)"
            "listing (drop p slots) = d # listing (drop (Suc q) slots)" and u: "same s u"
          using 1 Pair by auto
        have "length slots - Suc q < length slots - p" using q(1,2) used_slots_le [of slots] by linarith
        from less.hyps [OF this u q(3)] q(2)
        have "wpe (DirIter_find D bpb (\<lambda>d. kret (P d)) it') (\<lambda>(item, it') u. same s u \<and>
            item = find P (listing (drop (Suc q) slots)) \<and>
            (case item of None \<Rightarrow> it_stop (sec s) bpb cs it'
             | Some d \<Rightarrow> \<exists>q. p \<le> q \<and> q < used_slots slots \<and> it_at (sec s) bpb cs it' (Suc q) \<and> d = decode (slots ! q))) E u"
          using q(1) by (auto elim!: wpe_post split: option.splits) (metis Suc_leD le_trans)
        then show ?thesis using q u Pair Some
          by (auto simp: DirIter_find_def split: if_splits)
      qed
    qed
  qed
qed

end

section \<open>Adding an entry\<close>

text \<open>The clusters of a chain are distinct: the table determines what follows a cluster.\<close>

lemma chain_tail_unique:
  assumes "fat_chain E cs" "cs = xs @ x # ys" "cs = xs' @ x # ys'"
  shows "ys = ys'"
  using assms(2,3)
proof (induction ys arbitrary: xs xs' x ys')
  case Nil
  then have "chain_link ys' = chain_link []" using assms(1) unfolding fat_chain_def by metis
  moreover have "end_of_chain \<notin> set (xs' @ x # ys')" using assms(1) Nil(2) by (simp add: fat_chain_def)
  ultimately show ?case by (cases ys') auto
next
  case (Cons y ys)
  then have l: "chain_link ys' = y" using assms(1) unfolding fat_chain_def by (metis chain_link.simps(2))
  have "y \<noteq> end_of_chain" using assms(1) Cons.prems(1) by (auto simp: fat_chain_def)
  then obtain zs where zs: "ys' = y # zs" using l by (cases ys') auto
  have "ys = zs" using Cons.IH [of "xs @ [x]" y "xs' @ [x]" zs] Cons.prems zs by simp
  then show ?case using zs by simp
qed

lemma fat_chain_distinct: "fat_chain E cs \<Longrightarrow> distinct cs"
proof (rule ccontr)
  assume ch: "fat_chain E cs" and "\<not> distinct cs"
  then obtain xs y ys zs where "cs = xs @ [y] @ ys @ [y] @ zs" using not_distinct_decomp by blast
  then have "ys @ y # zs = zs" using chain_tail_unique [OF ch, of xs y "ys @ y # zs" "xs @ y # ys" zs] by simp
  then show False by (metis append_is_Nil_conv length_append length_Cons add_Suc_right less_not_refl2 trans_less_add2 lessI less_Suc_eq_le le_add2 not_less_eq)
qed

lemma distinct_chain_sectors:
  assumes "distinct cs" "\<forall>c\<in>set cs. is_cluster n c"
  shows "distinct (chain_sectors bpb cs)"
  using assms
proof (induction cs)
  case (Cons c cs)
  have "set (cluster_sectors bpb c) \<inter> set (chain_sectors bpb cs) = {}"
  proof (rule ccontr)
    assume "set (cluster_sectors bpb c) \<inter> set (chain_sectors bpb cs) \<noteq> {}"
    then obtain j d where "j \<in> set (cluster_sectors bpb c)" "d \<in> set cs" "j \<in> set (cluster_sectors bpb d)"
      by (auto simp: chain_sectors_def)
    then obtain r q where "cluster_sector bpb c + r = cluster_sector bpb d + q" "r < sector_per_cluster_usize bpb"
        "q < sector_per_cluster_usize bpb" "c \<noteq> d"
      using Cons.prems(1) unfolding cluster_sectors_def set_upt atLeastLessThan_iff
      by (metis add_less_cancel_left distinct.simps(2) le_add_diff_inverse)
    then show False using clusters_apart [of n c d r bpb q] Cons.prems(2) \<open>d \<in> set cs\<close> by auto
  qed
  then show ?case using Cons by (simp add: chain_sectors_def cluster_sectors_def)
qed (simp add: chain_sectors_def)

lemma dir_ok_distinct: "dir_ok f bpb n cs \<Longrightarrow> distinct (chain_sectors bpb cs)"
  using fat_chain_distinct distinct_chain_sectors by (auto simp: dir_ok_def)

lemma fat_not_in_chain:
  assumes "vol_ok cap bpb n" "is_cluster n c" "j \<in> set (chain_sectors bpb cs)"
  shows "j \<noteq> fat_sector bpb + unat c div 128"
proof -
  obtain d where "cluster_sector bpb d \<le> j" using assms(3) by (auto simp: chain_sectors_def cluster_sectors_def)
  then show ?thesis using fat_before_clusters [OF assms(1,2), of d] by simp
qed

context sector_device
begin

lemma dir_sectors_inside: "vol_ok cap bpb n \<Longrightarrow> dir_ok f bpb n cs \<Longrightarrow> j \<in> set (chain_sectors bpb cs) \<Longrightarrow> j < cap"
  using chain_sectors_inside by (auto simp: dir_ok_def)

lemma put_item:
  assumes vol: "vol_ok cap bpb n" and dir: "dir_ok (sec s) bpb n cs" and s: "I s" and t: "same s t"
    and on: "it_loaded (sec s) bpb cs it p" and bs: "length bs = 32"
  defines "js \<equiv> chain_sectors bpb cs"
  shows "wpe (kbind (update_item D bpb bs it) (DirIter_update D)) (\<lambda>_ u. I u \<and>
     (\<forall>j<cap. j \<notin> set js \<longrightarrow> sec u j = sec s j) \<and>
     dir_slots (sec u) js = (dir_slots (sec s) js)[p := bs]) E t"
proof -
  let ?s = "sector_per_cluster_usize bpb"
  obtain xs c ys r k where o: "it_on (sec s) bpb cs it xs c ys r k" and p: "p = (length xs * ?s + r) * 16 + k"
    using on by (auto simp: it_loaded_def)
  have f: "it_offset it = sector_addr (cluster_sector bpb c)" "it_sector_offset it = r" "it_index it = 32 * k"
      "r < ?s" "k < 16" "it_buffer it = sec s (cluster_sector bpb c + r)" "length (it_buffer it) = BUFFER_SIZE"
    using o by (auto simp: it_on_def)
  let ?j = "cluster_sector bpb c + r" and ?b = "overwrite (32 * k) bs (sec s (cluster_sector bpb c + r))"
  have j: "length xs * ?s + r < length js" "js ! (length xs * ?s + r) = ?j"
    using it_on_position [OF o] by (simp_all add: js_def)
  then have "?j \<in> set js" using nth_mem by metis
  then have in_cap: "?j < cap" using dir_sectors_inside [OF vol dir] by (simp add: js_def)
  have addr: "offset_value (it\<lparr>it_buffer := b\<rparr>) = sector_addr ?j" for b
    using f(1,2) sector_addr_add [of "cluster_sector bpb c" r] by (simp add: offset_value_def)
  have len: "length ?b = BUFFER_SIZE" using f bs by (simp add: length_overwrite BUFFER_SIZE_def)
  have upd: "update_item D bpb bs it = kret (it\<lparr>it_buffer := ?b\<rparr>)"
    by (rule ext) (use f bs in \<open>simp add: update_item_def is_end_sector_def copy_from_slice_def kdefs BUFFER_SIZE_def\<close>)
  have slots: "dir_slots (sec u) js = (dir_slots (sec s) js)[p := bs]"
    if "\<And>j. j < cap \<Longrightarrow> sec u j = (if j = ?j then ?b else sec t j)" for u
    unfolding p
  proof (rule dir_slots_write [OF _ j(1) f(5) bs])
    show "distinct js" using dir_ok_distinct [OF dir] by (simp add: js_def)
    show "length (sec s (js ! (length xs * ?s + r))) = BUFFER_SIZE" using f j(2) by simp
    show "sec u (js ! (length xs * ?s + r)) = overwrite (32 * k) bs (sec s (js ! (length xs * ?s + r)))"
      using that [OF in_cap] j(2) by simp
    show "sec u i = sec s i" if i: "i \<in> set js" "i \<noteq> js ! (length xs * ?s + r)" for i
    proof -
      have "i < cap" using dir_sectors_inside [OF vol dir] i(1) by (simp add: js_def)
      then show ?thesis using \<open>\<And>j. j < cap \<Longrightarrow> sec u j = (if j = ?j then ?b else sec t j)\<close> i(2) j(2) t by simp
    qed
  qed
  show ?thesis
    unfolding upd kbind_kret DirIter_update_def addr
    by (rule wpe_sector_write) (use t in_cap len slots \<open>?j \<in> set js\<close> in auto)
qed

lemma write_directory_item_spec:
  assumes vol: "vol_ok cap bpb n" and dir: "dir_ok (sec s) bpb n cs" and s: "I s"
    and at: "fat_at (fat_sector bpb) (dir_fat d) [] cs"
  defines "js \<equiv> chain_sectors bpb cs"
  assumes room: "used_slots (dir_slots (sec s) js) < length (dir_slots (sec s) js)"
    and bytes: "di_bytes di = (kret bs :: ('d, u8 list) kernel)" "length bs = 32"
  shows "wpe (write_directory_item D bpb d di) (\<lambda>_ t. I t \<and> (\<forall>j<cap. j \<notin> set js \<longrightarrow> sec t j = sec s j) \<and>
     dir_slots (sec t) js = (dir_slots (sec s) js)[used_slots (dir_slots (sec s) js) := bs]) E s"
proof -
  let ?slots = "dir_slots (sec s) js" and ?e = "used_slots (dir_slots (sec s) js)"
  have refl: "same s s" using s by simp
  show ?thesis
    unfolding write_directory_item_def wpe_kbind
  proof (rule wpe_post [OF DirIter_new_spec [OF vol dir refl at]], goal_cases)
    case (1 it t)
    then have t: "same s t" and it: "it_at (sec s) bpb cs it 0" by auto
    show ?case
    proof (rule wpe_post [OF DirIter_find_spec [OF vol dir s t it le0, where P = "\<lambda>_. False"]], goal_cases)
      case (1 r u)
      have "find (\<lambda>_. False) xs = None" for xs :: "DirectoryItem list" by (simp add: find_None_iff)
      with 1 have u: "same s u" and stop: "it_stop (sec s) bpb cs (snd r)" by (auto simp: find_None_iff split: option.splits)
      have "it_loaded (sec s) bpb cs (snd r) ?e" using stop room by (simp add: it_stop_def js_def Let_def)
      from put_item [OF vol dir s u this bytes(2)] show ?case
        by (simp add: case_prod_beta bytes(1) js_def)
    qed
  qed
qed

end

section \<open>Looking up and creating short names\<close>

lemma used_slots_split:
  "bs = take (used_slots bs) bs @ drop (used_slots bs) bs" "\<forall>b\<in>set (take (used_slots bs) bs). b ! 0 \<noteq> 0"
proof -
  have "take (used_slots bs) bs = takeWhile (\<lambda>b. b ! 0 \<noteq> 0) bs"
    unfolding used_slots_def by (rule takeWhile_eq_take [symmetric])
  then show "\<forall>b\<in>set (take (used_slots bs) bs). b ! 0 \<noteq> 0" by (auto dest: set_takeWhileD)
qed simp

lemma listing_add:
  assumes e: "used_slots bs < length bs" and b: "b ! 0 \<noteq> 0" "\<not> dot_slot b"
    and clean: "Suc (used_slots bs) < length bs \<Longrightarrow> bs ! Suc (used_slots bs) ! 0 = 0"
  shows "listing (bs[used_slots bs := b]) = listing bs @ [decode b]"
proof -
  let ?e = "used_slots bs"
  have d: "drop ?e bs = bs ! ?e # drop (Suc ?e) bs" using e by (simp add: Cons_nth_drop_Suc)
  have "listing (drop (Suc ?e) bs) = []"
  proof (cases "Suc ?e < length bs")
    case True
    then have "drop (Suc ?e) bs = bs ! Suc ?e # drop (Suc (Suc ?e)) bs" by (simp add: Cons_nth_drop_Suc)
    then show ?thesis using clean True by simp
  qed simp
  moreover have "bs[?e := b] = take ?e bs @ b # drop (Suc ?e) bs" using e by (rule upd_conv_take_nth_drop)
  moreover have "listing bs = map decode (filter (\<lambda>b. \<not> dot_slot b) (take ?e bs)) @ listing (drop ?e bs)"
    using listing_append [OF used_slots_split(2), of bs "drop ?e bs"] by simp
  moreover have "listing (drop ?e bs) = []" using d used_slots_cases(2) [of ?e bs] e by simp
  ultimately show ?thesis using listing_append [OF used_slots_split(2), of bs "b # drop (Suc ?e) bs"] b by simp
qed

text \<open>The bytes of a new short entry are neither an end mark nor a dot entry.\<close>

lemma new_entry_bytes:
  assumes "wf_short it" "si_name it ! 0 = (if hd val = dot then 0x20 else of_nat (ascii_upper (hd val)))"
    "is_ascii val" "val \<noteq> []" "hd val \<noteq> 0" "t = ItFile \<or> t = ItDir"
  defines "b \<equiv> Short_bytes it t"
  shows "length b = 32" "b ! 0 \<noteq> 0" "\<not> dot_slot b" "decode b = \<lparr>di_item_type = t, di_sfn = Some it, di_lfn = None\<rparr>"
proof -
  have h: "hd val < 0x80" using assms(3,4) by (cases val) (auto simp: is_ascii_def)
  have "ascii_upper (hd val) < 0x80" using h by (rule ascii_upper_small)
  then have u: "unat (si_name it ! 0) = (if hd val = dot then 0x20 else ascii_upper (hd val))"
    using assms(2) by (simp add: unat_of_nat_u8)
  have neq: "si_name it ! 0 \<noteq> 0xE5 \<and> si_name it ! 0 \<noteq> 0 \<and> si_name it ! 0 \<noteq> 0x2E"
  proof -
    have "unat (si_name it ! 0) \<noteq> 0xE5 \<and> unat (si_name it ! 0) \<noteq> 0 \<and> unat (si_name it ! 0) \<noteq> 0x2E"
      unfolding u using h assms(5) by (auto simp: ascii_upper_def dot_def)
    then show ?thesis by auto
  qed
  have b0: "b ! 0 = si_name it ! 0"
    using assms(1,6) by (auto simp: b_def Short_bytes_def Let_def wf_short_def put_cluster_def entry_simps)
  show "length b = 32" unfolding b_def by (rule length_Short_bytes [OF assms(1)])
  show "b ! 0 \<noteq> 0" "\<not> dot_slot b" using b0 neq by (auto simp: dot_slot_def)
  show "decode b = \<lparr>di_item_type = t, di_sfn = Some it, di_lfn = None\<rparr>"
    using neq assms(6) by (auto simp: decode_def b_def di_from_short_bytes [OF assms(1)] kret_def)
qed

context sector_device
begin

lemma Dir_exist_sfn:
  assumes vol: "vol_ok cap bpb n" and dir: "dir_ok (sec s) bpb n cs" and s: "I s"
    and at: "fat_at (fat_sector bpb) (dir_fat d) [] cs" and sfn: "sfn_or_lfn val = SFN"
  shows "wpe (Dir_exist D bpb d val) (\<lambda>item t. same s t \<and>
     item = find (\<lambda>x. sfn_equal x val) (listing (dir_slots (sec s) (chain_sectors bpb cs)))) E s"
proof -
  have refl: "same s s" using s by simp
  show ?thesis
    unfolding Dir_exist_def sfn NameType.case wpe_kbind
  proof (rule wpe_post [OF DirIter_new_spec [OF vol dir refl at]], goal_cases)
    case (1 it t)
    then have t: "same s t" and it: "it_at (sec s) bpb cs it 0" by auto
    show ?case
      by (rule wpe_post [OF DirIter_find_spec [OF vol dir s t it le0, where P = "\<lambda>x. sfn_equal x val"]]) auto
  qed
qed

text \<open>Reserving the first free cluster keeps the directory as it is.\<close>

lemma reserve_cluster:
  assumes vol: "vol_ok cap bpb n" and dir: "dir_ok (sec s) bpb n cs" and s: "I s" and t: "same s t"
    and at: "fat_at (fat_sector bpb) fat [] cs" and c: "is_cluster n c" "fat_entry (sec s) (fat_sector bpb) (unat c) = 0"
    and first: "\<And>x. x < unat c \<Longrightarrow> fat_entry (sec s) (fat_sector bpb) x \<noteq> 0"
  shows "wpe (kbind (FAT_blank_cluster D fat) (\<lambda>(b, fat). kbind (FAT_write D b v fat) (\<lambda>fat. kret (b, fat))))
     (\<lambda>(b, fat') u. b = c \<and> I u \<and> fat_at (fat_sector bpb) fat' [] cs \<and> dir_ok (sec u) bpb n cs \<and>
       fat_entry (sec u) (fat_sector bpb) (unat c) = v \<and>
       (\<forall>x. is_cluster n x \<and> x \<noteq> c \<longrightarrow> fat_entry (sec u) (fat_sector bpb) (unat x) = fat_entry (sec s) (fat_sector bpb) (unat x)) \<and>
       (\<forall>j<cap. j \<noteq> fat_sector bpb + unat c div 128 \<longrightarrow> sec u j = sec s j)) E t"
proof -
  let ?f = "fat_sector bpb"
  let ?nf = "unat c div 128 + 1"
  have in_cap: "?f + unat c div 128 < cap" by (rule fat_inside [OF vol c(1)])
  have "unat c < 128 * unat (sector_per_fat bpb)" using vol c(1) by (auto simp: vol_ok_def is_cluster_def)
  then have nf: "?f + ?nf \<le> cap" "128 * ?nf \<le> 2 ^ 32" "unat c < 128 * ?nf"
    using in_cap unat_lt_32 [of c] by (auto simp: less_eq_Suc_le)
  have e: "fat_entry (sec t) ?f x = fat_entry (sec s) ?f x" if "x \<le> unat c" for x
    using fat_entry_cong [of "sec t" ?f x "sec s"] t in_cap div_le_mono [OF that, of 128] by simp
  have r: "fat_ready ?f fat" using at by (simp add: fat_at_def)
  have notin: "c \<notin> set cs"
  proof
    assume "c \<in> set cs"
    then obtain xs ys where cs: "cs = xs @ c # ys" by (meson split_list)
    then have "chain_link ys = 0" using dir_ok_link [of "sec s" bpb n xs c ys] dir c(2) by simp
    then show False using dir cs by (cases ys) (auto simp: dir_ok_def fat_chain_def)
  qed
  show ?thesis
    unfolding wpe_kbind
  proof (rule wpe_post [OF blank_cluster_spec [of t fat ?f ?nf "unat c"]], goal_cases)
    case (8 res u)
    obtain g where res: "res = (c, g)" and u: "same s u" and g: "rebuffered fat g"
      using 8 t by (cases res) auto
    have g': "fat_ready ?f g" "fat_at ?f g [] cs" using g r at fat_at_rebuffered rebuffered_fields by auto
    show ?case
      unfolding res prod.case wpe_kbind
    proof (rule wpe_post [OF FAT_write_spec [OF _ g'(1) in_cap]], goal_cases)
      case 1
      show ?case using u by simp
    next
      case (2 h w)
      have sw: "sec w j = sec s j" if "j < cap" "j \<noteq> ?f + unat c div 128" for j using 2 u that by simp
      have ent: "fat_entry (sec w) ?f x = (if x = unat c then v else fat_entry (sec s) ?f x)"
        if "?f + x div 128 < cap" for x
        by (rule fat_entry_update [where k = cap])
          (use 2 u in_cap sw that sec_length [of u, OF _ in_cap] in auto)
      have inc: "?f + unat x div 128 < cap" if "is_cluster n x" for x by (rule fat_inside [OF vol that])
      have "dir_ok (sec w) bpb n cs"
      proof -
        have "fat_entry (sec w) ?f (unat x) = fat_entry (sec s) ?f (unat x)" if "x \<in> set cs" for x
          using ent [OF inc] that dir notin unat_eqI [of x c] by (auto simp: dir_ok_def)
        then show ?thesis using dir fat_chain_cong [of cs "fat_entry (sec w) ?f"] by (simp add: dir_ok_def)
      qed
      moreover have "\<forall>x. is_cluster n x \<and> x \<noteq> c \<longrightarrow> fat_entry (sec w) ?f (unat x) = fat_entry (sec s) ?f (unat x)"
        using ent [OF inc] unat_eqI by auto
      ultimately show ?case
        using 2 ent [OF in_cap] sw g'(2) fat_at_rebuffered by auto
    qed
  qed (use t r nf e c(2) first in auto)
qed

end

lemma Dir_create_split:
  "Dir_create D bpb dir val OpFile =
     (if is_illegal val then kret (Inl IllegalChar, dir)
      else kbind (Dir_exist D bpb dir val) (\<lambda>item.
        if item \<noteq> None then kret (Inl FileHasExist, dir)
        else kbind (kbind (FAT_blank_cluster D (dir_fat dir)) (\<lambda>(b, fat).
                      kbind (FAT_write D b 0x0FFFFFFF fat) (\<lambda>fat. kret (b, fat))))
          (\<lambda>(b, fat). kthen (create_items D bpb (dir\<lparr>dir_fat := fat\<rparr>) val OpFile b)
             (kret (Inr (), dir\<lparr>dir_fat := fat\<rparr>)))))"
  by (auto simp: Dir_create_def Let_def fun_eq_iff kdefs split: sum.splits)

text \<open>What creating a short-named file leaves behind.\<close>

definition file_created ::
  "(nat \<Rightarrow> u8 list) \<Rightarrow> (nat \<Rightarrow> u8 list) \<Rightarrow> BIOSParameterBlock \<Rightarrow> u32 list \<Rightarrow> rstr \<Rightarrow> u32 \<Rightarrow> bool" where
  "file_created f g bpb cs val c \<longleftrightarrow>
     fat_entry g (fat_sector bpb) (unat c) = end_of_chain \<and>
     (\<exists>item. listing (dir_slots g (chain_sectors bpb cs)) = listing (dir_slots f (chain_sectors bpb cs)) @ [item] \<and>
        is_file item \<and> map_option si_cluster (di_sfn item) = Some c \<and>
        (\<forall>v. sfn_equal item v \<longleftrightarrow> eq_ignore_ascii_case v val))"

context sector_device
begin

lemma create_items_sfn:
  assumes vol: "vol_ok cap bpb n" and dir: "dir_ok (sec s) bpb n cs" and s: "I s"
    and at: "fat_at (fat_sector bpb) (dir_fat d) [] cs"
    and sfn: "sfn_or_lfn val = SFN" "val \<noteq> []" "last val \<noteq> dot" "hd val \<noteq> 0"
  defines "slots \<equiv> dir_slots (sec s) (chain_sectors bpb cs)"
  assumes room: "used_slots slots < length slots"
    and clean: "Suc (used_slots slots) < length slots \<Longrightarrow> slots ! Suc (used_slots slots) ! 0 = 0"
  shows "wpe (create_items D bpb d val OpFile c) (\<lambda>_ t. I t \<and>
     (\<forall>j<cap. j \<notin> set (chain_sectors bpb cs) \<longrightarrow> sec t j = sec s j) \<and>
     (\<exists>item. listing (dir_slots (sec t) (chain_sectors bpb cs)) = listing slots @ [item] \<and>
        is_file item \<and> map_option si_cluster (di_sfn item) = Some c \<and>
        (\<forall>v. sfn_equal item v \<longleftrightarrow> eq_ignore_ascii_case v val))) E s"
proof -
  obtain it where it: "new_sfn c val OpFile s = Inr (\<lparr>di_item_type = ItFile, di_sfn = Some it, di_lfn = None\<rparr>, s)"
      "si_cluster it = c" "wf_short it"
      "\<And>v. sfn_equal \<lparr>di_item_type = ItFile, di_sfn = Some it, di_lfn = None\<rparr> v \<longleftrightarrow> eq_ignore_ascii_case v val"
      "si_name it ! 0 = (if hd val = dot then 0x20 else of_nat (ascii_upper (hd val)))"
    using new_sfn_item [OF sfn(1-3), of c OpFile s] by auto
  let ?di = "\<lparr>di_item_type = ItFile, di_sfn = Some it, di_lfn = None\<rparr>" and ?b = "Short_bytes it ItFile"
  have asc: "is_ascii val" using sfn(1) by (auto simp: sfn_or_lfn_def split: prod.splits if_splits)
  note b = new_entry_bytes [OF it(3,5) asc sfn(2,4), of ItFile, simplified]
  have bytes: "di_bytes ?di = kret ?b" by (simp add: di_bytes_def)
  have run: "wpe (create_items D bpb d val OpFile c) Q E s = wpe (write_directory_item D bpb d ?di) Q E s" for Q
    using it(1) by (simp add: create_items_def sfn(1) wpe_def kbind_def)
  show ?thesis
    unfolding run
    by (rule wpe_post [OF write_directory_item_spec [OF vol dir s at room [unfolded slots_def] bytes b(1)]])
      (use listing_add [OF room b(2,3) clean] b(4) it(2,4) in \<open>auto simp: slots_def is_file_def\<close>)
qed

lemma create_file_sfn:
  assumes vol: "vol_ok cap bpb n" and dir: "dir_ok (sec s) bpb n cs" and s: "I s"
    and at: "fat_at (fat_sector bpb) (dir_fat d) [] cs"
    and sfn: "sfn_or_lfn val = SFN" "val \<noteq> []" "last val \<noteq> dot" "hd val \<noteq> 0" "\<not> is_illegal val"
  defines "slots \<equiv> dir_slots (sec s) (chain_sectors bpb cs)"
  assumes fresh: "\<forall>x\<in>set (listing slots). \<not> sfn_equal x val"
    and room: "used_slots slots < length slots"
    and clean: "Suc (used_slots slots) < length slots \<Longrightarrow> slots ! Suc (used_slots slots) ! 0 = 0"
    and c: "is_cluster n c" "fat_entry (sec s) (fat_sector bpb) (unat c) = 0"
    and first: "\<And>x. x < unat c \<Longrightarrow> fat_entry (sec s) (fat_sector bpb) x \<noteq> 0"
  shows "wpe (create_file D bpb d val) (\<lambda>(r, d') t. r = Inr () \<and> I t \<and> file_created (sec s) (sec t) bpb cs val c \<and>
     dir_ok (sec t) bpb n cs \<and> fat_at (fat_sector bpb) (dir_fat d') [] cs \<and>
     (\<forall>x. is_cluster n x \<and> x \<noteq> c \<longrightarrow> fat_entry (sec t) (fat_sector bpb) (unat x) = fat_entry (sec s) (fat_sector bpb) (unat x)) \<and>
     (\<forall>j<cap. j \<notin> set (chain_sectors bpb cs) \<longrightarrow> j \<noteq> fat_sector bpb + unat c div 128 \<longrightarrow> sec t j = sec s j)) E s"
proof -
  let ?js = "chain_sectors bpb cs" and ?f = "fat_sector bpb"
  have none: "find (\<lambda>x. sfn_equal x val) (listing slots) = None" using fresh by (auto simp: find_None_iff)
  show ?thesis
    unfolding create_file_def Dir_create_split if_not_P [OF sfn(5)]
  proof (rule wpe_bindI [OF Dir_exist_sfn [OF vol dir s at sfn(1)]], goal_cases)
    case (1 item t)
    then have item: "item = None" and t: "same s t" using none by (auto simp: slots_def)
    have "wpe (kbind (kbind (FAT_blank_cluster D (dir_fat d)) (\<lambda>(b, fat).
                  kbind (FAT_write D b 0x0FFFFFFF fat) (\<lambda>fat. kret (b, fat))))
        (\<lambda>(b, fat). kthen (create_items D bpb (d\<lparr>dir_fat := fat\<rparr>) val OpFile b) (kret (Inr (), d\<lparr>dir_fat := fat\<rparr>))))
      (\<lambda>(r, d') t. r = Inr () \<and> I t \<and> file_created (sec s) (sec t) bpb cs val c \<and>
     dir_ok (sec t) bpb n cs \<and> fat_at (fat_sector bpb) (dir_fat d') [] cs \<and>
     (\<forall>x. is_cluster n x \<and> x \<noteq> c \<longrightarrow> fat_entry (sec t) (fat_sector bpb) (unat x) = fat_entry (sec s) (fat_sector bpb) (unat x)) \<and>
     (\<forall>j<cap. j \<notin> set (chain_sectors bpb cs) \<longrightarrow> j \<noteq> fat_sector bpb + unat c div 128 \<longrightarrow> sec t j = sec s j)) E t"
    proof (rule wpe_bindI [OF reserve_cluster [OF vol dir s t at c first]], goal_cases)
      case 1
      then show ?case by simp
    next
      case (2 r u)
      obtain fat where r: "r = (c, fat)" using 2 by (cases r) auto
      have u: "I u" "dir_ok (sec u) bpb n cs" "fat_at ?f (dir_fat (d\<lparr>dir_fat := fat\<rparr>)) [] cs"
          "fat_entry (sec u) ?f (unat c) = end_of_chain"
          "\<And>x. is_cluster n x \<Longrightarrow> x \<noteq> c \<Longrightarrow> fat_entry (sec u) ?f (unat x) = fat_entry (sec s) ?f (unat x)"
          "\<And>j. j < cap \<Longrightarrow> j \<noteq> ?f + unat c div 128 \<Longrightarrow> sec u j = sec s j"
        using 2 r by auto
      have slots: "dir_slots (sec u) ?js = slots"
        unfolding slots_def
        by (rule dir_slots_cong) (use u(6) dir_sectors_inside [OF vol dir] fat_not_in_chain [OF vol c(1)] in blast)
      note create = create_items_sfn [OF vol u(2,1,3) sfn(1-4), unfolded slots, OF room clean, of c]
      have keep: "fat_entry (sec v) ?f (unat x) = fat_entry (sec u) ?f (unat x)"
        if "\<forall>j<cap. j \<notin> set ?js \<longrightarrow> sec v j = sec u j" "is_cluster n x" for v x
        using fat_entry_cong [of "sec v" ?f "unat x" "sec u"] that fat_inside [OF vol that(2)]
          fat_not_in_chain [OF vol that(2)] by blast
      have dirv: "dir_ok (sec v) bpb n cs" if "\<forall>j<cap. j \<notin> set ?js \<longrightarrow> sec v j = sec u j" for v
        using u(2) keep [OF that] fat_chain_cong [of cs "fat_entry (sec v) ?f" "fat_entry (sec u) ?f"]
        by (auto simp: dir_ok_def)
      show ?case
        unfolding r prod.case wpe_kthen
      proof (rule wpe_post [OF create], goal_cases)
        case 1
        then show ?case by simp
      next
        case (2 a v)
        then have un: "\<forall>j<cap. j \<notin> set ?js \<longrightarrow> sec v j = sec u j" by simp
        have "file_created (sec s) (sec v) bpb cs val c"
          unfolding file_created_def keep [OF un c(1)] using u(4) 2 by (simp add: slots_def)
        moreover have "fat_entry (sec v) ?f (unat x) = fat_entry (sec s) ?f (unat x)" if "is_cluster n x" "x \<noteq> c" for x
          using keep [OF un that(1)] u(5) [OF that] by simp
        moreover have "sec v j = sec s j" if "j < cap" "j \<notin> set ?js" "j \<noteq> ?f + unat c div 128" for j
          using un u(6) that by simp
        ultimately show ?case using 2 dirv [OF un] u(3) by simp
      qed
    qed
    then show ?case by (simp add: item)
  qed
qed

end

end
