(* ===== verification/Fat_File.thy ===== *)
theory Fat_File
  imports Fat_Dir
begin

text \<open>
  \<^verbatim>\<open>fat32/src/file.rs\<close>: reading a file along its cluster chain, whole or sector by sector, and
  writing it, by overwriting or appending.
\<close>

section \<open>Reading\<close>

datatype FileError = BufTooSmall | WriteError

datatype WriteType = OverWritten | Append

definition File_length :: "File \<Rightarrow> ('d, nat) kernel" where
  "File_length file = kunwrap (di_length (file_detail file))"

text \<open>
  The closure \<^verbatim>\<open>read\<close> maps over the chain; its state is \<^verbatim>\<open>index\<close>, \<^verbatim>\<open>number_of_blocks\<close> and
  the caller's buffer.
\<close>

definition read_cluster ::
  "'d sector_dev \<Rightarrow> BIOSParameterBlock \<Rightarrow> nat \<Rightarrow> FAT \<Rightarrow> nat \<times> nat \<times> u8 list \<Rightarrow> ('d, nat \<times> nat \<times> u8 list) kernel" where
  "read_cluster D bpb len f = (\<lambda>(index, number_of_blocks, buf).
     let cluster_size = sector_per_cluster_usize bpb * BUFFER_SIZE;
         offset = bpb_offset bpb (current_cluster f);
         (number_of_blocks, stop) =
           (if usub len index < cluster_size
            then let bytes_left = len mod cluster_size
                 in (get_needed_sector bytes_left, uadd index bytes_left)
            else (number_of_blocks, uadd index cluster_size))
     in kbind (checked_slice index stop buf) (\<lambda>part.
        kbind (sector_read D part offset number_of_blocks) (\<lambda>part'.
          kret (uadd index cluster_size, number_of_blocks, overwrite index part' buf))))"

definition File_read ::
  "'d sector_dev \<Rightarrow> BIOSParameterBlock \<Rightarrow> File \<Rightarrow> u8 list \<Rightarrow> ('d, (FileError + nat) \<times> u8 list) kernel" where
  "File_read D bpb file buf =
     kbind (kunwrap (di_length (file_detail file))) (\<lambda>len.
       if length buf < len then kret (Inl BufTooSmall, buf)
       else kbind (FAT_for_each D (read_cluster D bpb len) (file_fat file) (0, sector_per_cluster_usize bpb, buf))
              (\<lambda>((_, _, buf'), _). kret (Inr len, buf')))"

record ReadIter =
  ri_buffer :: "u8 list"
  ri_fat :: FAT
  ri_left_length :: nat
  ri_read_count :: nat
  ri_need_count :: nat

definition read_per_sector :: "File \<Rightarrow> ('d, ReadIter) kernel" where
  "read_per_sector file =
     kbind (kunwrap (di_length (file_detail file))) (\<lambda>left_length.
       kret \<lparr>ri_buffer = replicate BUFFER_SIZE 0, ri_fat = file_fat file, ri_left_length = left_length,
             ri_read_count = 0, ri_need_count = get_needed_sector left_length\<rparr>)"

definition ReadIter_next ::
  "'d sector_dev \<Rightarrow> BIOSParameterBlock \<Rightarrow> ReadIter \<Rightarrow> ('d, (u8 list \<times> nat) option \<times> ReadIter) kernel" where
  "ReadIter_next D bpb it =
     (let spc = sector_per_cluster_usize bpb
      in if ri_read_count it = ri_need_count it then kret (None, it)
         else
           kthen (kcheck (Explicit ''remainder with a divisor of zero'') (spc \<noteq> 0))
           (kbind (if ri_read_count it mod spc = 0
                   then kbind (FAT_next D (ri_fat it)) (\<lambda>(_, fat). kret (it\<lparr>ri_fat := fat\<rparr>))
                   else kret it) (\<lambda>it.
            let offset = bpb_offset bpb (current_cluster (ri_fat it))
                  + of_nat ((ri_read_count it mod spc) * BUFFER_SIZE)
            in kbind (sector_read D (ri_buffer it) offset 1) (\<lambda>buffer.
               let it = it\<lparr>ri_buffer := buffer, ri_read_count := ri_read_count it + 1\<rparr>
               in if ri_read_count it = ri_need_count it then kret (Some (buffer, ri_left_length it), it)
                  else kret (Some (buffer, BUFFER_SIZE),
                             it\<lparr>ri_left_length := usub (ri_left_length it) BUFFER_SIZE\<rparr>)))))"

section \<open>Writing\<close>

definition num_cluster :: "BIOSParameterBlock \<Rightarrow> nat \<Rightarrow> ('d, nat) kernel" where
  "num_cluster bpb len =
     (let cluster_size = sector_per_cluster_usize bpb * BUFFER_SIZE
      in kthen (kcheck (Explicit ''remainder with a divisor of zero'') (cluster_size \<noteq> 0))
           (kret (if len mod cluster_size \<noteq> 0 then len div cluster_size + 1 else len div cluster_size)))"

definition buf_write :: "u8 list \<Rightarrow> nat \<Rightarrow> u8 list \<Rightarrow> ('d, u8 list) kernel" where
  "buf_write from val to =
     (let index = umul val BUFFER_SIZE; index_end = uadd index BUFFER_SIZE
      in if length from < index_end then
           kbind (copy_from_slice 0 (length to) (replicate BUFFER_SIZE 0) to) (\<lambda>to.
           kbind (checked_slice index (length from) from) (\<lambda>rest.
             copy_from_slice 0 (usub (length from) index) rest to))
         else
           kbind (checked_slice index index_end from) (\<lambda>part. copy_from_slice 0 (length to) part to))"

definition get_used_sector :: "BIOSParameterBlock \<Rightarrow> nat \<Rightarrow> nat \<Rightarrow> ('d, nat) kernel" where
  "get_used_sector bpb len0 len =
     (let cluster_size = sector_per_cluster_usize bpb * BUFFER_SIZE
      in kthen (kcheck (Explicit ''remainder with a divisor of zero'') (cluster_size \<noteq> 0))
           (kret (if len mod cluster_size = 0 \<and> len0 \<noteq> 0 then sector_per_cluster_usize bpb
                  else len mod cluster_size div BUFFER_SIZE)))"

fun fill_sectors ::
  "'d sector_dev \<Rightarrow> u8 list \<Rightarrow> usize \<Rightarrow> nat list \<Rightarrow> nat \<Rightarrow> u8 list \<Rightarrow> ('d, nat) kernel" where
  "fill_sectors D buf offset [] index data = kret index"
| "fill_sectors D buf offset (s # ss) index data =
     kbind (checked_slice index (length buf) buf) (\<lambda>from.
     kbind (buf_write from s data) (\<lambda>data.
     kthen (sector_write D data (offset + of_nat (s * BUFFER_SIZE)) 1)
       (fill_sectors D buf offset ss (uadd index BUFFER_SIZE) data)))"

text \<open>
  The sector that is partly used: it is filled up, and the state of the rest of the function
  (\<^verbatim>\<open>buf_has_left\<close>, \<^verbatim>\<open>already_fill\<close>, \<^verbatim>\<open>used_sector\<close>, \<^verbatim>\<open>data\<close>, \<^verbatim>\<open>offset\<close>) is returned.
\<close>

definition fill_partial ::
  "'d sector_dev \<Rightarrow> BIOSParameterBlock \<Rightarrow> u8 list \<Rightarrow> u32 \<Rightarrow> nat \<Rightarrow> nat \<Rightarrow>
   ('d, bool \<times> nat \<times> nat \<times> u8 list \<times> usize) kernel" where
  "fill_partial D bpb buf cluster len used_sector =
     (let left_start = len mod BUFFER_SIZE; blank_size = BUFFER_SIZE - left_start;
          data = replicate BUFFER_SIZE 0;
          offset = bpb_offset bpb cluster + of_nat (used_sector * BUFFER_SIZE)
      in if left_start = 0 then kret (True, 0, used_sector, data, offset)
         else
           kbind (sector_read D data offset 1) (\<lambda>data.
           kbind (if length buf \<le> blank_size then
                    kbind (copy_from_slice left_start (left_start + length buf) buf data) (\<lambda>data.
                      kret (False, 0, used_sector, data))
                  else
                    kbind (checked_slice 0 blank_size buf) (\<lambda>part.
                    kbind (copy_from_slice left_start (length data) part data) (\<lambda>data.
                    kbind (get_used_sector bpb len (len + blank_size)) (\<lambda>used.
                      kret (True, blank_size, used, data)))))
             (\<lambda>(has_left, already_fill, used, data).
                kthen (sector_write D data offset 1)
                  (kret (has_left, already_fill, used, data, bpb_offset bpb cluster + of_nat BUFFER_SIZE)))))"

definition fill_left_sector ::
  "'d sector_dev \<Rightarrow> BIOSParameterBlock \<Rightarrow> File \<Rightarrow> u8 list \<Rightarrow> u32 \<Rightarrow> ('d, bool \<times> nat) kernel" where
  "fill_left_sector D bpb file buf cluster =
     kbind (kunwrap (di_length (file_detail file))) (\<lambda>len.
     kbind (get_used_sector bpb len len) (\<lambda>used_sector.
     kbind (fill_partial D bpb buf cluster len used_sector)
       (\<lambda>(buf_has_left, already_fill, used_sector, data, offset).
          if buf_has_left then
            let buf_needed_sector = get_needed_sector (usub (length buf) already_fill);
                the_cluster_left_sector = usub (sector_per_cluster_usize bpb) used_sector;
                num_sector = min the_cluster_left_sector buf_needed_sector
            in kbind (fill_sectors D buf offset [0..<num_sector] already_fill data) (\<lambda>index.
                 kret (if the_cluster_left_sector < buf_needed_sector then (True, index) else (False, 0)))
          else kret (False, 0))))"

definition write_blank_fat :: "'d sector_dev \<Rightarrow> nat \<Rightarrow> FAT \<Rightarrow> ('d, FAT) kernel" where
  "write_blank_fat D num fat =
     kfold (\<lambda>n fat.
       kbind (FAT_blank_cluster D fat) (\<lambda>(bl1, fat).
       kbind (FAT_write D bl1 0x0FFFFFFF fat) (\<lambda>fat.
       kbind (FAT_blank_cluster D fat) (\<lambda>(bl2, fat).
         if n \<noteq> num - 1 then FAT_write D bl1 bl2 fat else kret fat)))) [0..<num] fat"

text \<open>The closure of \<^verbatim>\<open>_write\<close>; its state is \<^verbatim>\<open>write_count\<close>, \<^verbatim>\<open>w\<close> and the sector buffer.\<close>

definition write_cluster ::
  "'d sector_dev \<Rightarrow> BIOSParameterBlock \<Rightarrow> u8 list \<Rightarrow> FAT \<Rightarrow> nat \<times> nat \<times> u8 list \<Rightarrow> ('d, nat \<times> nat \<times> u8 list) kernel" where
  "write_cluster D bpb buf f = (\<lambda>(write_count, w, tmp).
     let spc = sector_per_cluster_usize bpb;
         part = (\<lambda>start sectors. checked_slice (umul start BUFFER_SIZE) (umul (uadd start sectors) BUFFER_SIZE) buf);
         offset = bpb_offset bpb (current_cluster f)
     in kthen (kcheck (Explicit ''attempt to divide by zero'') (spc \<noteq> 0))
        (let (cnt, write_count) = (if 0 < write_count div spc then (spc, write_count - spc) else (write_count, write_count))
         in if cnt = spc then
              if length buf < umul (uadd w spc) BUFFER_SIZE then
                kbind (buf_write buf w tmp) (\<lambda>tmp.
                kthen (sector_write D tmp offset 1) (kret (write_count, uadd w cnt, tmp)))
              else
                kbind (part w cnt) (\<lambda>bs.
                kthen (sector_write D bs offset cnt) (kret (write_count, uadd w cnt, tmp)))
            else
              kbind (part w (usub cnt 1)) (\<lambda>bs.
              kthen (sector_write D bs offset (usub cnt 1))
              (let w = uadd w (usub cnt 1)
               in kbind (buf_write buf w tmp) (\<lambda>tmp.
                  kthen (sector_write D tmp (offset + of_nat (usub cnt 1 * BUFFER_SIZE)) 1)
                    (kret (write_count, w, tmp)))))))"

definition File_write_chain ::
  "'d sector_dev \<Rightarrow> BIOSParameterBlock \<Rightarrow> u8 list \<Rightarrow> FAT \<Rightarrow> ('d, unit) kernel" where
  "File_write_chain D bpb buf fat =
     kbind (FAT_for_each D (write_cluster D bpb buf) fat
       (get_needed_sector (length buf), 0, replicate BUFFER_SIZE 0)) (\<lambda>_. kret ())"

definition update_length :: "'d sector_dev \<Rightarrow> BIOSParameterBlock \<Rightarrow> nat \<Rightarrow> File \<Rightarrow> ('d, File) kernel" where
  "update_length D bpb len file =
     kbind (DirIter_new D (FAT_new (file_dir_cluster file) (bpb_fat1 bpb)) bpb) (\<lambda>it.
     kbind (DirIter_find D bpb (\<lambda>d.
              if is_deleted d \<or> is_lfn d then kret False
              else kbind (di_cluster d) (\<lambda>c. kbind (di_cluster (file_detail file)) (\<lambda>c'. kret (c = c')))) it)
       (\<lambda>(found, it).
     kbind (kunwrap found) (\<lambda>_.
     kbind (set_file_length len (file_detail file)) (\<lambda>detail.
     kbind (DirIter_previous D bpb it) (\<lambda>it.
     kbind (di_bytes detail) (\<lambda>bytes.
     kbind (update_item D bpb bytes it) (\<lambda>it.
     kthen (DirIter_update D it) (kret (file\<lparr>file_detail := detail\<rparr>)))))))))"

definition write_over :: "'d sector_dev \<Rightarrow> BIOSParameterBlock \<Rightarrow> File \<Rightarrow> u8 list \<Rightarrow> nat \<Rightarrow> ('d, File) kernel" where
  "write_over D bpb file buf num =
     kbind (FAT_for_each D (\<lambda>f (_ :: unit). kbind (FAT_write D (current_cluster f) 0 f) (\<lambda>_. kret ())) (file_fat file) ()) (\<lambda>_.
     kbind (write_blank_fat D num (file_fat file)) (\<lambda>fat.
     kthen (File_write_chain D bpb buf fat) (kret (file\<lparr>file_fat := fat\<rparr>))))"

definition write_append :: "'d sector_dev \<Rightarrow> BIOSParameterBlock \<Rightarrow> File \<Rightarrow> u8 list \<Rightarrow> nat \<Rightarrow> ('d, File) kernel" where
  "write_append D bpb file buf num =
     kbind (FAT_for_each D (\<lambda>_ n. kret (n + 1 :: nat)) (file_fat file) 0) (\<lambda>(exist_fat, _).
     kbind (FAT_for_each D (\<lambda>_ (_ :: unit). kret ()) (file_fat file) ()) (\<lambda>(_, fat).
     kbind (fill_left_sector D bpb file buf (current_cluster fat)) (\<lambda>(new_cluster, index).
       if new_cluster then
         kbind (checked_slice index (length buf) buf) (\<lambda>buf.
         kbind (FAT_blank_cluster D (file_fat file)) (\<lambda>(bl, self_fat).
         kbind (FAT_write D (current_cluster fat) bl fat) (\<lambda>fat.
         kbind (write_blank_fat D (usub num exist_fat) self_fat) (\<lambda>self_fat.
         kthen (File_write_chain D bpb buf (FAT_refresh bl fat)) (kret (file\<lparr>file_fat := self_fat\<rparr>))))))
       else kret file)))"

definition File_write ::
  "'d sector_dev \<Rightarrow> BIOSParameterBlock \<Rightarrow> File \<Rightarrow> u8 list \<Rightarrow> WriteType \<Rightarrow> ('d, (FileError + unit) \<times> File) kernel" where
  "File_write D bpb file buf write_type =
     kbind (case write_type of
              OverWritten \<Rightarrow> kret (length buf)
            | Append \<Rightarrow> kbind (kunwrap (di_length (file_detail file))) (\<lambda>len. kret (uadd (length buf) len))) (\<lambda>new_len.
     kbind (num_cluster bpb new_len) (\<lambda>num.
     kbind (case write_type of
              OverWritten \<Rightarrow> write_over D bpb file buf num
            | Append \<Rightarrow> write_append D bpb file buf num) (\<lambda>file.
     kbind (update_length D bpb new_len file) (\<lambda>file. kret (Inr (), file)))))"

section \<open>Reading follows the chain\<close>

lemma File_read_returns_length:
  "File_read D bpb file buf s = Inr ((Inr k, buf'), t) \<Longrightarrow> di_length (file_detail file) = Some k"
  by (auto simp: File_read_def kdefs split: option.splits sum.splits if_splits prod.splits)

lemma File_read_too_small:
  "di_length (file_detail file) = Some k \<Longrightarrow> length buf < k \<Longrightarrow>
   File_read D bpb file buf s = Inr ((Inl BufTooSmall, buf), s)"
  by (simp add: File_read_def kdefs)

definition cluster_bytes_of :: "(nat \<Rightarrow> u8 list) \<Rightarrow> BIOSParameterBlock \<Rightarrow> u32 \<Rightarrow> u8 list" where
  "cluster_bytes_of f bpb c = secs f (cluster_sector bpb c) (sector_per_cluster_usize bpb)"

definition chain_bytes :: "(nat \<Rightarrow> u8 list) \<Rightarrow> BIOSParameterBlock \<Rightarrow> u32 list \<Rightarrow> u8 list" where
  "chain_bytes f bpb cs = concat (map (cluster_bytes_of f bpb) cs)"

text \<open>A chain of \<^term>\<open>cs\<close> is just long enough for \<^term>\<open>len\<close> bytes.\<close>

definition chain_fits :: "BIOSParameterBlock \<Rightarrow> u32 list \<Rightarrow> nat \<Rightarrow> bool" where
  "chain_fits bpb cs len \<longleftrightarrow>
     (length cs - 1) * (sector_per_cluster_usize bpb * BUFFER_SIZE) \<le> len \<and>
     len \<le> length cs * (sector_per_cluster_usize bpb * BUFFER_SIZE)"

lemma needed_sector_bounds:
  "x \<le> get_needed_sector x * BUFFER_SIZE" "x \<le> k * BUFFER_SIZE \<Longrightarrow> get_needed_sector x \<le> k"
proof -
  have e: "x = x div 512 * 512 + x mod 512" by simp
  show "x \<le> get_needed_sector x * BUFFER_SIZE"
    using e mod_less_divisor [of 512 x] by (auto simp: get_needed_sector_def BUFFER_SIZE_def)
  assume "x \<le> k * BUFFER_SIZE"
  then have k: "x \<le> k * 512" by (simp add: BUFFER_SIZE_def)
  show "get_needed_sector x \<le> k"
  proof (cases "x mod 512 = 0")
    case True
    then show ?thesis using div_le_mono [OF k, of 512] by (simp add: get_needed_sector_def BUFFER_SIZE_def)
  next
    case False
    then have "x < k * 512" using k by (metis mod_mult_self2_is_0 nat_less_le)
    then show ?thesis using False less_mult_imp_div_less [of x k 512] by (simp add: get_needed_sector_def BUFFER_SIZE_def)
  qed
qed

lemma needed_sector_whole: "get_needed_sector (k * BUFFER_SIZE) = k"
  by (simp add: get_needed_sector_def BUFFER_SIZE_def)

lemma overwrite_prefix:
  assumes "i = length xs" "i + length ys \<le> length zs"
  shows "overwrite i ys (overwrite 0 xs zs) = overwrite 0 (xs @ ys) zs"
  using overwrite_append [of 0 zs xs ys] assms by simp

lemma take_secs:
  assumes "x \<le> n * BUFFER_SIZE" "n \<le> m" "\<And>j. i \<le> j \<Longrightarrow> j < i + m \<Longrightarrow> length (f j) = BUFFER_SIZE"
  shows "take x (secs f i n) = take x (secs f i m)"
proof -
  have "length (secs f i n) = n * BUFFER_SIZE" using assms(2,3) by (intro length_secs) auto
  moreover have "secs f i m = secs f i n @ secs f (i + n) (m - n)" using secs_add [of f i n "m - n"] assms(2) by simp
  ultimately show ?thesis using assms(1) by simp
qed

context sector_device
begin

lemma wpe_sectors_read:
  assumes "I s" "i + n \<le> cap" "get_needed_sector (length buf) = n"
    and "\<And>t. same s t \<Longrightarrow> Q (take (length buf) (secs (sec s) i n)) t"
  shows "wpe (sector_read D buf (sector_addr i) n) Q E s"
proof -
  obtain t where "sd_read D buf (sector_addr i) n s = Inr ((True, take (length buf) (secs (sec s) i n)), t)" "same s t"
    using read_sectors [OF assms(1-3)] by blast
  then show ?thesis using assms(4) by (simp add: sector_read_def wpe_def kdefs)
qed

lemma cluster_bytes_length:
  assumes "vol_ok cap bpb n" "is_cluster n c" "I s"
  shows "length (cluster_bytes_of (sec s) bpb c) = sector_per_cluster_usize bpb * BUFFER_SIZE"
  unfolding cluster_bytes_of_def
  by (rule length_secs) (use assms cluster_inside [OF assms(1,2)] in \<open>auto intro!: sec_length\<close>)

lemma read_cluster_spec:
  assumes vol: "vol_ok cap bpb n" and s: "I s" and t: "same s t" and c: "is_cluster n (current_cluster f)"
    and cl: "cl = sector_per_cluster_usize bpb * BUFFER_SIZE" and len: "len \<le> length buf" "length buf < 2 ^ 63"
    and idx: "index = m * cl" "index \<le> len" and nb: "nb = sector_per_cluster_usize bpb"
  shows "wpe (read_cluster D bpb len f (index, nb, buf)) (\<lambda>(index', nb', buf') u. same s u \<and> index' = Suc m * cl \<and>
     (Suc m * cl \<le> len \<longrightarrow> nb' = nb) \<and>
     buf' = overwrite index (take (len - index) (cluster_bytes_of (sec s) bpb (current_cluster f))) buf) E t"
proof -
  let ?c = "current_cluster f" and ?spc = "sector_per_cluster_usize bpb"
  let ?i = "cluster_sector bpb ?c"
  have i: "?i + ?spc < cap" by (rule cluster_inside [OF vol c])
  have "?spc \<le> 255" unfolding sector_per_cluster_usize_def using unat_lt_8 [of "sector_per_cluster bpb"] by linarith
  then have cl0: "0 < cl" "cl \<le> 255 * 512" using vol by (auto simp: cl vol_ok_def BUFFER_SIZE_def)
  have sub: "usub len index = len - index" using idx len by (intro usub_small) auto
  have secs: "secs (sec t) ?i k = secs (sec s) ?i k" if "k \<le> ?spc" for k
    by (rule secs_cong) (use t i that in auto)
  have sl: "length (sec s j) = BUFFER_SIZE" if "?i \<le> j" "j < ?i + ?spc" for j using sec_length [OF s] that i by simp
  have add: "uadd index cl = Suc m * cl" using idx len cl0 by (subst uadd_small) auto
  have total: "length (cluster_bytes_of (sec s) bpb ?c) = cl" using cluster_bytes_length [OF vol c s] cl by simp
  show ?thesis
  proof (cases "len - index < cl")
    case True
    have rest: "len mod cl = len - index"
      using True idx by (metis add.commute le_add_diff_inverse2 mod_less mod_mult_self3 mult.commute)
    let ?n = "get_needed_sector (len - index)"
    have n: "?n \<le> ?spc" using True cl by (intro needed_sector_bounds(2)) simp
    have add': "uadd index (len - index) = len" using idx len by (subst uadd_small) auto
    have "take (len - index) (secs (sec s) ?i ?n) = take (len - index) (cluster_bytes_of (sec s) bpb ?c)"
      unfolding cluster_bytes_of_def by (rule take_secs [OF needed_sector_bounds(1) n sl])
    then show ?thesis
      unfolding read_cluster_def Let_def prod.case cl [symmetric] sub if_P [OF True] rest add' bpb_offset_sector [OF vol c]
        checked_slice_def wpe_kthen wpe_kbind wpe_kcheck wpe_kret
      using idx len t n i secs [OF n] True add
      by (auto intro!: wpe_sectors_read)
  next
    case False
    have add': "uadd index cl = index + cl" using add idx by simp
    have "take cl (secs (sec s) ?i ?spc) = take (len - index) (cluster_bytes_of (sec s) bpb ?c)"
      using total False by (simp add: cluster_bytes_of_def)
    then show ?thesis
      unfolding read_cluster_def Let_def prod.case cl [symmetric] sub if_not_P [OF False] add' bpb_offset_sector [OF vol c] nb
        checked_slice_def wpe_kthen wpe_kbind wpe_kcheck wpe_kret
      using idx len t i secs [of ?spc] False add needed_sector_whole [of ?spc, folded cl]
      by (auto intro!: wpe_sectors_read)
  qed
qed

end

context sector_device
begin

lemma chain_bytes_length:
  assumes "vol_ok cap bpb n" "\<forall>c\<in>set cs. is_cluster n c" "I s"
  shows "length (chain_bytes (sec s) bpb cs) = length cs * (sector_per_cluster_usize bpb * BUFFER_SIZE)"
  unfolding chain_bytes_def
  by (subst length_concat_uniform) (use assms cluster_bytes_length in auto)

lemma File_read_spec:
  assumes vol: "vol_ok cap bpb n" and dir: "dir_ok (sec s) bpb n cs" and s: "I s"
    and at: "fat_at (fat_sector bpb) (file_fat file) [] cs"
    and len: "di_length (file_detail file) = Some len" "chain_fits bpb cs len"
    and buf: "len \<le> length buf" "length buf < 2 ^ 63"
  shows "wpe (File_read D bpb file buf) (\<lambda>(r, buf') t. same s t \<and> r = Inr len \<and>
     buf' = take len (chain_bytes (sec s) bpb cs) @ drop len buf) E s"
proof -
  let ?f = "fat_sector bpb" and ?cl = "sector_per_cluster_usize bpb * BUFFER_SIZE"
  let ?B = "chain_bytes (sec s) bpb"
  define J where "J = (\<lambda>xs (index, nb, b) t. same s t \<and> index = length xs * ?cl \<and>
     (xs \<noteq> cs \<longrightarrow> nb = sector_per_cluster_usize bpb) \<and> b = overwrite 0 (take len (?B xs)) buf)"
  have clusters: "\<forall>c\<in>set cs. is_cluster n c" and ch: "fat_chain (fat_entry (sec s) ?f) cs"
    using dir by (simp_all add: dir_ok_def)
  have "wpe (FAT_for_each D (read_cluster D bpb len) (file_fat file) (0, sector_per_cluster_usize bpb, buf))
      (\<lambda>(a, fat') t. J cs a t \<and> fat_at ?f fat' cs []) E s"
  proof (rule wpe_for_each [OF at ch])
    show "J [] (0, sector_per_cluster_usize bpb, buf) s" using s by (simp add: J_def chain_bytes_def)
  next
    fix xs y ys a t and f :: FAT
    assume cs: "cs = xs @ y # ys" and J: "J xs a t" and f: "current_cluster f = y"
    let ?m = "length xs"
    obtain a': "a = (?m * ?cl, sector_per_cluster_usize bpb, overwrite 0 (take len (?B xs)) buf)" and t: "same s t"
      using J cs by (cases a) (auto simp: J_def)
    have m: "?m * ?cl \<le> len"
      using len(2) cs by (auto simp: chain_fits_def intro: order_trans [OF mult_right_mono [of ?m "length cs - 1"]])
    have B: "length (?B xs) = ?m * ?cl" using chain_bytes_length [OF vol _ s] clusters cs by simp
    have b: "length (overwrite 0 (take len (?B xs)) buf) = length buf" using buf by (simp add: length_overwrite)
    have y: "is_cluster n (current_cluster f)" using clusters cs f by simp
    have c: "length (cluster_bytes_of (sec s) bpb y) = ?cl" using cluster_bytes_length [OF vol _ s] clusters cs by simp
    have "overwrite (?m * ?cl) (take (len - ?m * ?cl) (cluster_bytes_of (sec s) bpb y)) (overwrite 0 (take len (?B xs)) buf)
        = overwrite 0 (take len (?B (xs @ [y]))) buf"
      using B m buf c by (subst overwrite_prefix) (auto simp: chain_bytes_def)
    moreover have "Suc ?m * ?cl \<le> len" if "xs @ [y] \<noteq> cs"
    proof -
      have "Suc ?m \<le> length cs - 1" using that cs by (cases ys) auto
      then show ?thesis using len(2) mult_right_mono [of "Suc ?m" "length cs - 1" ?cl] by (simp add: chain_fits_def)
    qed
    ultimately show "wpe (read_cluster D bpb len f a) (J (xs @ [y])) E t"
      unfolding a'
      by (intro wpe_post [OF read_cluster_spec [OF vol s t y refl _ _ refl m refl]])
        (use buf b f in \<open>auto simp: J_def\<close>)
  next
    fix xs y ys a t assume "cs = xs @ y # ys" "J xs a t"
    moreover from this have "?f + unat y div 128 < cap" using fat_inside [OF vol] clusters by simp
    ultimately show "fat_entry (sec t) ?f (unat y) = chain_link ys"
      using dir_ok_link [of "sec s" bpb n xs y ys] dir fat_entry_cong [of "sec t" ?f "unat y" "sec s"] by (cases a) (auto simp: J_def)
  qed (use clusters fat_inside [OF vol] in \<open>auto simp: J_def\<close>)
  then show ?thesis
    unfolding File_read_def len(1) kbind_kunwrap_Some
    using buf chain_bytes_length [OF vol clusters s] len(2)
    by (auto simp: J_def overwrite_def chain_fits_def elim!: wpe_post)
qed

end

end
