(* ===== verification/Virtio_Header.thy ===== *)
theory Virtio_Header
  imports Prelude
begin

text \<open>
  \<^verbatim>\<open>virtio-drivers/src/header.rs\<close>: the registers of a legacy virtio device and the operations of the
  driver on them.  The device behind the registers is hardware: reading and writing a register are
  functions of an arbitrary device state, given as a record, and what the driver relies on is the
  locale \<^verbatim>\<open>virtio_registers\<close>.
\<close>

section \<open>The register block\<close>

datatype VirtIOReg =
    R_magic | R_version | R_device_id | R_vendor_id | R_device_features | R_device_features_sel
  | R_driver_features | R_driver_features_sel | R_guest_page_size | R_queue_sel | R_queue_num_max
  | R_queue_num | R_queue_align | R_queue_pfn | R_queue_ready | R_queue_notify | R_interrupt_status
  | R_interrupt_ack | R_status | R_queue_desc_low | R_queue_desc_high | R_queue_avail_low
  | R_queue_avail_high | R_queue_used_low | R_queue_used_high | R_config_generation
  | R_reserved nat

text \<open>The fields in the order of the C layout, with the number of 32-bit words each one takes.\<close>

definition VirtIOHeader :: "(VirtIOReg \<times> nat) list" where
  "VirtIOHeader =
     [(R_magic, 1), (R_version, 1), (R_device_id, 1), (R_vendor_id, 1), (R_device_features, 1),
      (R_device_features_sel, 1), (R_reserved 1, 2), (R_driver_features, 1), (R_driver_features_sel, 1),
      (R_guest_page_size, 1), (R_reserved 2, 1), (R_queue_sel, 1), (R_queue_num_max, 1), (R_queue_num, 1),
      (R_queue_align, 1), (R_queue_pfn, 1), (R_queue_ready, 1), (R_reserved 3, 2), (R_queue_notify, 1),
      (R_reserved 4, 3), (R_interrupt_status, 1), (R_interrupt_ack, 1), (R_reserved 5, 2), (R_status, 1),
      (R_reserved 6, 3), (R_queue_desc_low, 1), (R_queue_desc_high, 1), (R_reserved 7, 2),
      (R_queue_avail_low, 1), (R_queue_avail_high, 1), (R_reserved 8, 2), (R_queue_used_low, 1),
      (R_queue_used_high, 1), (R_reserved 9, 21), (R_config_generation, 1)]"

fun reg_offset :: "(VirtIOReg \<times> nat) list \<Rightarrow> VirtIOReg \<Rightarrow> nat" where
  "reg_offset [] r = 0"
| "reg_offset ((f, n) # fs) r = (if f = r then 0 else 4 * n + reg_offset fs r)"

definition header_size :: nat where
  "header_size = 4 * sum_list (map snd VirtIOHeader)"

definition CONFIG_SPACE_OFFSET :: nat where
  "CONFIG_SPACE_OFFSET = 0x100"

definition config_space :: "usize \<Rightarrow> usize" where
  "config_space self = self + of_nat CONFIG_SPACE_OFFSET"

datatype DeviceType =
    Invalid | Network | Block | Console | EntropySource | MemoryBallooning | IoMemory | Rpmsg | ScsiHost
  | P9 | Mac80211 | RprocSerial | VirtioCAIF | MemoryBalloon | GPU | Timer | Input | Socket | Crypto
  | SignalDistributionModule | Pstore | IOMMU | Memory

fun DeviceType_value :: "DeviceType \<Rightarrow> u8" where
  "DeviceType_value Invalid = 0"
| "DeviceType_value Network = 1"
| "DeviceType_value Block = 2"
| "DeviceType_value Console = 3"
| "DeviceType_value EntropySource = 4"
| "DeviceType_value MemoryBallooning = 5"
| "DeviceType_value IoMemory = 6"
| "DeviceType_value Rpmsg = 7"
| "DeviceType_value ScsiHost = 8"
| "DeviceType_value P9 = 9"
| "DeviceType_value Mac80211 = 10"
| "DeviceType_value RprocSerial = 11"
| "DeviceType_value VirtioCAIF = 12"
| "DeviceType_value MemoryBalloon = 13"
| "DeviceType_value GPU = 16"
| "DeviceType_value Timer = 17"
| "DeviceType_value Input = 18"
| "DeviceType_value Socket = 19"
| "DeviceType_value Crypto = 20"
| "DeviceType_value SignalDistributionModule = 21"
| "DeviceType_value Pstore = 22"
| "DeviceType_value IOMMU = 23"
| "DeviceType_value Memory = 24"

definition all_device_types :: "DeviceType list" where
  "all_device_types =
     [Invalid, Network, Block, Console, EntropySource, MemoryBallooning, IoMemory, Rpmsg, ScsiHost, P9,
      Mac80211, RprocSerial, VirtioCAIF, MemoryBalloon, GPU, Timer, Input, Socket, Crypto,
      SignalDistributionModule, Pstore, IOMMU, Memory]"

text \<open>\<^verbatim>\<open>core::mem::transmute\<close> of a byte to the enumeration: the constructor with that value.\<close>

definition transmute_DeviceType :: "u8 \<Rightarrow> DeviceType option" where
  "transmute_DeviceType x = find (\<lambda>t. DeviceType_value t = x) all_device_types"

definition ACKNOWLEDGE :: u32 where "ACKNOWLEDGE = 1"
definition DRIVER :: u32 where "DRIVER = 2"
definition DRIVER_OK :: u32 where "DRIVER_OK = 4"
definition FEATURES_OK :: u32 where "FEATURES_OK = 8"

section \<open>Operations on the registers\<close>

record 'h mmio =
  mmio_read :: "VirtIOReg \<Rightarrow> 'h \<Rightarrow> u32 \<times> 'h"
  mmio_write :: "VirtIOReg \<Rightarrow> u32 \<Rightarrow> 'h \<Rightarrow> 'h"

definition rd :: "'h mmio \<Rightarrow> VirtIOReg \<Rightarrow> ('h, u32) kernel" where
  "rd H r = (\<lambda>h. Inr (mmio_read H r h))"

definition wr :: "'h mmio \<Rightarrow> VirtIOReg \<Rightarrow> u32 \<Rightarrow> ('h, unit) kernel" where
  "wr H r v = kmodify (mmio_write H r v)"

definition header_verify :: "'h mmio \<Rightarrow> ('h, bool) kernel" where
  "header_verify H =
     kbind (rd H R_magic) (\<lambda>m.
     if m \<noteq> 0x74726976 then kret False
     else kbind (rd H R_version) (\<lambda>v.
       if v \<noteq> 1 then kret False
       else kbind (rd H R_device_id) (\<lambda>d. kret (d \<noteq> 0))))"

definition device_type :: "'h mmio \<Rightarrow> ('h, DeviceType) kernel" where
  "device_type H =
     kbind (rd H R_device_id) (\<lambda>x.
       if 1 \<le> x \<and> x \<le> 13 \<or> 16 \<le> x \<and> x \<le> 24 then kunwrap (transmute_DeviceType (ucast x)) else kret Invalid)"

definition vendor_id :: "'h mmio \<Rightarrow> ('h, u32) kernel" where
  "vendor_id H = rd H R_vendor_id"

definition read_device_features :: "'h mmio \<Rightarrow> ('h, u64) kernel" where
  "read_device_features H =
     kthen (wr H R_device_features_sel 0)
     (kbind (rd H R_device_features) (\<lambda>lo.
      kthen (wr H R_device_features_sel 1)
      (kbind (rd H R_device_features) (\<lambda>hi. kret (ucast lo + push_bit 32 (ucast hi))))))"

definition write_driver_features :: "'h mmio \<Rightarrow> u64 \<Rightarrow> ('h, unit) kernel" where
  "write_driver_features H f =
     kthen (wr H R_driver_features_sel 0)
     (kthen (wr H R_driver_features (ucast f))
     (kthen (wr H R_driver_features_sel 1) (wr H R_driver_features (ucast (drop_bit 32 f)))))"

definition begin_init :: "'h mmio \<Rightarrow> (u64 \<Rightarrow> u64) \<Rightarrow> ('h, unit) kernel" where
  "begin_init H negotiate_features =
     kthen (wr H R_status ACKNOWLEDGE)
     (kthen (wr H R_status DRIVER)
     (kbind (read_device_features H) (\<lambda>features.
      kthen (write_driver_features H (negotiate_features features))
      (kthen (wr H R_status FEATURES_OK) (wr H R_guest_page_size 0x1000)))))"

definition finish_init :: "'h mmio \<Rightarrow> ('h, unit) kernel" where
  "finish_init H = wr H R_status DRIVER_OK"

definition queue_set :: "'h mmio \<Rightarrow> u32 \<Rightarrow> u32 \<Rightarrow> u32 \<Rightarrow> u32 \<Rightarrow> ('h, unit) kernel" where
  "queue_set H queue sz align pfn =
     kthen (wr H R_queue_sel queue)
     (kthen (wr H R_queue_num sz) (kthen (wr H R_queue_align align) (wr H R_queue_pfn pfn)))"

definition queue_physical_page_number :: "'h mmio \<Rightarrow> u32 \<Rightarrow> ('h, u32) kernel" where
  "queue_physical_page_number H queue = kthen (wr H R_queue_sel queue) (rd H R_queue_pfn)"

definition queue_used :: "'h mmio \<Rightarrow> u32 \<Rightarrow> ('h, bool) kernel" where
  "queue_used H queue = kbind (queue_physical_page_number H queue) (\<lambda>pfn. kret (pfn \<noteq> 0))"

definition max_queue_size :: "'h mmio \<Rightarrow> ('h, u32) kernel" where
  "max_queue_size H = rd H R_queue_num_max"

definition notify :: "'h mmio \<Rightarrow> u32 \<Rightarrow> ('h, unit) kernel" where
  "notify H queue = wr H R_queue_notify queue"

definition ack_interrupt :: "'h mmio \<Rightarrow> ('h, bool) kernel" where
  "ack_interrupt H =
     kbind (rd H R_interrupt_status) (\<lambda>interrupt.
       if interrupt \<noteq> 0 then kthen (wr H R_interrupt_ack interrupt) (kret True) else kret False)"

section \<open>Layout and negotiation\<close>


lemma features_join: "ucast (ucast w :: u32) + push_bit 32 (ucast (ucast (drop_bit 32 w) :: u32)) = (w :: u64)"
proof -
  have a: "(ucast (ucast w :: u32) :: u64) = take_bit 32 w"
    by (rule bit_word_eqI) (auto simp: bit_simps)
  have b: "push_bit 32 (ucast (ucast (drop_bit 32 w) :: u32)) = push_bit 32 (drop_bit 32 w)"
    by (rule bit_word_eqI) (auto simp: bit_simps)
  show ?thesis unfolding a b by (metis add.commute bits_ident)
qed

lemma features_merge:
  "or (push_bit 32 (ucast (ucast (drop_bit 32 f) :: u32))) (or (take_bit 32 (push_bit 32 (drop_bit 32 w))) (take_bit 32 (ucast (ucast f :: u32)))) = (f :: u64)"
  by (rule bit_word_eqI) (auto simp: bit_simps)

text \<open>
  What the driver relies on: the feature words are selected by the select register, the driver's
  words are kept, and the other registers do not disturb them.
\<close>

locale virtio_registers =
  fixes H :: "'h mmio" and dev_feat :: "'h \<Rightarrow> u64" and drv_feat :: "'h \<Rightarrow> u64"
    and dsel :: "'h \<Rightarrow> u32" and gsel :: "'h \<Rightarrow> u32"
  assumes select_device: "dsel (mmio_write H R_device_features_sel i h) = i"
    and select_driver: "gsel (mmio_write H R_driver_features_sel i h) = i"
    and read_low: "dsel h = 0 \<Longrightarrow> mmio_read H R_device_features h = (ucast (dev_feat h), h)"
    and read_high: "dsel h = 1 \<Longrightarrow> mmio_read H R_device_features h = (ucast (drop_bit 32 (dev_feat h)), h)"
    and write_low: "gsel h = 0 \<Longrightarrow>
      drv_feat (mmio_write H R_driver_features v h) = or (push_bit 32 (drop_bit 32 (drv_feat h))) (ucast v)"
    and write_high: "gsel h = 1 \<Longrightarrow>
      drv_feat (mmio_write H R_driver_features v h) = or (push_bit 32 (ucast v)) (take_bit 32 (drv_feat h))"
    and keep_dev: "dev_feat (mmio_write H r v h) = dev_feat h"
    and keep_drv: "r \<noteq> R_driver_features \<Longrightarrow> drv_feat (mmio_write H r v h) = drv_feat h"
    and keep_gsel: "r \<noteq> R_driver_features_sel \<Longrightarrow> gsel (mmio_write H r v h) = gsel h"
begin

lemma read_device_features_spec:
  "\<exists>h'. read_device_features H h = Inr (dev_feat h, h') \<and> drv_feat h' = drv_feat h \<and> dev_feat h' = dev_feat h"
  by (simp add: read_device_features_def rd_def wr_def kdefs select_device read_low read_high keep_dev keep_drv features_join)

lemma write_driver_features_spec:
  "\<exists>h'. write_driver_features H f h = Inr ((), h') \<and> drv_feat h' = f \<and> dev_feat h' = dev_feat h"
  by (simp add: write_driver_features_def rd_def wr_def kdefs select_driver write_low write_high keep_dev keep_drv keep_gsel features_merge)

lemma begin_init_spec:
  "\<exists>h'. begin_init H f h = Inr ((), h') \<and> drv_feat h' = f (dev_feat h) \<and> dev_feat h' = dev_feat h"
proof -
  let ?h0 = "mmio_write H R_status DRIVER (mmio_write H R_status ACKNOWLEDGE h)"
  obtain h1 where h1: "read_device_features H ?h0 = Inr (dev_feat ?h0, h1)" "dev_feat h1 = dev_feat ?h0"
    using read_device_features_spec by blast
  moreover obtain h2 where "write_driver_features H (f (dev_feat ?h0)) h1 = Inr ((), h2)"
      "drv_feat h2 = f (dev_feat ?h0)" "dev_feat h2 = dev_feat h1"
    using write_driver_features_spec by blast
  ultimately show ?thesis by (simp add: begin_init_def wr_def kdefs keep_dev keep_drv)
qed

end

text \<open>
  The legacy register interface of the specification, without the queues' processing: the feature words
  behind their selectors, the status, the page size, and per queue its size and page number.
\<close>

record virtio_regs =
  vr_device_features :: u64
  vr_driver_features :: u64
  vr_device_sel :: u32
  vr_driver_sel :: u32
  vr_status :: u32
  vr_page_size :: u32
  vr_queue_sel :: u32
  vr_queue_max :: u32
  vr_queue_num :: u32
  vr_queue_pfn :: "u32 \<Rightarrow> u32"
  vr_notified :: "u32 list"

definition regs_read :: "VirtIOReg \<Rightarrow> 'x virtio_regs_scheme \<Rightarrow> u32 \<times> 'x virtio_regs_scheme" where
  "regs_read r h =
     (case r of
        R_magic \<Rightarrow> (0x74726976, h)
      | R_version \<Rightarrow> (1, h)
      | R_device_id \<Rightarrow> (2, h)
      | R_device_features \<Rightarrow>
          (if vr_device_sel h = 0 then ucast (vr_device_features h)
           else if vr_device_sel h = 1 then ucast (drop_bit 32 (vr_device_features h)) else 0, h)
      | R_queue_num_max \<Rightarrow> (vr_queue_max h, h)
      | R_queue_pfn \<Rightarrow> (vr_queue_pfn h (vr_queue_sel h), h)
      | R_status \<Rightarrow> (vr_status h, h)
      | _ \<Rightarrow> (0, h))"

definition regs_write :: "VirtIOReg \<Rightarrow> u32 \<Rightarrow> 'x virtio_regs_scheme \<Rightarrow> 'x virtio_regs_scheme" where
  "regs_write r v h =
     (case r of
        R_device_features_sel \<Rightarrow> h\<lparr>vr_device_sel := v\<rparr>
      | R_driver_features_sel \<Rightarrow> h\<lparr>vr_driver_sel := v\<rparr>
      | R_driver_features \<Rightarrow>
          (if vr_driver_sel h = 0
           then h\<lparr>vr_driver_features := or (push_bit 32 (drop_bit 32 (vr_driver_features h))) (ucast v)\<rparr>
           else if vr_driver_sel h = 1
           then h\<lparr>vr_driver_features := or (push_bit 32 (ucast v)) (take_bit 32 (vr_driver_features h))\<rparr>
           else h)
      | R_guest_page_size \<Rightarrow> h\<lparr>vr_page_size := v\<rparr>
      | R_queue_sel \<Rightarrow> h\<lparr>vr_queue_sel := v\<rparr>
      | R_queue_num \<Rightarrow> h\<lparr>vr_queue_num := v\<rparr>
      | R_queue_pfn \<Rightarrow> h\<lparr>vr_queue_pfn := (vr_queue_pfn h)(vr_queue_sel h := v)\<rparr>
      | R_queue_notify \<Rightarrow> h\<lparr>vr_notified := vr_notified h @ [v]\<rparr>
      | R_status \<Rightarrow> h\<lparr>vr_status := (if v = 0 then 0 else or (vr_status h) v)\<rparr>
      | _ \<Rightarrow> h)"

definition legacy_mmio :: "'x virtio_regs_scheme mmio" where
  "legacy_mmio = \<lparr>mmio_read = regs_read, mmio_write = regs_write\<rparr>"

interpretation legacy: virtio_registers legacy_mmio vr_device_features vr_driver_features vr_device_sel vr_driver_sel
  by unfold_locales (auto simp: legacy_mmio_def regs_read_def regs_write_def split: VirtIOReg.split)

text \<open>Feature negotiation with any device that has the documented register behaviour: the driver sees
  all 64 feature bits of the device, and the device ends up with exactly the bits that the driver's
  function returns for them.\<close>

theorem features_negotiated:
  assumes "virtio_registers H dev_feat drv_feat dsel gsel"
  shows "\<exists>h'. begin_init H negotiate h = Inr ((), h') \<and> drv_feat h' = negotiate (dev_feat h)"
  using virtio_registers.begin_init_spec [OF assms, of negotiate h] by blast

theorem features_negotiated_witness:
  "\<exists>h' :: virtio_regs. begin_init legacy_mmio (\<lambda>f. f AND 0x100000001)
     \<lparr>vr_device_features = 0x500000003, vr_driver_features = 0, vr_device_sel = 7, vr_driver_sel = 7, vr_status = 0,
      vr_page_size = 0, vr_queue_sel = 0, vr_queue_max = 16, vr_queue_num = 0, vr_queue_pfn = (\<lambda>_. 0), vr_notified = []\<rparr>
     = Inr ((), h') \<and> vr_driver_features h' = 0x100000001"
  using features_negotiated [OF legacy.virtio_registers_axioms, of "\<lambda>f. f AND 0x100000001"
     "\<lparr>vr_device_features = 0x500000003, vr_driver_features = 0, vr_device_sel = 7, vr_driver_sel = 7, vr_status = 0,
      vr_page_size = 0, vr_queue_sel = 0, vr_queue_max = 16, vr_queue_num = 0, vr_queue_pfn = (\<lambda>_. 0), vr_notified = []\<rparr>"]
  by simp

end
