(* ===== verification/Virtio_Queue.thy ===== *)
theory Virtio_Queue
  imports Virtio_Header
begin

text \<open>
  \<^verbatim>\<open>virtio-drivers/src/queue.rs\<close> and \<^verbatim>\<open>hal.rs\<close>: the split virtqueue between a driver and a device.  The rings
  and the descriptor table live in shared memory; here they are lists in the queue's record, with the
  32 ring slots the Rust type has.

  The lemmas show that the queue refines an abstract one of a list of free descriptors and the chains
  in flight: adding takes descriptors off the free list, popping gives them back, none is ever lost or
  handed out twice, also when the 16-bit indices wrap around.
\<close>

section \<open>Data\<close>

datatype VirtError = BufferTooSmall | NotReady | AlreadyUsed | InvalidParam | DmaError | IoError

record Descriptor =
  d_addr :: u64
  d_len :: u32
  d_flags :: u16
  d_next :: u16

record UsedElem =
  ue_id :: u32
  ue_len :: u32

record DMA =
  dma_paddr :: u32
  dma_pages :: u32

record VirtQueue =
  vq_dma :: DMA
  vq_desc :: "Descriptor list"
  avail_ring_idx :: u16
  avail_ring :: "u16 list"
  used_ring_idx :: u16
  used_ring :: "UsedElem list"
  queue_idx :: u32
  queue_size :: u16
  num_used :: u16
  free_head :: u16
  avail_idx :: u16
  last_used_idx :: u16

definition DESC_NEXT :: u16 where
  "DESC_NEXT = 1"

definition DESC_WRITE :: u16 where
  "DESC_WRITE = 2"

text \<open>\<^verbatim>\<open>DescFlags::contains\<close> and \<^verbatim>\<open>DescFlags::remove\<close>.\<close>

definition has_next :: "u16 \<Rightarrow> bool" where
  "has_next fl \<longleftrightarrow> fl AND DESC_NEXT = DESC_NEXT"

definition remove_next :: "u16 \<Rightarrow> u16" where
  "remove_next fl = fl AND NOT DESC_NEXT"

definition align_up :: "usize \<Rightarrow> usize" where
  "align_up sz = (sz + 0x1000) AND NOT (0x1000 - 1)"

record VirtQueueLayout =
  avail_offset :: usize
  used_offset :: usize
  layout_size :: usize

definition is_power_of_two :: "u16 \<Rightarrow> bool" where
  "is_power_of_two w \<longleftrightarrow> list_ex (\<lambda>k. w = push_bit k 1) [0..<16]"

text \<open>A descriptor has 16 bytes, an element of the used ring 8.\<close>

definition VirtQueueLayout_new :: "u16 \<Rightarrow> ('s, VirtQueueLayout) kernel" where
  "VirtQueueLayout_new qsize =
     kthen (kassert (is_power_of_two qsize))
       (let n = (ucast qsize :: usize); desc = 16 * n; avail = 2 * (3 + n); used = 2 * 3 + 8 * n
        in kret \<lparr>avail_offset = desc, used_offset = align_up (desc + avail),
                 layout_size = align_up (desc + avail) + align_up used\<rparr>)"

section \<open>Operations\<close>

text \<open>
  Shared pages come from \<^verbatim>\<open>virtio_dma_alloc\<close> of the kernel, a parameter here that gives the physical
  address; the pages of a fresh allocation are zero.
\<close>

definition DMA_new :: "(usize \<Rightarrow> ('h, usize) kernel) \<Rightarrow> usize \<Rightarrow> ('h, VirtError + DMA) kernel" where
  "DMA_new alloc pages =
     kbind (alloc pages) (\<lambda>paddr.
       if paddr = 0 then kret (Inl DmaError)
       else kret (Inr \<lparr>dma_paddr = ucast paddr, dma_pages = ucast pages\<rparr>))"

definition DMA_pfn :: "DMA \<Rightarrow> u32" where
  "DMA_pfn d = drop_bit 12 (dma_paddr d)"

definition DMA_drop :: "(usize \<Rightarrow> usize \<Rightarrow> ('h, u32) kernel) \<Rightarrow> DMA \<Rightarrow> ('h, unit) kernel" where
  "DMA_drop dealloc d =
     kbind (dealloc (ucast (dma_paddr d)) (ucast (dma_pages d))) (\<lambda>err. kassert (err = 0))"

definition link_descs :: "u16 \<Rightarrow> Descriptor list \<Rightarrow> Descriptor list" where
  "link_descs sz ds =
     fold (\<lambda>i ds. ds[i := (ds ! i)\<lparr>d_next := of_nat i + 1\<rparr>]) [0..<unat (sz - 1)] ds"

definition zero_desc :: Descriptor where
  "zero_desc = \<lparr>d_addr = 0, d_len = 0, d_flags = 0, d_next = 0\<rparr>"

definition VirtQueue_new ::
  "'h mmio \<Rightarrow> (usize \<Rightarrow> ('h, usize) kernel) \<Rightarrow> usize \<Rightarrow> u16 \<Rightarrow> ('h, VirtError + VirtQueue) kernel" where
  "VirtQueue_new H alloc idx sz =
     kbind (queue_used H (ucast idx)) (\<lambda>in_use.
     if in_use then kret (Inl AlreadyUsed)
     else if \<not> is_power_of_two sz then kret (Inl InvalidParam)
     else kbind (max_queue_size H) (\<lambda>max_size.
       if max_size < ucast sz then kret (Inl InvalidParam)
       else kbind (VirtQueueLayout_new sz) (\<lambda>layout.
         kbind (DMA_new alloc (layout_size layout div 0x1000)) (\<lambda>dma.
         case dma of
           Inl e \<Rightarrow> kret (Inl e)
         | Inr d \<Rightarrow>
             kthen (queue_set H (ucast idx) (ucast sz) 0x1000 (DMA_pfn d))
               (kret (Inr \<lparr>vq_dma = d, vq_desc = link_descs sz (replicate (unat sz) zero_desc),
                  avail_ring_idx = 0, avail_ring = replicate 32 0,
                  used_ring_idx = 0, used_ring = replicate 32 \<lparr>ue_id = 0, ue_len = 0\<rparr>,
                  queue_idx = ucast idx, queue_size = sz, num_used = 0, free_head = 0,
                  avail_idx = 0, last_used_idx = 0\<rparr>))))))"

definition set_buf :: "(usize \<Rightarrow> usize) \<Rightarrow> usize \<times> usize \<Rightarrow> Descriptor \<Rightarrow> Descriptor" where
  "set_buf v2p buf d = d\<lparr>d_addr := v2p (fst buf), d_len := ucast (snd buf)\<rparr>"

text \<open>
  One round of the loops of \<^verbatim>\<open>add\<close>: fill the free descriptor at the head; the loop variable is
  \<^verbatim>\<open>last\<close>.  A buffer is its virtual address and length.
\<close>

definition add_desc ::
  "(usize \<Rightarrow> usize) \<Rightarrow> u16 \<Rightarrow> usize \<times> usize \<Rightarrow> u16 \<Rightarrow> (VirtQueue, u16) kernel" where
  "add_desc v2p fl buf lst =
     kbind (kget (\<lambda>q. q)) (\<lambda>q.
     let i = free_head q
     in kbind (kindex (vq_desc q) (unat i)) (\<lambda>d.
        let d' = (set_buf v2p buf d)\<lparr>d_flags := fl\<rparr>
        in kthen (kmodify (\<lambda>q. q\<lparr>vq_desc := (vq_desc q)[unat i := d'], free_head := d_next d'\<rparr>)) (kret i)))"

definition VirtQueue_add ::
  "(usize \<Rightarrow> usize) \<Rightarrow> (usize \<times> usize) list \<Rightarrow> (usize \<times> usize) list \<Rightarrow> (VirtQueue, VirtError + u16) kernel" where
  "VirtQueue_add v2p inputs outputs =
     (if inputs = [] \<and> outputs = [] then kret (Inl InvalidParam)
      else kbind (kget (\<lambda>q. q)) (\<lambda>q.
        if unat (queue_size q) < length inputs + length outputs + unat (num_used q) then kret (Inl BufferTooSmall)
        else
          let head = free_head q
          in kbind (kfold (add_desc v2p DESC_NEXT) inputs head) (\<lambda>lst.
             kbind (kfold (add_desc v2p (DESC_NEXT OR DESC_WRITE)) outputs lst) (\<lambda>lst.
             kbind (kget vq_desc) (\<lambda>ds.
             kbind (kindex ds (unat lst)) (\<lambda>d.
             kthen (kmodify (\<lambda>q. q\<lparr>vq_desc := ds[unat lst := d\<lparr>d_flags := remove_next (d_flags d)\<rparr>],
                       num_used := num_used q + of_nat (length inputs + length outputs)\<rparr>))
             (kbind (kget (\<lambda>q. q)) (\<lambda>q.
              let avail_slot = avail_idx q AND (queue_size q - 1)
              in kthen (kcheck OutOfBounds (unat avail_slot < length (avail_ring q)))
                 (kthen (kmodify (\<lambda>q. q\<lparr>avail_ring := (avail_ring q)[unat avail_slot := head],
                           avail_idx := avail_idx q + 1, avail_ring_idx := avail_idx q + 1\<rparr>))
                   (kret (Inr head)))))))))))"

definition can_pop :: "VirtQueue \<Rightarrow> bool" where
  "can_pop q \<longleftrightarrow> last_used_idx q \<noteq> used_ring_idx q"

definition available_desc :: "VirtQueue \<Rightarrow> nat" where
  "available_desc q = unat (queue_size q - num_used q)"

text \<open>One round of the loop of \<^verbatim>\<open>recycle_descriptors\<close>; the loop variable is \<^verbatim>\<open>head\<close>.\<close>

definition recycle_step :: "u16 \<Rightarrow> u16 \<Rightarrow> (VirtQueue, u16 + unit) kernel" where
  "recycle_step origin_free_head head =
     kbind (kget vq_desc) (\<lambda>ds.
     kbind (kindex ds (unat head)) (\<lambda>d.
     kthen (kmodify (\<lambda>q. q\<lparr>num_used := num_used q - 1\<rparr>))
       (if has_next (d_flags d) then kret (Inl (d_next d))
        else kthen (kmodify (\<lambda>q. q\<lparr>vq_desc := ds[unat head := d\<lparr>d_next := origin_free_head\<rparr>]\<rparr>))
               (kret (Inr ())))))"

definition recycle_descriptors :: "u16 \<Rightarrow> (VirtQueue, unit) kernel" where
  "recycle_descriptors head =
     kbind (kget free_head) (\<lambda>origin_free_head.
     kthen (kmodify (\<lambda>q. q\<lparr>free_head := head\<rparr>)) (kloop (recycle_step origin_free_head) head))"

definition VirtQueue_pop_used :: "(VirtQueue, VirtError + (u16 \<times> u32)) kernel" where
  "VirtQueue_pop_used =
     kbind (kget (\<lambda>q. q)) (\<lambda>q.
     if \<not> can_pop q then kret (Inl NotReady)
     else
       let last_used_slot = last_used_idx q AND (queue_size q - 1)
       in kbind (kindex (used_ring q) (unat last_used_slot)) (\<lambda>e.
          let index = (ucast (ue_id e) :: u16); len = ue_len e
          in kthen (recycle_descriptors index)
             (kthen (kmodify (\<lambda>q. q\<lparr>last_used_idx := last_used_idx q + 1\<rparr>))
               (kret (Inr (index, len))))))"

section \<open>The abstract queue\<close>

text \<open>The descriptors reached from a free-list head, and a chain in flight: linked by its \<^verbatim>\<open>NEXT\<close> flags.\<close>

fun free_chain :: "Descriptor list \<Rightarrow> u16 \<Rightarrow> nat list \<Rightarrow> bool" where
  "free_chain ds h [] \<longleftrightarrow> True"
| "free_chain ds h (x # xs) \<longleftrightarrow> h = of_nat x \<and> x < length ds \<and> free_chain ds (d_next (ds ! x)) xs"

fun used_chain :: "Descriptor list \<Rightarrow> nat list \<Rightarrow> bool" where
  "used_chain ds [] \<longleftrightarrow> False"
| "used_chain ds [x] \<longleftrightarrow> x < length ds \<and> \<not> has_next (d_flags (ds ! x))"
| "used_chain ds (x # y # zs) \<longleftrightarrow> x < length ds \<and> has_next (d_flags (ds ! x)) \<and> d_next (ds ! x) = of_nat y \<and>
     used_chain ds (y # zs)"

text \<open>
  A queue with the free descriptors \<^term>\<open>free\<close>, in the order they will be handed out, and the chains
  \<^term>\<open>inflight\<close> in flight: every descriptor is in exactly one of them.
\<close>

definition vq_rep :: "VirtQueue \<Rightarrow> nat list \<Rightarrow> nat list list \<Rightarrow> bool" where
  "vq_rep q free inflight \<longleftrightarrow>
     (\<exists>k\<le>5. queue_size q = push_bit k 1) \<and> length (vq_desc q) = unat (queue_size q) \<and>
     length (avail_ring q) = 32 \<and> length (used_ring q) = 32 \<and>
     mset (free @ concat inflight) = mset [0..<unat (queue_size q)] \<and>
     num_used q = of_nat (length (concat inflight)) \<and>
     free_chain (vq_desc q) (free_head q) free \<and> (\<forall>ch\<in>set inflight. used_chain (vq_desc q) ch)"

lemma vq_rep_size:
  assumes "vq_rep q free inflight"
  shows "unat (queue_size q) \<le> 32" "length free + length (concat inflight) = unat (queue_size q)"
    "unat (num_used q) = length (concat inflight)" "distinct (free @ concat inflight)"
    "x \<in> set free \<or> x \<in> set (concat inflight) \<longleftrightarrow> x < unat (queue_size q)"
    "unat (w AND (queue_size q - 1)) < 32"
proof -
  obtain k where k: "k \<le> 5" "queue_size q = push_bit k 1" using assms by (auto simp: vq_rep_def)
  have p: "(2 :: nat) ^ k \<le> 32" using k(1) power_increasing [of k 5 "2 :: nat"] by simp
  have u: "unat (queue_size q) = 2 ^ k"
    unfolding k(2) by (subst unat_push_bit_small) (use p in simp_all)
  show le: "unat (queue_size q) \<le> 32" using u p by simp
  have m: "mset (free @ concat inflight) = mset [0..<unat (queue_size q)]" using assms by (simp add: vq_rep_def)
  show len: "length free + length (concat inflight) = unat (queue_size q)"
    using arg_cong [OF m, of size] by simp
  have "length (concat inflight) < 65536" using len le by linarith
  moreover have "num_used q = of_nat (length (concat inflight))" using assms by (simp add: vq_rep_def)
  ultimately show "unat (num_used q) = length (concat inflight)" by (simp add: unat_of_nat)
  show "distinct (free @ concat inflight)"
    using mset_eq_imp_distinct_iff [OF m] by simp
  show "x \<in> set free \<or> x \<in> set (concat inflight) \<longleftrightarrow> x < unat (queue_size q)"
    using mset_eq_setD [OF m] by auto
  have "unat (w AND (queue_size q - 1)) = unat w mod 2 ^ k"
    unfolding k(2) by (rule unat_and_mask) (use k(1) in simp)
  also have "\<dots> < 2 ^ k" by simp
  finally show "unat (w AND (queue_size q - 1)) < 32" using le u by linarith
qed

lemma of_nat_inj_small: "x < 32 \<Longrightarrow> y < 32 \<Longrightarrow> (of_nat x :: u16) = of_nat y \<longleftrightarrow> x = y"
  by (auto dest!: arg_cong [where f = unat] simp: unat_of_nat)

lemma free_chain_update:
  assumes "x \<notin> set xs"
  shows "free_chain (ds[x := d]) h xs \<longleftrightarrow> free_chain ds h xs"
  using assms by (induction xs arbitrary: h) auto

lemma free_chain_append:
  "free_chain ds h (xs @ ys) \<Longrightarrow> ys \<noteq> [] \<Longrightarrow> xs \<noteq> [] \<Longrightarrow> free_chain ds (d_next (ds ! last xs)) ys"
  by (induction xs arbitrary: h) auto

lemma used_chain_update: "x \<notin> set xs \<Longrightarrow> used_chain (ds[x := d]) xs \<longleftrightarrow> used_chain ds xs"
  by (induction ds xs rule: used_chain.induct) auto

lemma used_chain_bound: "used_chain ds xs \<Longrightarrow> x \<in> set xs \<Longrightarrow> x < length ds"
  by (induction ds xs rule: used_chain.induct) auto

text \<open>Any chain of free descriptors becomes a chain in flight when its flags are set that way.\<close>

lemma used_chainI:
  assumes "free_chain ds h xs" "xs \<noteq> []" "\<And>x. x \<in> set (butlast xs) \<Longrightarrow> has_next (d_flags (ds ! x))"
    "\<not> has_next (d_flags (ds ! last xs))"
  shows "used_chain ds xs"
  using assms
proof (induction xs arbitrary: h)
  case (Cons x xs)
  then show ?case by (cases xs) auto
qed simp

section \<open>Adding a chain\<close>

text \<open>The table after writing buffers and flags to the descriptors \<^term>\<open>xs\<close>.\<close>

fun fill_descs :: "(usize \<Rightarrow> usize) \<Rightarrow> Descriptor list \<Rightarrow> nat list \<Rightarrow> ((usize \<times> usize) \<times> u16) list \<Rightarrow> Descriptor list" where
  "fill_descs v2p ds (x # xs) ((b, fl) # bs) =
     fill_descs v2p (ds[x := (set_buf v2p b (ds ! x))\<lparr>d_flags := fl\<rparr>]) xs bs"
| "fill_descs v2p ds _ _ = ds"

lemma length_fill_descs [simp]: "length (fill_descs v2p ds xs bs) = length ds"
  by (induction v2p ds xs bs rule: fill_descs.induct) auto

lemma fill_descs_other: "x \<notin> set xs \<Longrightarrow> fill_descs v2p ds xs bs ! x = ds ! x"
  by (induction v2p ds xs bs rule: fill_descs.induct) auto

lemma fill_descs_next: "d_next (fill_descs v2p ds xs bs ! x) = d_next (ds ! x)"
proof (induction v2p ds xs bs rule: fill_descs.induct)
  case (1 v2p ds y xs b fl bs)
  then show ?case by (cases "y < length ds") (auto simp: nth_list_update set_buf_def list_update_beyond)
qed auto

lemma fill_descs_at:
  assumes "distinct xs" "i < length xs" "length xs = length bs" "\<forall>x\<in>set xs. x < length ds"
  shows "fill_descs v2p ds xs bs ! (xs ! i) =
    (set_buf v2p (fst (bs ! i)) (ds ! (xs ! i)))\<lparr>d_flags := snd (bs ! i)\<rparr>"
  using assms
proof (induction v2p ds xs bs arbitrary: i rule: fill_descs.induct)
  case (1 v2p ds y xs b fl bs)
  show ?case
  proof (cases i)
    case 0
    then show ?thesis using 1 by (simp add: fill_descs_other)
  next
    case (Suc j)
    then have "xs ! j \<noteq> y" using 1(2,3) by auto
    then show ?thesis using Suc 1 by simp
  qed
qed auto

lemma free_chain_fill:
  "free_chain (fill_descs v2p ds xs bs) h ys \<longleftrightarrow> free_chain ds h ys"
  by (induction ys arbitrary: h) (simp_all add: fill_descs_next)

lemma used_chain_fill:
  "set xs \<inter> set ys = {} \<Longrightarrow> used_chain (fill_descs v2p ds xs bs) ys \<longleftrightarrow> used_chain ds ys"
proof (induction ds ys rule: used_chain.induct)
  case (3 ds x y zs)
  then show ?case by (auto simp: fill_descs_other fill_descs_next)
qed (auto simp: fill_descs_other)

definition add_pairs :: "(usize \<times> usize) list \<Rightarrow> (usize \<times> usize) list \<Rightarrow> ((usize \<times> usize) \<times> u16) list" where
  "add_pairs inputs outputs = map (\<lambda>b. (b, DESC_NEXT)) inputs @ map (\<lambda>b. (b, DESC_NEXT OR DESC_WRITE)) outputs"

lemma add_loop:
  assumes "free_chain (vq_desc q) (free_head q) (xs @ ys)" "length xs = length bs" "\<forall>x\<in>set xs. x < 32"
  shows "kfold (\<lambda>(b, fl). add_desc v2p fl b) bs lst q =
    Inr (if xs = [] then lst else of_nat (last xs),
         q\<lparr>vq_desc := fill_descs v2p (vq_desc q) xs bs,
           free_head := (if xs = [] then free_head q else d_next (vq_desc q ! last xs))\<rparr>)"
  using assms
proof (induction bs arbitrary: xs q lst)
  case (Cons p bs)
  obtain b fl where p: "p = (b, fl)" by (cases p)
  obtain x zs where xs: "xs = x # zs" using Cons.prems(2) by (cases xs) auto
  let ?d = "(set_buf v2p b (vq_desc q ! x))\<lparr>d_flags := fl\<rparr>"
  have x: "free_head q = of_nat x" "x < length (vq_desc q)" "unat (of_nat x :: u16) = x"
    using Cons.prems xs by (simp_all add: unat_of_nat)
  let ?q = "q\<lparr>vq_desc := (vq_desc q)[x := ?d], free_head := d_next (vq_desc q ! x)\<rparr>"
  have step: "add_desc v2p fl b lst q = Inr (of_nat x, ?q)"
    using x by (simp add: add_desc_def kdefs set_buf_def)
  have nx: "d_next ((vq_desc q)[x := ?d] ! y) = d_next (vq_desc q ! y)" for y
    using x by (simp add: nth_list_update set_buf_def)
  have ch: "free_chain ((vq_desc q)[x := ?d]) h ws \<longleftrightarrow> free_chain (vq_desc q) h ws" for h ws
    by (induction ws arbitrary: h) (simp_all add: nx)
  have "kfold (\<lambda>(b, fl). add_desc v2p fl b) bs (of_nat x) ?q =
    Inr (if zs = [] then of_nat x else of_nat (last zs),
         ?q\<lparr>vq_desc := fill_descs v2p (vq_desc ?q) zs bs,
           free_head := (if zs = [] then free_head ?q else d_next (vq_desc ?q ! last zs))\<rparr>)"
    by (rule Cons.IH) (use Cons.prems xs in \<open>simp_all add: ch\<close>)
  then show ?case
    using step by (simp add: p xs kbind_def nx)
qed (simp add: kret_def)

lemma flag_facts [simp]:
  "has_next DESC_NEXT" "has_next (DESC_NEXT OR DESC_WRITE)" "\<not> has_next (remove_next fl)"
  "remove_next fl AND DESC_WRITE = fl AND DESC_WRITE" "DESC_NEXT AND DESC_WRITE = 0"
  "(DESC_NEXT OR DESC_WRITE) AND DESC_WRITE \<noteq> 0" "DESC_WRITE \<noteq> 0"
proof -
  show "\<not> has_next (remove_next fl)"
    by (simp add: has_next_def remove_next_def DESC_NEXT_def and.assoc)
  show "remove_next fl AND DESC_WRITE = fl AND DESC_WRITE"
    by (simp add: remove_next_def DESC_NEXT_def DESC_WRITE_def and.assoc)
qed (simp_all add: has_next_def DESC_NEXT_def DESC_WRITE_def)

text \<open>What the device reads from a chain: addresses, lengths and which buffers it may write.\<close>

definition desc_view :: "Descriptor \<Rightarrow> u64 \<times> u32 \<times> bool" where
  "desc_view d = (d_addr d, d_len d, d_flags d AND DESC_WRITE \<noteq> 0)"

definition chain_view :: "VirtQueue \<Rightarrow> nat list \<Rightarrow> (u64 \<times> u32 \<times> bool) list" where
  "chain_view q xs = map (\<lambda>x. desc_view (vq_desc q ! x)) xs"

definition request_view ::
  "(usize \<Rightarrow> usize) \<Rightarrow> (usize \<times> usize) list \<Rightarrow> (usize \<times> usize) list \<Rightarrow> (u64 \<times> u32 \<times> bool) list" where
  "request_view v2p inputs outputs =
     map (\<lambda>b. (v2p (fst b), ucast (snd b), False)) inputs @ map (\<lambda>b. (v2p (fst b), ucast (snd b), True)) outputs"

lemma free_chain_same_next:
  "(\<And>x. d_next (ds' ! x) = d_next (ds ! x)) \<Longrightarrow> length ds' = length ds \<Longrightarrow> free_chain ds' h xs \<longleftrightarrow> free_chain ds h xs"
  by (induction xs arbitrary: h) auto

text \<open>The table that \<^verbatim>\<open>add\<close> leaves: the chain is filled in and cut off at its end.\<close>

lemma added_table:
  fixes v2p :: "usize \<Rightarrow> usize"
  assumes ch: "free_chain ds h (xs @ ys)" and ne: "xs \<noteq> []" and len: "length xs = length inputs + length outputs"
    and dist: "distinct (xs @ ys)"
  defines "ds1 \<equiv> fill_descs v2p ds xs (add_pairs inputs outputs)"
  defines "ds2 \<equiv> ds1[last xs := (ds1 ! last xs)\<lparr>d_flags := remove_next (d_flags (ds1 ! last xs))\<rparr>]"
  shows "length ds2 = length ds" "used_chain ds2 xs" "free_chain ds2 (d_next (ds ! last xs)) ys"
    "set ws \<inter> set xs = {} \<Longrightarrow> used_chain ds2 ws \<longleftrightarrow> used_chain ds ws"
    "map (\<lambda>x. desc_view (ds2 ! x)) xs = request_view v2p inputs outputs"
proof -
  let ?bs = "add_pairs inputs outputs"
  have bl: "length ?bs = length xs" using len by (simp add: add_pairs_def)
  have small: "\<forall>x\<in>set xs. x < length ds" using ch
    by (induction xs arbitrary: h) auto
  have l: "last xs \<in> set xs" "last xs < length ds1" using ne small by (auto simp: ds1_def)
  show length: "length ds2 = length ds" by (simp add: ds2_def ds1_def)
  have nx: "d_next (ds2 ! x) = d_next (ds ! x)" for x
    using l(2) by (simp add: ds2_def nth_list_update ds1_def fill_descs_next)
  have at: "ds1 ! (xs ! i) = (set_buf v2p (fst (?bs ! i)) (ds ! (xs ! i)))\<lparr>d_flags := snd (?bs ! i)\<rparr>" if "i < length xs" for i
    unfolding ds1_def by (rule fill_descs_at) (use dist that bl small in simp_all)
  have fl: "has_next (snd (?bs ! i))" if "i < length xs" for i
    using that bl by (auto simp: add_pairs_def nth_append)
  show "used_chain ds2 xs"
  proof (rule used_chainI [OF _ ne])
    have "free_chain ds h xs" using ch by (induction xs arbitrary: h) auto
    then show "free_chain ds2 h xs" using free_chain_same_next [OF nx length] by blast
    show "\<not> has_next (d_flags (ds2 ! last xs))" using l(2) by (simp add: ds2_def)
    show "has_next (d_flags (ds2 ! x))" if x: "x \<in> set (butlast xs)" for x
    proof -
      have "x \<noteq> last xs" using x dist ne by (metis append_butlast_last_id distinct_append not_distinct_conv_prefix)
      moreover obtain i where "i < length xs" "x = xs ! i" using x by (metis in_set_conv_nth in_set_butlastD)
      ultimately show ?thesis using at fl by (simp add: ds2_def)
    qed
  qed
  show "free_chain ds2 (d_next (ds ! last xs)) ys"
  proof (cases "ys = []")
    case False
    then show ?thesis using free_chain_append [OF ch False ne] free_chain_same_next [OF nx length] by blast
  qed simp
  show "used_chain ds2 ws \<longleftrightarrow> used_chain ds ws" if d: "set ws \<inter> set xs = {}"
  proof -
    have "last xs \<notin> set ws" "set xs \<inter> set ws = {}" using d l(1) by auto
    then show ?thesis by (simp add: ds2_def used_chain_update ds1_def used_chain_fill)
  qed
  show "map (\<lambda>x. desc_view (ds2 ! x)) xs = request_view v2p inputs outputs"
  proof (rule nth_equalityI)
    fix i assume "i < length (map (\<lambda>x. desc_view (ds2 ! x)) xs)"
    then have i: "i < length xs" by simp
    have "desc_view (ds2 ! (xs ! i)) = desc_view (ds1 ! (xs ! i))"
      using l(2) by (simp add: ds2_def nth_list_update desc_view_def)
    also have "\<dots> = request_view v2p inputs outputs ! i"
      using at [OF i] i bl len by (auto simp: desc_view_def set_buf_def request_view_def add_pairs_def nth_append)
    finally show "map (\<lambda>x. desc_view (ds2 ! x)) xs ! i = request_view v2p inputs outputs ! i" using i by simp
  qed (simp add: request_view_def len)
qed

lemma VirtQueue_add_spec:
  assumes rep: "vq_rep q free inflight" and k: "k = length inputs + length outputs" "0 < k" "k \<le> length free"
  shows "\<exists>q'. VirtQueue_add v2p inputs outputs q = Inr (Inr (of_nat (hd free)), q') \<and>
     vq_rep q' (drop k free) (inflight @ [take k free]) \<and> chain_view q' (take k free) = request_view v2p inputs outputs \<and>
     (\<forall>ch\<in>set inflight. chain_view q' ch = chain_view q ch) \<and>
     avail_idx q' = avail_idx q + 1 \<and> avail_ring_idx q' = avail_idx q' \<and>
     avail_ring q' ! unat (avail_idx q AND (queue_size q - 1)) = of_nat (hd free) \<and>
     used_ring_idx q' = used_ring_idx q \<and> used_ring q' = used_ring q \<and> last_used_idx q' = last_used_idx q \<and>
     queue_size q' = queue_size q"
proof -
  let ?xs = "take k free" and ?ys = "drop k free" and ?ds = "vq_desc q"
  note sz = vq_rep_size [OF rep]
  have xs: "?xs \<noteq> []" "length ?xs = length inputs + length outputs" "hd ?xs = hd free" using k by auto
  have ch: "free_chain ?ds (free_head q) (?xs @ ?ys)" and dist: "distinct (?xs @ ?ys)"
    using rep sz(4) by (simp_all add: vq_rep_def)
  have small: "\<forall>x\<in>set ?xs. x < 32" using sz(1,5) in_set_takeD by (metis less_le_trans)
  have room: "\<not> unat (queue_size q) < length inputs + length outputs + unat (num_used q)" using sz(2,3) k by linarith
  have head: "free_head q = of_nat (hd free)" using ch xs k by (cases free) auto
  define ds1 where "ds1 = fill_descs v2p ?ds ?xs (add_pairs inputs outputs)"
  define ds2 where "ds2 = ds1[last ?xs := (ds1 ! last ?xs)\<lparr>d_flags := remove_next (d_flags (ds1 ! last ?xs))\<rparr>]"
  note tab = added_table [OF ch xs(1,2) dist, where v2p = v2p, folded ds1_def, folded ds2_def]
  have l: "last ?xs < 32" "last ?xs < length ds1" using small xs(1) tab(1) used_chain_bound [OF tab(2)] by (auto simp: ds2_def)
  let ?q' = "q\<lparr>vq_desc := ds2, free_head := d_next (?ds ! last ?xs), num_used := num_used q + of_nat k,
      avail_ring := (avail_ring q)[unat (avail_idx q AND (queue_size q - 1)) := free_head q],
      avail_idx := avail_idx q + 1, avail_ring_idx := avail_idx q + 1\<rparr>"
  have loops: "kbind (kfold (add_desc v2p DESC_NEXT) inputs (free_head q))
      (kfold (add_desc v2p (DESC_NEXT OR DESC_WRITE)) outputs) q =
      Inr (of_nat (last ?xs), q\<lparr>vq_desc := ds1, free_head := d_next (?ds ! last ?xs)\<rparr>)"
    using add_loop [OF ch, of "add_pairs inputs outputs" v2p "free_head q"] xs small
    by (simp add: add_pairs_def kfold_append kfold_map ds1_def)
  have "VirtQueue_add v2p inputs outputs q = Inr (Inr (of_nat (hd free)), ?q')"
  proof -
    obtain l1 q1 where l1: "kfold (add_desc v2p DESC_NEXT) inputs (free_head q) q = Inr (l1, q1)"
        "kfold (add_desc v2p (DESC_NEXT OR DESC_WRITE)) outputs l1 q1 =
           Inr (of_nat (last ?xs), q\<lparr>vq_desc := ds1, free_head := d_next (?ds ! last ?xs)\<rparr>)"
      using loops by (auto simp: kbind_def split: sum.splits)
    have "inputs \<noteq> [] \<or> outputs \<noteq> []" using k by auto
    moreover have "unat (avail_idx q AND (queue_size q - 1)) < length (avail_ring q)" using sz(6) rep by (simp add: vq_rep_def)
    moreover have "unat (of_nat (last ?xs) :: u16) = last ?xs" using l(1) by (simp add: unat_of_nat)
    ultimately show ?thesis
      using room l1 l(2) k(1) by (simp add: VirtQueue_add_def kdefs ds2_def head Let_def)
  qed
  moreover have "vq_rep ?q' ?ys (inflight @ [?xs])"
  proof -
    have "mset free = mset ?xs + mset ?ys" by (metis append_take_drop_id mset_append)
    then have m: "mset (?ys @ concat (inflight @ [?xs])) = mset (free @ concat inflight)" by simp
    have nu: "num_used q + of_nat k = of_nat (length (concat (inflight @ [?xs])))"
      using rep k by (simp add: vq_rep_def min_def)
    have disj: "set ch \<inter> set ?xs = {}" if "ch \<in> set inflight" for ch
      using sz(4) that in_set_takeD by fastforce
    have used: "\<forall>ch\<in>set (inflight @ [?xs]). used_chain ds2 ch" using rep tab(2) tab(4) [OF disj] by (auto simp: vq_rep_def)
    show ?thesis
      unfolding vq_rep_def using rep m nu used tab(1,3) by (simp only: vq_rep_def VirtQueue.simps length_list_update) simp
  qed
  moreover have "chain_view ?q' ch = chain_view q ch" if "ch \<in> set inflight" for ch
  proof -
    have "set ch \<inter> set ?xs = {}" using sz(4) that in_set_takeD by fastforce
    then have "x \<notin> set ?xs \<and> last ?xs \<noteq> x" if "x \<in> set ch" for x using that last_in_set [OF xs(1)] by auto
    then have "ds2 ! x = ?ds ! x" if "x \<in> set ch" for x using that by (simp add: ds2_def ds1_def fill_descs_other)
    then show ?thesis by (simp add: chain_view_def)
  qed
  ultimately show ?thesis
    using tab(5) sz(6) rep head by (intro exI [of _ ?q']) (simp add: chain_view_def vq_rep_def)
qed

section \<open>Popping a chain\<close>

lemma recycle_loop:
  assumes "used_chain (vq_desc q) ch" "\<forall>x\<in>set ch. x < 32"
  shows "kloop (recycle_step orig) (of_nat (hd ch)) q =
    Inr ((), q\<lparr>num_used := num_used q - of_nat (length ch),
               vq_desc := (vq_desc q)[last ch := (vq_desc q ! last ch)\<lparr>d_next := orig\<rparr>]\<rparr>)"
  using assms
proof (induction ch arbitrary: q)
  case (Cons x ch)
  have x: "unat (of_nat x :: u16) = x" using Cons.prems by (simp add: unat_of_nat)
  show ?case
  proof (cases ch)
    case Nil
    then show ?thesis using Cons.prems x
      by (subst kloop_unfold) (simp add: recycle_step_def kdefs)
  next
    case (Cons y ys)
    let ?q = "q\<lparr>num_used := num_used q - 1\<rparr>"
    have "recycle_step orig (of_nat x) q = Inr (Inl (of_nat y), ?q)"
      using Cons.prems x Cons by (simp add: recycle_step_def kdefs)
    moreover have "kloop (recycle_step orig) (of_nat (hd ch)) ?q =
        Inr ((), ?q\<lparr>num_used := num_used ?q - of_nat (length ch),
               vq_desc := (vq_desc ?q)[last ch := (vq_desc ?q ! last ch)\<lparr>d_next := orig\<rparr>]\<rparr>)"
      by (rule Cons.IH) (use Cons.prems Cons in simp_all)
    ultimately show ?thesis
      using Cons by (subst kloop_unfold) (simp add: kbind_def algebra_simps)
  qed
qed simp

lemma recycled_free_chain:
  assumes "used_chain ds ch" "free_chain ds orig free" "distinct (ch @ free)"
  shows "free_chain (ds[last ch := (ds ! last ch)\<lparr>d_next := orig\<rparr>]) (of_nat (hd ch)) (ch @ free)"
  using assms
proof (induction ch)
  case (Cons x ch)
  show ?case
  proof (cases ch)
    case Nil
    then show ?thesis using Cons.prems free_chain_update [of x free ds] by simp
  next
    case (Cons y ys)
    have "x \<noteq> last ch" using Cons.prems(3) Cons last_in_set [of ch] by auto
    then show ?thesis using Cons.IH Cons.prems Cons by simp
  qed
qed simp

lemma VirtQueue_pop_spec:
  assumes rep: "vq_rep q free inflight" and pop: "can_pop q" and split: "inflight = as @ ch # bs"
    and e: "used_ring q ! unat (last_used_idx q AND (queue_size q - 1)) = \<lparr>ue_id = of_nat (hd ch), ue_len = len\<rparr>"
  shows "\<exists>q'. VirtQueue_pop_used q = Inr (Inr (of_nat (hd ch), len), q') \<and> vq_rep q' (ch @ free) (as @ bs) \<and>
     (\<forall>c\<in>set (as @ bs). chain_view q' c = chain_view q c) \<and>
     last_used_idx q' = last_used_idx q + 1 \<and> used_ring q' = used_ring q \<and> used_ring_idx q' = used_ring_idx q \<and>
     queue_size q' = queue_size q \<and> avail_idx q' = avail_idx q \<and> avail_ring q' = avail_ring q \<and>
     avail_ring_idx q' = avail_ring_idx q"
proof -
  note sz = vq_rep_size [OF rep]
  let ?ds = "vq_desc q"
  have used: "used_chain ?ds ch" and free: "free_chain ?ds (free_head q) free" using rep split by (simp_all add: vq_rep_def)
  have ne: "ch \<noteq> []" using used by auto
  have small: "\<forall>x\<in>set ch. x < 32" using sz(1,5) split by (metis UnCI concat.simps(2) concat_append less_le_trans set_append)
  have dist: "distinct (ch @ free)" using sz(4) split by auto
  have "set ch \<inter> (set (concat as) \<union> set (concat bs)) = {}" using sz(4) unfolding split by auto
  then have apart: "last ch \<notin> set c" if "c \<in> set (as @ bs)" for c
    using that last_in_set [OF ne] by (metis IntI UnCI UnE empty_iff in_set_conv_decomp concat.simps(2) concat_append set_append)
  define ds2 where "ds2 = ?ds[last ch := (?ds ! last ch)\<lparr>d_next := free_head q\<rparr>]"
  let ?q' = "q\<lparr>vq_desc := ds2, num_used := num_used q - of_nat (length ch), free_head := of_nat (hd ch),
      last_used_idx := last_used_idx q + 1\<rparr>"
  have small': "hd ch < 32" using ne small by auto
  have id: "(ucast (of_nat (hd ch) :: u32) :: u16) = of_nat (hd ch)" using small' by (simp add: unsigned_of_nat take_bit_nat_eq_self)
  have slot: "unat (last_used_idx q AND (queue_size q - 1)) < length (used_ring q)" using sz(6) rep by (simp add: vq_rep_def)
  have "VirtQueue_pop_used q = Inr (Inr (of_nat (hd ch), len), ?q')"
    using pop e slot recycle_loop [of "q\<lparr>free_head := of_nat (hd ch)\<rparr>" ch "free_head q"] used small
    by (simp add: VirtQueue_pop_used_def recycle_descriptors_def kdefs id ds2_def Let_def)
  moreover have "vq_rep ?q' (ch @ free) (as @ bs)"
  proof -
    have m: "mset ((ch @ free) @ concat (as @ bs)) = mset (free @ concat inflight)" by (simp add: split ac_simps)
    have nu: "num_used q - of_nat (length ch) = of_nat (length (concat (as @ bs)))"
      using rep split by (simp add: vq_rep_def)
    have u: "\<forall>c\<in>set (as @ bs). used_chain ds2 c"
      using rep split used_chain_update [OF apart] by (auto simp: vq_rep_def ds2_def)
    have f: "free_chain ds2 (of_nat (hd ch)) (ch @ free)"
      unfolding ds2_def by (rule recycled_free_chain [OF used free dist])
    show ?thesis
      unfolding vq_rep_def using rep m nu u f
      by (simp only: vq_rep_def VirtQueue.simps ds2_def length_list_update) simp
  qed
  moreover have "chain_view ?q' c = chain_view q c" if "c \<in> set (as @ bs)" for c
  proof -
    have "last ch \<noteq> x" if "x \<in> set c" for x using apart [OF \<open>c \<in> set (as @ bs)\<close>] that by auto
    then show ?thesis by (simp add: chain_view_def ds2_def)
  qed
  ultimately show ?thesis by (intro exI [of _ ?q']) simp
qed

section \<open>The protocol between driver and device\<close>

lemma link_descs_nth:
  "length (link_descs sz ds) = length ds"
  "i < length ds \<Longrightarrow> link_descs sz ds ! i = (if i < unat (sz - 1) then (ds ! i)\<lparr>d_next := of_nat i + 1\<rparr> else ds ! i)"
proof -
  have *: "length (fold (\<lambda>i ds. ds[i := (ds ! i)\<lparr>d_next := of_nat i + 1\<rparr>]) [0..<n] ds) = length ds \<and>
    (i < length ds \<longrightarrow> fold (\<lambda>i ds. ds[i := (ds ! i)\<lparr>d_next := of_nat i + 1\<rparr>]) [0..<n] ds ! i =
       (if i < n then (ds ! i)\<lparr>d_next := of_nat i + 1\<rparr> else ds ! i))" for n i and ds :: "Descriptor list"
    by (induction n) (auto simp: nth_list_update less_Suc_eq)
  show "length (link_descs sz ds) = length ds" using * by (simp add: link_descs_def)
  show "i < length ds \<Longrightarrow> link_descs sz ds ! i = (if i < unat (sz - 1) then (ds ! i)\<lparr>d_next := of_nat i + 1\<rparr> else ds ! i)"
    unfolding link_descs_def using * by blast
qed

lemma free_chain_upt:
  assumes "\<And>i. Suc i < n \<Longrightarrow> d_next (ds ! i) = of_nat (Suc i)" "length ds = n" "a \<le> n"
  shows "free_chain ds (of_nat a) [a..<n]"
  using assms(3)
proof (induction "n - a" arbitrary: a)
  case (Suc m)
  then have c: "[a..<n] = a # [Suc a..<n]" by (simp add: upt_conv_Cons)
  show ?case
  proof (cases "Suc a < n")
    case True
    then have "free_chain ds (of_nat (Suc a)) [Suc a..<n]" using Suc by (intro Suc.hyps) auto
    then show ?thesis using c True assms by simp
  next
    case False
    then show ?thesis using c Suc assms(2) by simp
  qed
qed simp

lemma VirtQueue_new_rep:
  assumes new: "VirtQueue_new H alloc idx sz h = Inr (Inr q, h')" and k: "k \<le> 5" "sz = push_bit k 1"
  shows "vq_rep q [0..<unat sz] []" "used_ring_idx q = 0" "last_used_idx q = 0" "queue_size q = sz"
    "avail_idx q = 0" "avail_ring_idx q = 0"
proof -
  have q: "vq_desc q = link_descs sz (replicate (unat sz) zero_desc)" "avail_ring_idx q = 0" "length (avail_ring q) = 32"
      "used_ring_idx q = 0" "length (used_ring q) = 32" "queue_size q = sz" "num_used q = 0" "free_head q = 0"
      "avail_idx q = 0" "last_used_idx q = 0"
    using new by (auto simp: VirtQueue_new_def kdefs split: if_splits sum.splits prod.splits)
  have p: "(2 :: nat) ^ k \<le> 32" using k(1) power_increasing [of k 5 "2 :: nat"] by simp
  have u: "unat sz = 2 ^ k" unfolding k(2) by (subst unat_push_bit_small) (use p in simp_all)
  have "1 \<le> sz" using u by (simp add: word_le_nat_alt)
  then have u1: "unat (sz - 1) = 2 ^ k - 1" using u by (simp add: unat_sub_small)
  have "free_chain (link_descs sz (replicate (unat sz) zero_desc)) (of_nat 0) [0..<unat sz]"
    by (rule free_chain_upt) (use u u1 in \<open>auto simp: link_descs_nth\<close>)
  then show "vq_rep q [0..<unat sz] []" using q k by (auto simp: vq_rep_def link_descs_nth(1))
qed (use new in \<open>auto simp: VirtQueue_new_def kdefs split: if_splits sum.splits prod.splits\<close>)

text \<open>The device returns a chain: it writes the chain's token and a length to the next used slot.\<close>

definition device_complete :: "u16 \<Rightarrow> u32 \<Rightarrow> VirtQueue \<Rightarrow> VirtQueue" where
  "device_complete tok len q =
     q\<lparr>used_ring := (used_ring q)[unat (used_ring_idx q AND (queue_size q - 1)) := \<lparr>ue_id = ucast tok, ue_len = len\<rparr>],
       used_ring_idx := used_ring_idx q + 1\<rparr>"

text \<open>
  The states reachable by any interleaving of the driver's operations and the device's completions,
  with the tokens still at the device and those completed but not yet popped.
\<close>

inductive vq_reach :: "'h mmio \<Rightarrow> (usize \<Rightarrow> ('h, usize) kernel) \<Rightarrow> (usize \<Rightarrow> usize) \<Rightarrow> u16 \<Rightarrow>
   VirtQueue \<Rightarrow> u16 list \<Rightarrow> (u16 \<times> u32) list \<Rightarrow> bool"
  for H :: "'h mmio" and alloc :: "usize \<Rightarrow> ('h, usize) kernel" and v2p :: "usize \<Rightarrow> usize" and sz :: u16 where
  vr_new: "VirtQueue_new H alloc idx sz h = Inr (Inr q, h') \<Longrightarrow> vq_reach H alloc v2p sz q [] []"
| vr_add: "vq_reach H alloc v2p sz q out fin \<Longrightarrow> VirtQueue_add v2p inputs outputs q = Inr (Inr tok, q') \<Longrightarrow>
    vq_reach H alloc v2p sz q' (tok # out) fin"
| vr_add_err: "vq_reach H alloc v2p sz q out fin \<Longrightarrow> VirtQueue_add v2p inputs outputs q = Inr (Inl e, q') \<Longrightarrow>
    vq_reach H alloc v2p sz q' out fin"
| vr_complete: "vq_reach H alloc v2p sz q (as @ tok # bs) fin \<Longrightarrow>
    vq_reach H alloc v2p sz (device_complete tok len q) (as @ bs) (fin @ [(tok, len)])"
| vr_pop: "vq_reach H alloc v2p sz q out fin \<Longrightarrow> VirtQueue_pop_used q = Inr (Inr p, q') \<Longrightarrow>
    vq_reach H alloc v2p sz q' out (tl fin)"
| vr_pop_err: "vq_reach H alloc v2p sz q out fin \<Longrightarrow> VirtQueue_pop_used q = Inr (Inl e, q') \<Longrightarrow>
    vq_reach H alloc v2p sz q' out fin"

definition used_slot :: "VirtQueue \<Rightarrow> nat \<Rightarrow> nat" where
  "used_slot q i = unat ((last_used_idx q + of_nat i) AND (queue_size q - 1))"

definition vq_inv :: "VirtQueue \<Rightarrow> u16 list \<Rightarrow> (u16 \<times> u32) list \<Rightarrow> bool" where
  "vq_inv q out fin \<longleftrightarrow> (\<exists>free inflight. vq_rep q free inflight \<and>
     mset (map (\<lambda>ch. of_nat (hd ch)) inflight) = mset (out @ map fst fin)) \<and>
     used_ring_idx q = last_used_idx q + of_nat (length fin) \<and>
     (\<forall>i<length fin. used_ring q ! used_slot q i = \<lparr>ue_id = ucast (fst (fin ! i)), ue_len = snd (fin ! i)\<rparr>)"

lemma VirtQueue_add_cases:
  fixes inputs outputs :: "(usize \<times> usize) list"
  assumes rep: "vq_rep q free inflight"
  defines "k \<equiv> length inputs + length outputs"
  shows "k = 0 \<Longrightarrow> VirtQueue_add v2p inputs outputs q = Inr (Inl InvalidParam, q)"
    "k \<noteq> 0 \<Longrightarrow> length free < k \<Longrightarrow> VirtQueue_add v2p inputs outputs q = Inr (Inl BufferTooSmall, q)"
proof -
  show "VirtQueue_add v2p inputs outputs q = Inr (Inl InvalidParam, q)" if "k = 0"
    using that by (simp add: VirtQueue_add_def k_def kdefs)
  show "VirtQueue_add v2p inputs outputs q = Inr (Inl BufferTooSmall, q)" if "k \<noteq> 0" "length free < k"
  proof -
    have "unat (queue_size q) < length inputs + length outputs + unat (num_used q)"
      using vq_rep_size(2,3) [OF rep] that(2) by (simp add: k_def)
    then show ?thesis using that(1) by (auto simp: VirtQueue_add_def k_def kdefs)
  qed
qed

lemma inflight_bound:
  assumes "vq_rep q free inflight"
  shows "length inflight \<le> length (concat inflight)"
proof -
  have "\<forall>ch\<in>set inflight. ch \<noteq> []" using assms by (auto simp: vq_rep_def)
  then show ?thesis
  proof (induction inflight)
    case (Cons c cs)
    then show ?case by (cases c) auto
  qed simp
qed

text \<open>Slots of the used ring wrap around with the queue size and are distinct while no more are in use.\<close>

lemma used_slot_mod:
  assumes "vq_rep q free inflight"
  shows "used_slot q i = (unat (last_used_idx q) + i) mod unat (queue_size q)"
proof -
  obtain k where k: "k \<le> 5" "queue_size q = push_bit k 1" using assms by (auto simp: vq_rep_def)
  have p: "(2 :: nat) ^ k \<le> 32" using k(1) power_increasing [of k 5 "2 :: nat"] by simp
  have u: "unat (queue_size q) = 2 ^ k" unfolding k(2) by (subst unat_push_bit_small) (use p in simp_all)
  have d: "(2 :: nat) ^ k dvd 2 ^ 16" using k(1) by (intro le_imp_power_dvd) simp
  have "used_slot q i = unat (last_used_idx q + of_nat i) mod 2 ^ k"
    unfolding used_slot_def k(2) by (rule unat_and_mask) (use k(1) in simp)
  also have "unat (last_used_idx q + of_nat i) = (unat (last_used_idx q) + i) mod 2 ^ 16"
    by (simp add: unat_word_ariths unat_of_nat mod_add_right_eq)
  finally show ?thesis using d u by (simp add: mod_mod_cancel)
qed

lemma mod_shift_distinct: "(a + i) mod n \<noteq> (a + j) mod n" if "i < j" "j < n" for a i j n :: nat
proof
  assume "(a + i) mod n = (a + j) mod n"
  then have "n dvd (a + j) - (a + i)" by (metis mod_eq_dvd_iff_nat nat_add_left_cancel_le less_imp_le_nat that(1))
  then show False using that by (auto dest: dvd_imp_le)
qed

lemma vq_invI:
  assumes "vq_rep q free inflight" "mset (map (\<lambda>ch. of_nat (hd ch)) inflight) = mset (out @ map fst fin)"
    "used_ring_idx q = last_used_idx q + of_nat (length fin)"
    "\<And>i. i < length fin \<Longrightarrow> used_ring q ! used_slot q i = \<lparr>ue_id = ucast (fst (fin ! i)), ue_len = snd (fin ! i)\<rparr>"
  shows "vq_inv q out fin"
  unfolding vq_inv_def using assms by blast

lemma vq_inv_add:
  assumes inv: "vq_inv q out fin" and add: "VirtQueue_add v2p inputs outputs q = Inr (r, q')"
  shows "case r of Inl e \<Rightarrow> q' = q | Inr tok \<Rightarrow> vq_inv q' (tok # out) fin"
proof -
  obtain free inflight where rep: "vq_rep q free inflight"
      and m: "mset (map (\<lambda>ch. of_nat (hd ch)) inflight) = mset (out @ map fst fin)"
    using inv by (auto simp: vq_inv_def)
  let ?k = "length inputs + length outputs"
  consider "?k = 0" | "?k \<noteq> 0" "length free < ?k" | "0 < ?k" "?k \<le> length free" by linarith
  then show ?thesis
  proof cases
    case 3
    obtain q2 where q2: "VirtQueue_add v2p inputs outputs q = Inr (Inr (of_nat (hd free)), q2)"
        "vq_rep q2 (drop ?k free) (inflight @ [take ?k free])" "used_ring_idx q2 = used_ring_idx q"
        "used_ring q2 = used_ring q" "last_used_idx q2 = last_used_idx q" "queue_size q2 = queue_size q"
      using VirtQueue_add_spec [OF rep refl 3] by auto
    have "hd (take ?k free) = hd free" using 3 by (cases free) (auto simp: take_Cons')
    then have "mset (map (\<lambda>ch. of_nat (hd ch)) (inflight @ [take ?k free])) = mset ((of_nat (hd free) # out) @ map fst fin)"
      using m by simp
    then have "vq_inv q2 (of_nat (hd free) # out) fin"
      by (rule vq_invI [OF q2(2)]) (use inv q2(3-6) in \<open>auto simp: vq_inv_def used_slot_def\<close>)
    then show ?thesis using q2(1) add by simp
  qed (use VirtQueue_add_cases [OF rep, of inputs outputs v2p] add in auto)
qed

lemma fin_bound:
  assumes rep: "vq_rep q free inflight" and m: "mset (map (\<lambda>ch. of_nat (hd ch)) inflight) = mset (out @ map fst fin)"
  shows "length out + length fin \<le> unat (queue_size q)" "length fin \<le> 32"
proof -
  have "length inflight = length out + length fin" using arg_cong [OF m, of size] by simp
  then show "length out + length fin \<le> unat (queue_size q)"
    using inflight_bound [OF rep] vq_rep_size(2) [OF rep] by linarith
  then show "length fin \<le> 32" using vq_rep_size(1) [OF rep] by linarith
qed

lemma vq_inv_complete:
  assumes inv: "vq_inv q (as @ tok # bs) fin"
  shows "vq_inv (device_complete tok len q) (as @ bs) (fin @ [(tok, len)])"
proof -
  obtain free inflight where rep: "vq_rep q free inflight"
      and m: "mset (map (\<lambda>ch. of_nat (hd ch)) inflight) = mset ((as @ tok # bs) @ map fst fin)"
    using inv by (auto simp: vq_inv_def)
  let ?q = "device_complete tok len q"
  have rep': "vq_rep ?q free inflight" using rep by (simp add: vq_rep_def device_complete_def)
  have idx: "used_ring_idx q = last_used_idx q + of_nat (length fin)" using inv by (simp add: vq_inv_def)
  have slot: "used_slot ?q i = used_slot q i" for i by (simp add: used_slot_def device_complete_def)
  have at: "unat (used_ring_idx q AND (queue_size q - 1)) = used_slot q (length fin)" by (simp add: used_slot_def idx)
  have less: "length fin < unat (queue_size q)" using fin_bound(1) [OF rep m] by simp
  have ne: "used_slot q i \<noteq> used_slot q (length fin)" if "i < length fin" for i
    unfolding used_slot_mod [OF rep] by (rule mod_shift_distinct [OF that less])
  have "used_slot q (length fin) < length (used_ring q)"
    using vq_rep_size(6) [OF rep] rep by (simp add: used_slot_def vq_rep_def)
  moreover have ring: "used_ring ?q = (used_ring q)[used_slot q (length fin) := \<lparr>ue_id = ucast tok, ue_len = len\<rparr>]"
    by (simp add: device_complete_def at)
  ultimately have "used_ring ?q ! used_slot ?q i = \<lparr>ue_id = ucast (fst ((fin @ [(tok, len)]) ! i)), ue_len = snd ((fin @ [(tok, len)]) ! i)\<rparr>"
    if "i < length (fin @ [(tok, len)])" for i
    using that inv ne [of i] unfolding slot ring by (cases "i = length fin") (auto simp: nth_append vq_inv_def)
  moreover have "mset (map (\<lambda>ch. of_nat (hd ch)) inflight) = mset ((as @ bs) @ map fst (fin @ [(tok, len)]))" using m by simp
  moreover have "used_ring_idx ?q = last_used_idx ?q + of_nat (length (fin @ [(tok, len)]))"
    using idx by (simp add: device_complete_def algebra_simps)
  ultimately show ?thesis using rep' unfolding vq_inv_def by blast
qed

lemma vq_inv_pop:
  assumes inv: "vq_inv q out fin"
  shows "fin = [] \<Longrightarrow> VirtQueue_pop_used q = Inr (Inl NotReady, q)"
    "fin = (tok, len) # rest \<Longrightarrow> \<exists>q'. VirtQueue_pop_used q = Inr (Inr (tok, len), q') \<and> vq_inv q' out rest"
proof -
  obtain free inflight where rep: "vq_rep q free inflight"
      and m: "mset (map (\<lambda>ch. of_nat (hd ch)) inflight) = mset (out @ map fst fin)"
    using inv by (auto simp: vq_inv_def)
  have idx: "used_ring_idx q = last_used_idx q + of_nat (length fin)" using inv by (simp add: vq_inv_def)
  have "unat (of_nat (length fin) :: u16) = length fin" using fin_bound(2) [OF rep m] by (simp add: unat_of_nat)
  then have pop: "can_pop q \<longleftrightarrow> fin \<noteq> []" by (auto simp: can_pop_def idx)
  show "VirtQueue_pop_used q = Inr (Inl NotReady, q)" if "fin = []"
    using pop that by (simp add: VirtQueue_pop_used_def kdefs)
  show "\<exists>q'. VirtQueue_pop_used q = Inr (Inr (tok, len), q') \<and> vq_inv q' out rest" if fin: "fin = (tok, len) # rest"
  proof -
    have "tok \<in># mset (map (\<lambda>ch. of_nat (hd ch)) inflight)" unfolding m using fin by simp
    then obtain ch where ch: "ch \<in> set inflight" "tok = of_nat (hd ch)" by auto
    then obtain as bs where split: "inflight = as @ ch # bs" by (meson split_list)
    have "ch \<noteq> []" using rep ch(1) by (auto simp: vq_rep_def)
    then have "hd ch \<in> set (concat inflight)" using ch(1) hd_in_set by fastforce
    then have "hd ch < 32" using vq_rep_size(1,5) [OF rep] by (metis less_le_trans)
    then have "(ucast tok :: u32) = of_nat (hd ch)" unfolding ch(2) by (simp add: unsigned_of_nat take_bit_nat_eq_self)
    moreover have "used_ring q ! used_slot q 0 = \<lparr>ue_id = ucast tok, ue_len = len\<rparr>"
      using inv fin unfolding vq_inv_def by auto
    ultimately have e: "used_ring q ! unat (last_used_idx q AND (queue_size q - 1)) = \<lparr>ue_id = of_nat (hd ch), ue_len = len\<rparr>"
      by (simp add: used_slot_def)
    obtain q' where q': "VirtQueue_pop_used q = Inr (Inr (of_nat (hd ch), len), q')" "vq_rep q' (ch @ free) (as @ bs)"
        "last_used_idx q' = last_used_idx q + 1" "used_ring q' = used_ring q" "used_ring_idx q' = used_ring_idx q"
        "queue_size q' = queue_size q"
      using VirtQueue_pop_spec [OF rep _ split e] pop fin by auto
    have "used_slot q' i = used_slot q (Suc i)" for i by (simp add: used_slot_def q' algebra_simps)
    then have ring: "used_ring q' ! used_slot q' i = \<lparr>ue_id = ucast (fst (rest ! i)), ue_len = snd (rest ! i)\<rparr>" if "i < length rest" for i
      using inv that fin q'(4) unfolding vq_inv_def by (metis length_Cons not_less_eq nth_Cons_Suc)
    have "mset (map (\<lambda>ch. of_nat (hd ch)) (as @ bs)) = mset (out @ map fst rest)"
      using m fin split ch(2) by simp
    then have "vq_inv q' out rest"
      by (rule vq_invI [OF q'(2)]) (use ring idx fin q'(3,5) in \<open>simp_all add: algebra_simps\<close>)
    then show ?thesis using q'(1) ch(2) by simp
  qed
qed

lemma vq_reach_inv:
  assumes "vq_reach H alloc v2p sz q out fin" "sz = push_bit k 1" "k \<le> 5"
  shows "vq_inv q out fin"
  using assms(1)
proof (induction rule: vq_reach.induct)
  case (vr_new idx h q h')
  then show ?case
    using VirtQueue_new_rep [OF vr_new assms(3,2)] by (intro vq_invI [of q "[0..<unat sz]" "[]"]) auto
next
  case (vr_add q out fin inputs outputs tok q')
  then show ?case using vq_inv_add by fastforce
next
  case (vr_add_err q out fin inputs outputs e q')
  then show ?case using vq_inv_add by fastforce
next
  case (vr_complete q as tok bs fin len)
  then show ?case by (intro vq_inv_complete)
next
  case (vr_pop q out fin p q')
  then show ?case using vq_inv_pop [of q out fin] by (cases fin) auto
next
  case (vr_pop_err q out fin e q')
  then show ?case using vq_inv_pop [of q out fin] by (cases fin) auto
qed


lemma vq_inv_add_ok:
  assumes inv: "vq_inv q out fin" and ne: "inputs \<noteq> [] \<or> outputs \<noteq> []"
  shows "available_desc q < length inputs + length outputs \<Longrightarrow> VirtQueue_add v2p inputs outputs q = Inr (Inl BufferTooSmall, q)"
    "length inputs + length outputs \<le> available_desc q \<Longrightarrow>
       \<exists>tok q'. VirtQueue_add v2p inputs outputs q = Inr (Inr tok, q') \<and> tok \<notin> set out \<union> fst ` set fin"
proof -
  obtain free inflight where rep: "vq_rep q free inflight"
      and m: "mset (map (\<lambda>ch. of_nat (hd ch)) inflight) = mset (out @ map fst fin)"
    using inv by (auto simp: vq_inv_def)
  let ?k = "length inputs + length outputs"
  have pos: "0 < ?k" using ne by auto
  have "num_used q \<le> queue_size q" using vq_rep_size(2,3) [OF rep] by (simp add: word_le_nat_alt)
  then have av: "available_desc q = length free"
    using vq_rep_size(2,3) [OF rep] by (simp add: available_desc_def unat_sub)
  show "VirtQueue_add v2p inputs outputs q = Inr (Inl BufferTooSmall, q)" if "available_desc q < ?k"
    using VirtQueue_add_cases(2) [OF rep, of inputs outputs v2p] that pos av by simp
  show "\<exists>tok q'. VirtQueue_add v2p inputs outputs q = Inr (Inr tok, q') \<and> tok \<notin> set out \<union> fst ` set fin" if le: "?k \<le> available_desc q"
  proof -
    obtain q' where q': "VirtQueue_add v2p inputs outputs q = Inr (Inr (of_nat (hd free)), q')"
      using VirtQueue_add_spec [OF rep refl, of inputs outputs v2p] pos le av by auto
    have mem: "hd free \<in> set free" using pos le av by (cases free) auto
    have "of_nat (hd free) \<noteq> (of_nat (hd ch) :: u16)" if "ch \<in> set inflight" for ch
    proof -
      have "ch \<noteq> []" using rep that by (auto simp: vq_rep_def)
      then have h: "hd ch \<in> set (concat inflight)" using that hd_in_set by fastforce
      then have "hd ch \<noteq> hd free" using mem vq_rep_size(4) [OF rep] by (metis disjoint_iff distinct_append)
      then show ?thesis using of_nat_inj_small [of "hd free" "hd ch"] h mem vq_rep_size(1,5) [OF rep] by (metis less_le_trans)
    qed
    moreover have "set (map (\<lambda>ch. of_nat (hd ch)) inflight) = set (out @ map fst fin)"
      using m by (metis set_mset_mset)
    ultimately have "of_nat (hd free) \<notin> set (out @ map fst fin)" by (metis (no_types, lifting) image_iff list.set_map)
    then show ?thesis using q' by auto
  qed
qed


definition sample_regs :: virtio_regs where
  "sample_regs = \<lparr>vr_device_features = 0, vr_driver_features = 0, vr_device_sel = 0, vr_driver_sel = 0, vr_status = 0,
     vr_page_size = 0, vr_queue_sel = 0, vr_queue_max = 16, vr_queue_num = 0, vr_queue_pfn = (\<lambda>_. 0), vr_notified = []\<rparr>"

lemma VirtQueue_new_sample:
  "\<exists>q h'. VirtQueue_new legacy_mmio (\<lambda>_. kret 0x80800000) 0 4 sample_regs = Inr (Inr q, h')"
  by (simp add: VirtQueue_new_def queue_used_def queue_physical_page_number_def max_queue_size_def rd_def wr_def kdefs
      legacy_mmio_def regs_read_def regs_write_def sample_regs_def is_power_of_two_def upt_rec VirtQueueLayout_new_def
      Let_def DMA_new_def queue_set_def)

lemma virtqueue_sample:
  "\<exists>q. vq_reach (legacy_mmio :: virtio_regs mmio) (\<lambda>_. kret 0x80800000) id 4 q [] [(0, 9)]"
proof -
  let ?R = "vq_reach (legacy_mmio :: virtio_regs mmio) (\<lambda>_. kret 0x80800000) id 4"
  obtain q h' where q: "VirtQueue_new (legacy_mmio :: virtio_regs mmio) (\<lambda>_. kret 0x80800000) 0 4 sample_regs = Inr (Inr q, h')"
    using VirtQueue_new_sample by blast
  have r: "?R q [] []" using q by (rule vr_new)
  have "vq_rep q [0..<unat (4 :: u16)] []" using VirtQueue_new_rep(1) [OF q, of 2] by simp
  then obtain q' where q': "VirtQueue_add id [(0, 16)] [(16, 1)] q = Inr (Inr (of_nat (hd [0..<unat (4 :: u16)])), q')"
    using VirtQueue_add_spec [OF _ refl, of q "[0..<unat (4 :: u16)]" "[]" "[(0, 16)]" "[(16, 1)]" id] by auto
  have "?R q' ([] @ 0 # []) []" using vr_add [OF r q'] by (simp add: upt_rec)
  then have "?R (device_complete 0 9 q') [] [(0, 9)]" using vr_complete by fastforce
  then show ?thesis by blast
qed


end
