(* ===== verification/Virtio_Blk.thy ===== *)
theory Virtio_Blk
  imports Virtio_Queue Sector_Device Frame_Allocator
begin

text \<open>
  \<^verbatim>\<open>virtio-drivers/src/blk.rs\<close> and \<^verbatim>\<open>fs/block_dev/virtio_block.rs\<close>: the block driver over a virtqueue,
  the kernel's wrapper around it and \<^verbatim>\<open>Nuclear\<close>, the sector device the FAT32 library runs on.

  The disk is hardware: its registers and the turns it takes on the shared memory are a parameter.
  Its documented behaviour is the locale \<^verbatim>\<open>virtio_disk\<close>; the lemmas show that the driver then is a
  \<^verbatim>\<open>sector_device\<close>: no request panics or hangs, reads return the sectors and writes change
  exactly them.
\<close>

section \<open>Requests\<close>

datatype ReqType = ReqIn | ReqOut | ReqFlush | ReqDiscard | ReqWriteZeroes

fun ReqType_value :: "ReqType \<Rightarrow> u32" where
  "ReqType_value ReqIn = 0"
| "ReqType_value ReqOut = 1"
| "ReqType_value ReqFlush = 4"
| "ReqType_value ReqDiscard = 11"
| "ReqType_value ReqWriteZeroes = 13"

datatype RespStatus = RespOk | RespIoErr | RespUnsupported | RespNotReady

fun RespStatus_value :: "RespStatus \<Rightarrow> u8" where
  "RespStatus_value RespOk = 0"
| "RespStatus_value RespIoErr = 1"
| "RespStatus_value RespUnsupported = 2"
| "RespStatus_value RespNotReady = 3"

definition BLK_SIZE :: nat where
  "BLK_SIZE = 512"

record BlkReq =
  req_type :: ReqType
  req_reserved :: u32
  req_sector :: u64

definition BlkReq_as_buf :: "BlkReq \<Rightarrow> u8 list" where
  "BlkReq_as_buf r =
     to_le_bytes 4 (ReqType_value (req_type r)) @ to_le_bytes 4 (req_reserved r) @ to_le_bytes 8 (req_sector r)"

definition BlkResp_default :: RespStatus where
  "BlkResp_default = RespNotReady"

section \<open>The driver\<close>

text \<open>
  The driver's state is its queue and capacity, the memory it shares with the disk, and the disk.  The
  disk is a record of its registers, of the capacity word of its configuration space and of one turn of
  its work on the queue and the memory.
\<close>

record 'h VirtIOBlk =
  blk_queue :: VirtQueue
  blk_capacity :: usize
  blk_mem :: memory
  blk_hw :: 'h

record 'h disk_hw =
  hw_mmio :: "'h mmio"
  hw_capacity :: "'h \<Rightarrow> u64"
  hw_turn :: "VirtQueue \<times> memory \<times> 'h \<Rightarrow> VirtQueue \<times> memory \<times> 'h"

definition on_queue :: "(VirtQueue, 'a) kernel \<Rightarrow> ('h VirtIOBlk, 'a) kernel" where
  "on_queue = kzoom blk_queue (\<lambda>q s. s\<lparr>blk_queue := q\<rparr>)"

definition on_hw :: "('h, 'a) kernel \<Rightarrow> ('h VirtIOBlk, 'a) kernel" where
  "on_hw = kzoom blk_hw (\<lambda>h s. s\<lparr>blk_hw := h\<rparr>)"

definition put_mem :: "usize \<Rightarrow> u8 list \<Rightarrow> ('h VirtIOBlk, unit) kernel" where
  "put_mem a bs = kmodify (\<lambda>s. s\<lparr>blk_mem := mem_write (blk_mem s) (unat a) bs\<rparr>)"

definition get_mem :: "usize \<Rightarrow> nat \<Rightarrow> ('h VirtIOBlk, u8 list) kernel" where
  "get_mem a n = kget (\<lambda>s. mem_read (blk_mem s) (unat a) n)"

definition turn :: "'h disk_hw \<Rightarrow> 'h VirtIOBlk \<Rightarrow> 'h VirtIOBlk" where
  "turn W s = (case hw_turn W (blk_queue s, blk_mem s, blk_hw s) of (q, m, h) \<Rightarrow> s\<lparr>blk_queue := q, blk_mem := m, blk_hw := h\<rparr>)"

text \<open>Creating the driver: no optional feature is negotiated, the queue has 16 entries.\<close>

definition VirtIOBlk_new ::
  "'h disk_hw \<Rightarrow> (usize \<Rightarrow> ('h, usize) kernel) \<Rightarrow> ('h, VirtError + (VirtQueue \<times> usize)) kernel" where
  "VirtIOBlk_new W alloc =
     kthen (begin_init (hw_mmio W) (\<lambda>features. features AND 0))
     (kbind (VirtQueue_new (hw_mmio W) alloc 0 16) (\<lambda>r.
        case r of
          Inl e \<Rightarrow> kret (Inl e)
        | Inr queue \<Rightarrow>
            kthen (finish_init (hw_mmio W)) (kbind (kget (hw_capacity W)) (\<lambda>c. kret (Inr (queue, c))))))"

definition VirtIOBlk_ack_interrupt :: "'h disk_hw \<Rightarrow> ('h VirtIOBlk, bool) kernel" where
  "VirtIOBlk_ack_interrupt W = on_hw (ack_interrupt (hw_mmio W))"

text \<open>Where the request, the buffer and the response of a call lie in memory.\<close>

record blk_frame =
  req_at :: usize
  buf_at :: usize
  resp_at :: usize

text \<open>The part the blocking and the non-blocking requests share: queue the chain, then ring the bell.\<close>

definition submit ::
  "'h disk_hw \<Rightarrow> (usize \<Rightarrow> usize) \<Rightarrow> (usize \<times> usize) list \<Rightarrow> (usize \<times> usize) list \<Rightarrow> ('h VirtIOBlk, VirtError + u16) kernel" where
  "submit W v2p inputs outputs =
     kbind (on_queue (VirtQueue_add v2p inputs outputs)) (\<lambda>r.
       case r of
         Inl e \<Rightarrow> kret (Inl e)
       | Inr token \<Rightarrow> kthen (on_hw (notify (hw_mmio W) 0)) (kret (Inr token)))"

text \<open>The spin loop; before every look at the used ring the disk may take a turn.\<close>

definition spin_until_used :: "'h disk_hw \<Rightarrow> ('h VirtIOBlk, unit) kernel" where
  "spin_until_used W =
     kloop (\<lambda>_. kthen (kmodify (turn W))
       (kbind (kget (\<lambda>s. can_pop (blk_queue s))) (\<lambda>ready. kret (if ready then Inr () else Inl ())))) ()"

text \<open>Waiting for the answer and reading its status.\<close>

definition finish :: "'h disk_hw \<Rightarrow> usize \<Rightarrow> ('h VirtIOBlk, VirtError + unit) kernel" where
  "finish W resp =
     kthen (spin_until_used W)
     (kbind (on_queue VirtQueue_pop_used) (\<lambda>r.
        case r of
          Inl e \<Rightarrow> kret (Inl e)
        | Inr _ \<Rightarrow> kbind (get_mem resp 1) (\<lambda>st. kret (if st = [RespStatus_value RespOk] then Inr () else Inl IoError))))"

definition VirtIOBlk_read_block ::
  "'h disk_hw \<Rightarrow> (usize \<Rightarrow> usize) \<Rightarrow> blk_frame \<Rightarrow> usize \<Rightarrow> u8 list \<Rightarrow>
   ('h VirtIOBlk, (VirtError + unit) \<times> u8 list) kernel" where
  "VirtIOBlk_read_block W v2p fr block_id buf =
     kthen (kassert (length buf = BLK_SIZE))
     (kthen (put_mem (buf_at fr) buf)
     (kthen (put_mem (req_at fr) (BlkReq_as_buf \<lparr>req_type = ReqIn, req_reserved = 0, req_sector = block_id\<rparr>))
     (kthen (put_mem (resp_at fr) [RespStatus_value BlkResp_default])
     (kbind (submit W v2p [(req_at fr, 16)] [(buf_at fr, of_nat (length buf)), (resp_at fr, 1)]) (\<lambda>r.
      kbind (case r of Inl e \<Rightarrow> kret (Inl e) | Inr _ \<Rightarrow> finish W (resp_at fr)) (\<lambda>r.
      kbind (get_mem (buf_at fr) (length buf)) (\<lambda>buf. kret (r, buf))))))))"

definition VirtIOBlk_write_block ::
  "'h disk_hw \<Rightarrow> (usize \<Rightarrow> usize) \<Rightarrow> blk_frame \<Rightarrow> usize \<Rightarrow> u8 list \<Rightarrow> ('h VirtIOBlk, VirtError + unit) kernel" where
  "VirtIOBlk_write_block W v2p fr block_id buf =
     kthen (kassert (length buf = BLK_SIZE))
     (kthen (put_mem (buf_at fr) buf)
     (kthen (put_mem (req_at fr) (BlkReq_as_buf \<lparr>req_type = ReqOut, req_reserved = 0, req_sector = block_id\<rparr>))
     (kthen (put_mem (resp_at fr) [RespStatus_value BlkResp_default])
     (kbind (submit W v2p [(req_at fr, 16), (buf_at fr, of_nat (length buf))] [(resp_at fr, 1)]) (\<lambda>r.
      case r of Inl e \<Rightarrow> kret (Inl e) | Inr _ \<Rightarrow> finish W (resp_at fr))))))"

text \<open>The non-blocking requests: the buffer and the response stay in the caller's memory.\<close>

definition VirtIOBlk_read_block_nb ::
  "'h disk_hw \<Rightarrow> (usize \<Rightarrow> usize) \<Rightarrow> blk_frame \<Rightarrow> usize \<Rightarrow> nat \<Rightarrow> ('h VirtIOBlk, VirtError + u16) kernel" where
  "VirtIOBlk_read_block_nb W v2p fr block_id len =
     kthen (kassert (len = BLK_SIZE))
     (kthen (put_mem (req_at fr) (BlkReq_as_buf \<lparr>req_type = ReqIn, req_reserved = 0, req_sector = block_id\<rparr>))
       (submit W v2p [(req_at fr, 16)] [(buf_at fr, of_nat len), (resp_at fr, 1)]))"

definition VirtIOBlk_write_block_nb ::
  "'h disk_hw \<Rightarrow> (usize \<Rightarrow> usize) \<Rightarrow> blk_frame \<Rightarrow> usize \<Rightarrow> nat \<Rightarrow> ('h VirtIOBlk, VirtError + u16) kernel" where
  "VirtIOBlk_write_block_nb W v2p fr block_id len =
     kthen (kassert (len = BLK_SIZE))
     (kthen (put_mem (req_at fr) (BlkReq_as_buf \<lparr>req_type = ReqOut, req_reserved = 0, req_sector = block_id\<rparr>))
       (submit W v2p [(req_at fr, 16), (buf_at fr, of_nat len)] [(resp_at fr, 1)]))"

definition VirtIOBlk_pop_used :: "('h VirtIOBlk, VirtError + u16) kernel" where
  "VirtIOBlk_pop_used = kbind (on_queue VirtQueue_pop_used) (\<lambda>r. kret (map_sum id fst r))"

definition virt_queue_size :: "('h VirtIOBlk, u16) kernel" where
  "virt_queue_size = kget (\<lambda>s. queue_size (blk_queue s))"

section \<open>The kernel's block device\<close>

text \<open>\<^verbatim>\<open>VirtIOBlock\<close>: a failed request panics.\<close>

definition VirtIOBlock_read_block ::
  "'h disk_hw \<Rightarrow> (usize \<Rightarrow> usize) \<Rightarrow> blk_frame \<Rightarrow> usize \<Rightarrow> u8 list \<Rightarrow> ('h VirtIOBlk, u8 list) kernel" where
  "VirtIOBlock_read_block W v2p fr block_id buf =
     kbind (VirtIOBlk_read_block W v2p fr block_id buf) (\<lambda>(r, buf). kthen (kcheck UnwrapErr (\<not> isl r)) (kret buf))"

definition VirtIOBlock_write_block ::
  "'h disk_hw \<Rightarrow> (usize \<Rightarrow> usize) \<Rightarrow> blk_frame \<Rightarrow> usize \<Rightarrow> u8 list \<Rightarrow> ('h VirtIOBlk, unit) kernel" where
  "VirtIOBlock_write_block W v2p fr block_id buf =
     kbind (VirtIOBlk_write_block W v2p fr block_id buf) (\<lambda>r. kcheck UnwrapErr (\<not> isl r))"

text \<open>
  \<^verbatim>\<open>Nuclear\<close>: a byte address and a buffer, cut into chunks of 512 bytes.  The number of blocks is
  ignored, as in the source.  \<^term>\<open>fr i\<close> is where the \<^term>\<open>i\<close>-th call finds its memory.
\<close>

fun chunks :: "nat \<Rightarrow> u8 list \<Rightarrow> u8 list list" where
  "chunks n xs = (if xs = [] \<or> n = 0 then [] else take n xs # chunks n (drop n xs))"

declare chunks.simps [simp del]

definition read_chunk ::
  "'h disk_hw \<Rightarrow> (usize \<Rightarrow> usize) \<Rightarrow> (nat \<Rightarrow> blk_frame) \<Rightarrow> usize \<Rightarrow> u8 list \<Rightarrow> nat \<times> u8 list \<Rightarrow>
   ('h VirtIOBlk, nat \<times> u8 list) kernel" where
  "read_chunk W v2p fr address chunk = (\<lambda>(i, done).
     kbind (VirtIOBlock_read_block W v2p (fr i) (address div 512 + of_nat i) (replicate 512 0)) (\<lambda>tmp.
     kbind (checked_slice 0 (length chunk) tmp) (\<lambda>part.
     kbind (copy_from_slice 0 (length chunk) part chunk) (\<lambda>chunk. kret (i + 1, done @ chunk)))))"

definition Nuclear_read ::
  "'h disk_hw \<Rightarrow> (usize \<Rightarrow> usize) \<Rightarrow> (nat \<Rightarrow> blk_frame) \<Rightarrow> u8 list \<Rightarrow> usize \<Rightarrow> nat \<Rightarrow>
   ('h VirtIOBlk, bool \<times> u8 list) kernel" where
  "Nuclear_read W v2p fr buf address number_of_blocks =
     kbind (kfold (read_chunk W v2p fr address) (chunks 512 buf) (0, [])) (\<lambda>(_, buf). kret (True, buf))"

definition write_chunk ::
  "'h disk_hw \<Rightarrow> (usize \<Rightarrow> usize) \<Rightarrow> (nat \<Rightarrow> blk_frame) \<Rightarrow> usize \<Rightarrow> u8 list \<Rightarrow> nat \<Rightarrow> ('h VirtIOBlk, nat) kernel" where
  "write_chunk W v2p fr address chunk i =
     kthen (VirtIOBlock_write_block W v2p (fr i) (address div 512 + of_nat i) chunk) (kret (i + 1))"

definition Nuclear_write ::
  "'h disk_hw \<Rightarrow> (usize \<Rightarrow> usize) \<Rightarrow> (nat \<Rightarrow> blk_frame) \<Rightarrow> u8 list \<Rightarrow> usize \<Rightarrow> nat \<Rightarrow> ('h VirtIOBlk, bool) kernel" where
  "Nuclear_write W v2p fr buf address number_of_blocks =
     kbind (kfold (write_chunk W v2p fr address) (chunks 512 buf) 0) (\<lambda>_. kret True)"

definition Nuclear :: "'h disk_hw \<Rightarrow> (usize \<Rightarrow> usize) \<Rightarrow> (nat \<Rightarrow> blk_frame) \<Rightarrow> 'h VirtIOBlk sector_dev" where
  "Nuclear W v2p fr = \<lparr>sd_read = Nuclear_read W v2p fr, sd_write = Nuclear_write W v2p fr\<rparr>"

section \<open>Pages for the queue\<close>

text \<open>
  \<^verbatim>\<open>QUEUE_FRAMES\<close> keeps the frames of all queues.  The pages of a queue have to be contiguous, which
  is asserted frame by frame.
\<close>

record virtio_state = mm_state +
  QUEUE_FRAMES :: "FrameTracker list"

definition dma_page :: "nat \<Rightarrow> PhysPageNum \<Rightarrow> ('z virtio_state_scheme, PhysPageNum) kernel" where
  "dma_page i ppn_base =
     kbind frame_alloc (\<lambda>f.
     kbind (kunwrap f) (\<lambda>frame.
     let ppn_base = (if i = 0 then tracker_ppn frame else ppn_base)
     in kthen (kassert (ppn (tracker_ppn frame) = ppn ppn_base + of_nat i))
        (kthen (kmodify (\<lambda>s. s\<lparr>QUEUE_FRAMES := QUEUE_FRAMES s @ [frame]\<rparr>)) (kret ppn_base))))"

definition virtio_dma_alloc :: "usize \<Rightarrow> ('z virtio_state_scheme, PhysAddr) kernel" where
  "virtio_dma_alloc pages =
     kbind (kfold dma_page [0..<unat pages] (PhysPageNum 0)) (\<lambda>ppn_base. kret (PhysAddr_from_PhysPageNum ppn_base))"

definition virtio_dma_dealloc :: "PhysAddr \<Rightarrow> usize \<Rightarrow> ('z virtio_state_scheme, u32) kernel" where
  "virtio_dma_dealloc p pages =
     kbind (kres (PhysPageNum_from_PhysAddr p)) (\<lambda>ppn_base.
     kbind (kfold (\<lambda>_ ppn_base. kthen (frame_dealloc ppn_base) (kret (PhysPageNum_step ppn_base)))
       [0..<unat pages] ppn_base) (\<lambda>_. kret 0))"

definition virtio_phys_to_virt :: "PhysAddr \<Rightarrow> VirtAddr" where
  "virtio_phys_to_virt p = VirtAddr (pa p)"

section \<open>The disk's contract\<close>

definition frame_ok :: "blk_frame \<Rightarrow> bool" where
  "frame_ok f \<longleftrightarrow>
     {unat (req_at f)..<unat (req_at f) + 16} \<inter> {unat (buf_at f)..<unat (buf_at f) + 512} = {} \<and>
     unat (resp_at f) \<notin> {unat (req_at f)..<unat (req_at f) + 16} \<union> {unat (buf_at f)..<unat (buf_at f) + 512}"

text \<open>The chain is the last one published in the available ring.\<close>

definition published :: "VirtQueue \<Rightarrow> nat list \<Rightarrow> bool" where
  "published q ch \<longleftrightarrow> avail_ring q ! unat ((avail_ring_idx q - 1) AND (queue_size q - 1)) = of_nat (hd ch)"

text \<open>After one or more turns the disk is in the second state, and it did not report anything before.\<close>

definition serves ::
  "(VirtQueue \<times> memory \<times> 'h \<Rightarrow> VirtQueue \<times> memory \<times> 'h) \<Rightarrow> VirtQueue \<times> memory \<times> 'h \<Rightarrow> VirtQueue \<times> memory \<times> 'h \<Rightarrow> bool" where
  "serves f s t \<longleftrightarrow> (\<exists>n. (f ^^ Suc n) s = t \<and> (\<forall>k. 0 < k \<and> k \<le> n \<longrightarrow> \<not> can_pop (fst ((f ^^ k) s))))"

text \<open>
  The driver between two requests: nothing is in flight or unpopped, there are descriptors for a
  request, and the disk has served everything published (\<^term>\<open>idle\<close>).
\<close>

definition blk_ok :: "(u16 \<Rightarrow> 'h \<Rightarrow> bool) \<Rightarrow> 'h VirtIOBlk \<Rightarrow> bool" where
  "blk_ok idle s \<longleftrightarrow> (\<exists>free. vq_rep (blk_queue s) free [] \<and> 3 \<le> length free) \<and>
     used_ring_idx (blk_queue s) = last_used_idx (blk_queue s) \<and> avail_ring_idx (blk_queue s) = avail_idx (blk_queue s) \<and>
     idle (avail_ring_idx (blk_queue s)) (blk_hw s)"

text \<open>
  A disk with \<^term>\<open>cap\<close> sectors \<^term>\<open>hsec\<close> that follows the virtio block protocol: when it has served
  everything up to an available index (\<^term>\<open>idle\<close>), is notified and finds a read or write request
  for one of its sectors, then after some turns it has moved the data, written the status byte 0 and
  returned the chain in the used ring.  The addresses \<^term>\<open>fr\<close> the driver uses do not overlap and are
  identity-mapped.
\<close>

locale virtio_disk =
  fixes W :: "'h disk_hw" and v2p :: "usize \<Rightarrow> usize" and fr :: "nat \<Rightarrow> blk_frame"
    and idle :: "u16 \<Rightarrow> 'h \<Rightarrow> bool" and cap :: nat and hsec :: "'h \<Rightarrow> nat \<Rightarrow> u8 list"
  assumes cap_bound: "cap * 512 < 2 ^ 64"
    and hsec_length: "idle x h \<Longrightarrow> i < cap \<Longrightarrow> length (hsec h i) = 512"
    and frames: "frame_ok (fr i)"
    and identity: "v2p (req_at (fr i)) = req_at (fr i)" "v2p (buf_at (fr i)) = buf_at (fr i)"
      "v2p (resp_at (fr i)) = resp_at (fr i)"
    and serve_in: "idle (avail_ring_idx q - 1) h \<Longrightarrow> vq_rep q free [ch] \<Longrightarrow> \<not> can_pop q \<Longrightarrow> published q ch \<Longrightarrow>
      chain_view q ch = [(a, 16, False), (b, 512, True), (c, 1, True)] \<Longrightarrow> i < cap \<Longrightarrow>
      mem_read m (unat a) 16 = BlkReq_as_buf \<lparr>req_type = ReqIn, req_reserved = 0, req_sector = of_nat i\<rparr> \<Longrightarrow>
      \<exists>len h'. serves (hw_turn W) (q, m, mmio_write (hw_mmio W) R_queue_notify 0 h)
          (device_complete (of_nat (hd ch)) len q, mem_write (mem_write m (unat b) (hsec h i)) (unat c) [0], h') \<and>
        idle (avail_ring_idx q) h' \<and> (\<forall>j<cap. hsec h' j = hsec h j)"
    and serve_out: "idle (avail_ring_idx q - 1) h \<Longrightarrow> vq_rep q free [ch] \<Longrightarrow> \<not> can_pop q \<Longrightarrow> published q ch \<Longrightarrow>
      chain_view q ch = [(a, 16, False), (b, 512, False), (c, 1, True)] \<Longrightarrow> i < cap \<Longrightarrow>
      mem_read m (unat a) 16 = BlkReq_as_buf \<lparr>req_type = ReqOut, req_reserved = 0, req_sector = of_nat i\<rparr> \<Longrightarrow>
      \<exists>len h'. serves (hw_turn W) (q, m, mmio_write (hw_mmio W) R_queue_notify 0 h)
          (device_complete (of_nat (hd ch)) len q, mem_write m (unat c) [0], h') \<and>
        idle (avail_ring_idx q) h' \<and>
        (\<forall>j<cap. hsec h' j = (if j = i then mem_read m (unat b) 512 else hsec h j))"
begin

lemma submit_spec:
  assumes ok: "blk_ok idle s" and len: "length inputs + length outputs = 3"
  shows "\<exists>q free ch. submit W v2p inputs outputs s =
       Inr (Inr (of_nat (hd ch)), s\<lparr>blk_queue := q, blk_hw := mmio_write (hw_mmio W) R_queue_notify 0 (blk_hw s)\<rparr>) \<and>
     vq_rep q free [ch] \<and> 3 \<le> length (ch @ free) \<and> chain_view q ch = request_view v2p inputs outputs \<and> published q ch \<and>
     \<not> can_pop q \<and> avail_ring_idx q = avail_idx q \<and> idle (avail_ring_idx q - 1) (blk_hw s) \<and>
     used_ring_idx q = last_used_idx q"
proof -
  obtain free where rep: "vq_rep (blk_queue s) free []" "3 \<le> length free" using ok by (auto simp: blk_ok_def)
  obtain q where q: "VirtQueue_add v2p inputs outputs (blk_queue s) = Inr (Inr (of_nat (hd free)), q)"
      "vq_rep q (drop 3 free) [take 3 free]" "chain_view q (take 3 free) = request_view v2p inputs outputs"
      "avail_idx q = avail_idx (blk_queue s) + 1" "avail_ring_idx q = avail_idx q"
      "avail_ring q ! unat (avail_idx (blk_queue s) AND (queue_size (blk_queue s) - 1)) = of_nat (hd free)"
      "used_ring_idx q = used_ring_idx (blk_queue s)" "last_used_idx q = last_used_idx (blk_queue s)"
      "queue_size q = queue_size (blk_queue s)"
    using VirtQueue_add_spec [OF rep(1) len [symmetric], of v2p] rep(2) by auto
  have hd: "hd (take 3 free) = hd free" by (rule hd_take) simp
  have "published q (take 3 free)" using q hd by (simp add: published_def)
  moreover have "idle (avail_ring_idx q - 1) (blk_hw s)" "\<not> can_pop q" "used_ring_idx q = last_used_idx q"
    using ok q by (auto simp: blk_ok_def can_pop_def)
  moreover have "submit W v2p inputs outputs s =
       Inr (Inr (of_nat (hd (take 3 free))), s\<lparr>blk_queue := q, blk_hw := mmio_write (hw_mmio W) R_queue_notify 0 (blk_hw s)\<rparr>)"
    using q(1) hd by (simp add: submit_def on_queue_def on_hw_def notify_def wr_def kdefs)
  ultimately show ?thesis using q rep(2) by (intro exI [of _ q] exI [of _ "drop 3 free"] exI [of _ "take 3 free"]) simp
qed

lemma turn_eq: "turn W (s\<lparr>blk_queue := q, blk_mem := m, blk_hw := h\<rparr>) =
   (case hw_turn W (q, m, h) of (q, m, h) \<Rightarrow> s\<lparr>blk_queue := q, blk_mem := m, blk_hw := h\<rparr>)"
  by (simp add: turn_def split: prod.split)

lemma spin_spec:
  assumes "serves (hw_turn W) (q, m, h) (q', m', h')" "can_pop q'"
  shows "spin_until_used W (s\<lparr>blk_queue := q, blk_mem := m, blk_hw := h\<rparr>) =
    Inr ((), s\<lparr>blk_queue := q', blk_mem := m', blk_hw := h'\<rparr>)"
proof -
  let ?f = "hw_turn W"
  have "(?f ^^ Suc n) (q, m, h) = (q', m', h') \<Longrightarrow> \<forall>k. 0 < k \<and> k \<le> n \<longrightarrow> \<not> can_pop (fst ((?f ^^ k) (q, m, h))) \<Longrightarrow>
    spin_until_used W (s\<lparr>blk_queue := q, blk_mem := m, blk_hw := h\<rparr>) =
    Inr ((), s\<lparr>blk_queue := q', blk_mem := m', blk_hw := h'\<rparr>)" for n
  proof (induction n arbitrary: q m h)
    case 0
    then show ?case using assms(2) unfolding spin_until_used_def
      by (subst kloop_unfold) (simp add: kdefs turn_eq)
  next
    case (Suc n)
    obtain q1 m1 h1 where 1: "?f (q, m, h) = (q1, m1, h1)" by (metis prod_cases3)
    have p: "(?f ^^ Suc k) (q, m, h) = (?f ^^ k) (q1, m1, h1)" for k using 1 by (simp add: funpow_swap1)
    have "spin_until_used W (s\<lparr>blk_queue := q1, blk_mem := m1, blk_hw := h1\<rparr>) =
        Inr ((), s\<lparr>blk_queue := q', blk_mem := m', blk_hw := h'\<rparr>)"
    proof (rule Suc.IH)
      show "(?f ^^ Suc n) (q1, m1, h1) = (q', m', h')" using Suc.prems(1) p by metis
      show "\<forall>k. 0 < k \<and> k \<le> n \<longrightarrow> \<not> can_pop (fst ((?f ^^ k) (q1, m1, h1)))"
        using Suc.prems(2) p by (metis Suc_le_mono zero_less_Suc)
    qed
    moreover have "\<not> can_pop q1" using Suc.prems(2) 1 by (metis One_nat_def Suc_le_mono fst_conv funpow_0 p le0 zero_less_one)
    ultimately show ?case unfolding spin_until_used_def
      by (subst kloop_unfold) (simp add: kdefs turn_eq 1)
  qed
  then show ?thesis using assms(1) by (auto simp: serves_def)
qed

lemma finish_spec:
  assumes rep: "vq_rep q free [ch]" and idx: "used_ring_idx q = last_used_idx q"
    and serve: "serves (hw_turn W) (q, m, h) (device_complete (of_nat (hd ch)) len q, m', h')"
    and st: "mem_read m' (unat resp) 1 = [0]"
  shows "\<exists>q'. finish W resp (s\<lparr>blk_queue := q, blk_mem := m, blk_hw := h\<rparr>) =
     Inr (Inr (), s\<lparr>blk_queue := q', blk_mem := m', blk_hw := h'\<rparr>) \<and> vq_rep q' (ch @ free) [] \<and>
     used_ring_idx q' = last_used_idx q' \<and> avail_ring_idx q' = avail_ring_idx q \<and> avail_idx q' = avail_idx q"
proof -
  let ?q = "device_complete (of_nat (hd ch)) len q"
  have rep': "vq_rep ?q free [ch]" using rep by (simp add: vq_rep_def device_complete_def)
  have pop: "can_pop ?q" using idx by (simp add: can_pop_def device_complete_def)
  have slot: "unat (last_used_idx q AND (queue_size q - 1)) < length (used_ring q)"
    using vq_rep_size(6) [OF rep] rep by (simp add: vq_rep_def)
  have ne: "ch \<noteq> []" using rep by (auto simp: vq_rep_def)
  then have "hd ch \<in> set (concat [ch])" by simp
  then have "hd ch < 32" using vq_rep_size(1,5) [OF rep] by (metis less_le_trans)
  then have "(ucast (of_nat (hd ch) :: u16) :: u32) = of_nat (hd ch)" by (simp add: unsigned_of_nat take_bit_nat_eq_self)
  then have e: "used_ring ?q ! unat (last_used_idx ?q AND (queue_size ?q - 1)) = \<lparr>ue_id = of_nat (hd ch), ue_len = len\<rparr>"
    using slot idx by (simp add: device_complete_def)
  obtain q' where q': "VirtQueue_pop_used ?q = Inr (Inr (of_nat (hd ch), len), q')" "vq_rep q' (ch @ free) []"
      "last_used_idx q' = last_used_idx ?q + 1" "used_ring_idx q' = used_ring_idx ?q" "avail_idx q' = avail_idx ?q"
      "avail_ring_idx q' = avail_ring_idx ?q"
    using VirtQueue_pop_spec [OF rep' pop, of "[]" ch "[]" len] e by auto
  have "finish W resp (s\<lparr>blk_queue := q, blk_mem := m, blk_hw := h\<rparr>) = Inr (Inr (), s\<lparr>blk_queue := q', blk_mem := m', blk_hw := h'\<rparr>)"
    using st q'(1) by (simp add: finish_def kdefs spin_spec [OF serve pop] on_queue_def get_mem_def)
  then show ?thesis using q' idx by (intro exI [of _ q']) (simp add: device_complete_def)
qed

end

lemma length_BlkReq [simp]: "length (BlkReq_as_buf r) = 16"
  by (simp add: BlkReq_as_buf_def)

text \<open>The memory a call leaves to the disk, and what the driver reads from it afterwards.\<close>

lemma frame_memory:
  fixes m0 :: memory and x :: u8
  assumes "frame_ok f" "length buf = 512" "length req = 16"
  defines "m \<equiv> mem_write (mem_write (mem_write m0 (unat (buf_at f)) buf) (unat (req_at f)) req) (unat (resp_at f)) [x]"
  shows "mem_read m (unat (req_at f)) 16 = req" "mem_read m (unat (buf_at f)) 512 = buf"
proof -
  show "mem_read m (unat (req_at f)) 16 = req"
    using assms(1,3) by (intro nth_equalityI) (auto simp: m_def frame_ok_def nth_mem_read mem_write_def)
  show "mem_read m (unat (buf_at f)) 512 = buf"
  proof (rule nth_equalityI)
    fix i assume "i < length (mem_read m (unat (buf_at f)) 512)"
    then have i: "i < 512" by simp
    then have "unat (buf_at f) + i \<notin> {unat (req_at f)..<unat (req_at f) + 16}" "unat (buf_at f) + i \<noteq> unat (resp_at f)"
      using assms(1) unfolding frame_ok_def disjoint_iff by auto
    then show "mem_read m (unat (buf_at f)) 512 ! i = buf ! i"
      using i assms(2,3) by (auto simp: m_def nth_mem_read mem_write_def)
  qed (use assms(2) in simp)
qed

lemma answer_memory:
  fixes m0 :: memory and x :: u8
  assumes "frame_ok f" "length d = 512"
  defines "m \<equiv> mem_write (mem_write m0 (unat (buf_at f)) d) (unat (resp_at f)) [x]"
  shows "mem_read m (unat (buf_at f)) 512 = d" "mem_read m (unat (resp_at f)) 1 = [x]"
proof -
  show "mem_read m (unat (buf_at f)) 512 = d"
  proof (rule nth_equalityI)
    fix i assume "i < length (mem_read m (unat (buf_at f)) 512)"
    then have i: "i < 512" by simp
    then have "unat (buf_at f) + i \<noteq> unat (resp_at f)" using assms(1) unfolding frame_ok_def by auto
    then show "mem_read m (unat (buf_at f)) 512 ! i = d ! i"
      using i assms(2) by (auto simp: m_def nth_mem_read mem_write_def)
  qed (use assms(2) in simp)
  show "mem_read m (unat (resp_at f)) 1 = [x]" by (simp add: m_def mem_read_def mem_write_def)
qed

context virtio_disk
begin

lemma blk_okI:
  assumes "vq_rep q free []" "3 \<le> length free" "used_ring_idx q = last_used_idx q" "avail_ring_idx q = avail_idx q"
    "idle (avail_ring_idx q) h"
  shows "blk_ok idle (s\<lparr>blk_queue := q, blk_mem := m, blk_hw := h\<rparr>)"
  using assms by (auto simp: blk_ok_def)

lemma blk_ok_mem: "blk_ok idle (s\<lparr>blk_mem := m\<rparr>) \<longleftrightarrow> blk_ok idle s"
  by (simp add: blk_ok_def)

lemma read_block_spec:
  assumes ok: "blk_ok idle s" and i: "i < cap" and len: "length buf = 512"
  shows "\<exists>t. VirtIOBlock_read_block W v2p (fr k) (of_nat i) buf s = Inr (hsec (blk_hw s) i, t) \<and> blk_ok idle t \<and>
     (\<forall>j<cap. hsec (blk_hw t) j = hsec (blk_hw s) j)"
proof -
  let ?f = "fr k" and ?h = "blk_hw s"
  let ?req = "BlkReq_as_buf \<lparr>req_type = ReqIn, req_reserved = 0, req_sector = of_nat i\<rparr>"
  let ?m = "mem_write (mem_write (mem_write (blk_mem s) (unat (buf_at ?f)) buf) (unat (req_at ?f)) ?req) (unat (resp_at ?f)) [3]"
  let ?s = "s\<lparr>blk_mem := ?m\<rparr>"
  have ok': "blk_ok idle ?s" using ok by (simp add: blk_ok_mem)
  obtain q free ch where q: "submit W v2p [(req_at ?f, 16)] [(buf_at ?f, 512), (resp_at ?f, 1)] ?s =
       Inr (Inr (of_nat (hd ch)), ?s\<lparr>blk_queue := q, blk_hw := mmio_write (hw_mmio W) R_queue_notify 0 ?h\<rparr>)"
      "vq_rep q free [ch]" "3 \<le> length (ch @ free)" "chain_view q ch = request_view v2p [(req_at ?f, 16)] [(buf_at ?f, 512), (resp_at ?f, 1)]"
      "published q ch" "\<not> can_pop q" "avail_ring_idx q = avail_idx q" "idle (avail_ring_idx q - 1) ?h" "used_ring_idx q = last_used_idx q"
    using submit_spec [OF ok', of "[(req_at ?f, 16)]" "[(buf_at ?f, 512), (resp_at ?f, 1)]"] by auto
  have view: "chain_view q ch = [(req_at ?f, 16, False), (buf_at ?f, 512, True), (resp_at ?f, 1, True)]"
    using q(4) by (simp add: request_view_def identity)
  obtain ln h' where h': "serves (hw_turn W) (q, ?m, mmio_write (hw_mmio W) R_queue_notify 0 ?h)
        (device_complete (of_nat (hd ch)) ln q, mem_write (mem_write ?m (unat (buf_at ?f)) (hsec ?h i)) (unat (resp_at ?f)) [0], h')"
      "idle (avail_ring_idx q) h'" "\<forall>j<cap. hsec h' j = hsec ?h j"
    using serve_in [OF q(8,2,6,5) view i frame_memory(1) [OF frames len length_BlkReq]] by blast
  have d: "length (hsec ?h i) = 512" using hsec_length q(8) i by blast
  note ans = answer_memory [OF frames [of k] d, of ?m 0]
  obtain q' where q': "finish W (resp_at ?f) (s\<lparr>blk_queue := q, blk_mem := ?m, blk_hw := mmio_write (hw_mmio W) R_queue_notify 0 ?h\<rparr>) =
     Inr (Inr (), s\<lparr>blk_queue := q', blk_mem := mem_write (mem_write ?m (unat (buf_at ?f)) (hsec ?h i)) (unat (resp_at ?f)) [0], blk_hw := h'\<rparr>)"
      "vq_rep q' (ch @ free) []" "used_ring_idx q' = last_used_idx q'" "avail_ring_idx q' = avail_ring_idx q" "avail_idx q' = avail_idx q"
    using finish_spec [OF q(2,9) h'(1) ans(2)] by blast
  have swap: "?s\<lparr>blk_queue := q, blk_hw := x\<rparr> = s\<lparr>blk_queue := q, blk_mem := ?m, blk_hw := x\<rparr>" for x by simp
  let ?t = "s\<lparr>blk_queue := q', blk_mem := mem_write (mem_write ?m (unat (buf_at ?f)) (hsec ?h i)) (unat (resp_at ?f)) [0], blk_hw := h'\<rparr>"
  have "VirtIOBlock_read_block W v2p ?f (of_nat i) buf s = Inr (hsec ?h i, ?t)"
    using len q(1) q'(1) ans(1) unfolding swap
    by (simp add: VirtIOBlock_read_block_def VirtIOBlk_read_block_def kdefs BLK_SIZE_def put_mem_def get_mem_def BlkResp_default_def)
  moreover have "blk_ok idle ?t" using q' q h'(2) by (intro blk_okI [of q' "ch @ free"]) auto
  ultimately show ?thesis using h'(3) by auto
qed

lemma write_block_spec:
  assumes ok: "blk_ok idle s" and i: "i < cap" and len: "length buf = 512"
  shows "\<exists>t. VirtIOBlock_write_block W v2p (fr k) (of_nat i) buf s = Inr ((), t) \<and> blk_ok idle t \<and>
     (\<forall>j<cap. hsec (blk_hw t) j = (if j = i then buf else hsec (blk_hw s) j))"
proof -
  let ?f = "fr k" and ?h = "blk_hw s"
  let ?req = "BlkReq_as_buf \<lparr>req_type = ReqOut, req_reserved = 0, req_sector = of_nat i\<rparr>"
  let ?m = "mem_write (mem_write (mem_write (blk_mem s) (unat (buf_at ?f)) buf) (unat (req_at ?f)) ?req) (unat (resp_at ?f)) [3]"
  let ?s = "s\<lparr>blk_mem := ?m\<rparr>" and ?ins = "[(req_at ?f, 16), (buf_at ?f, 512)]" and ?outs = "[(resp_at ?f, 1)]"
  have ok': "blk_ok idle ?s" using ok by (simp add: blk_ok_mem)
  obtain q free ch where q: "submit W v2p ?ins ?outs ?s =
       Inr (Inr (of_nat (hd ch)), ?s\<lparr>blk_queue := q, blk_hw := mmio_write (hw_mmio W) R_queue_notify 0 ?h\<rparr>)"
      "vq_rep q free [ch]" "3 \<le> length (ch @ free)" "chain_view q ch = request_view v2p ?ins ?outs"
      "published q ch" "\<not> can_pop q" "avail_ring_idx q = avail_idx q" "idle (avail_ring_idx q - 1) ?h" "used_ring_idx q = last_used_idx q"
    using submit_spec [OF ok', of ?ins ?outs] by auto
  have view: "chain_view q ch = [(req_at ?f, 16, False), (buf_at ?f, 512, False), (resp_at ?f, 1, True)]"
    using q(4) by (simp add: request_view_def identity)
  note mem = frame_memory [OF frames len length_BlkReq]
  obtain ln h' where h': "serves (hw_turn W) (q, ?m, mmio_write (hw_mmio W) R_queue_notify 0 ?h)
        (device_complete (of_nat (hd ch)) ln q, mem_write ?m (unat (resp_at ?f)) [0], h')"
      "idle (avail_ring_idx q) h'" "\<forall>j<cap. hsec h' j = (if j = i then mem_read ?m (unat (buf_at ?f)) 512 else hsec ?h j)"
    using serve_out [OF q(8,2,6,5) view i mem(1)] by blast
  have st: "mem_read (mem_write ?m (unat (resp_at ?f)) [0]) (unat (resp_at ?f)) 1 = [0]"
    by (simp add: mem_read_def mem_write_def)
  obtain q' where q': "finish W (resp_at ?f) (s\<lparr>blk_queue := q, blk_mem := ?m, blk_hw := mmio_write (hw_mmio W) R_queue_notify 0 ?h\<rparr>) =
     Inr (Inr (), s\<lparr>blk_queue := q', blk_mem := mem_write ?m (unat (resp_at ?f)) [0], blk_hw := h'\<rparr>)"
      "vq_rep q' (ch @ free) []" "used_ring_idx q' = last_used_idx q'" "avail_ring_idx q' = avail_ring_idx q" "avail_idx q' = avail_idx q"
    using finish_spec [OF q(2,9) h'(1) st] by blast
  have swap: "?s\<lparr>blk_queue := q, blk_hw := x\<rparr> = s\<lparr>blk_queue := q, blk_mem := ?m, blk_hw := x\<rparr>" for x by simp
  let ?t = "s\<lparr>blk_queue := q', blk_mem := mem_write ?m (unat (resp_at ?f)) [0], blk_hw := h'\<rparr>"
  have "VirtIOBlock_write_block W v2p ?f (of_nat i) buf s = Inr ((), ?t)"
    using len q(1) q'(1) unfolding swap
    by (simp add: VirtIOBlock_write_block_def VirtIOBlk_write_block_def kdefs BLK_SIZE_def put_mem_def get_mem_def BlkResp_default_def)
  moreover have "blk_ok idle ?t" using q' q h'(2) by (intro blk_okI [of q' "ch @ free"]) auto
  ultimately show ?thesis using h'(3) mem(2) by auto
qed

end

lemma chunks_Nil [simp]: "chunks n [] = []"
  by (simp add: chunks.simps)

lemma chunks_step: "xs \<noteq> [] \<Longrightarrow> chunks 512 xs = take 512 xs # chunks 512 (drop 512 xs)"
  by (subst chunks.simps) simp

lemma chunks_induct [case_names Nil step]:
  assumes "P []" "\<And>xs. xs \<noteq> [] \<Longrightarrow> P (drop 512 xs) \<Longrightarrow> P xs"
  shows "P (xs :: u8 list)"
  using assms by (induction xs rule: length_induct) (metis diff_less length_drop length_greater_0_conv zero_less_numeral)

lemma length_chunks: "length (chunks 512 xs) = get_needed_sector (length xs)"
proof (induction xs rule: chunks_induct)
  case (step xs)
  then show ?case
    by (cases "length xs < 512") (simp_all add: chunks_step get_needed_sector_def BUFFER_SIZE_def le_mod_geq le_div_geq)
qed (simp add: get_needed_sector_def)

lemma sector_addr_div:
  assumes "i * 512 < 2 ^ 64"
  shows "sector_addr i div 512 = of_nat i"
proof (rule unat_eqI)
  have "unat (of_nat (i * 512) :: usize) = i * 512" by (rule unat_of_nat_small) (use assms in simp)
  moreover have "unat (of_nat i :: usize) = i" by (rule unat_of_nat_small) (use assms in simp)
  ultimately show "unat (sector_addr i div 512) = unat (of_nat i :: usize)"
    unfolding sector_addr_def BUFFER_SIZE_def unat_div_distrib by simp
qed

context virtio_disk
begin

lemma read_chunk_spec:
  assumes "blk_ok idle s" "i + k < cap" "address div 512 = of_nat i" "length chunk \<le> 512"
  shows "\<exists>t. read_chunk W v2p fr address chunk (k, acc) s = Inr ((k + 1, acc @ take (length chunk) (hsec (blk_hw s) (i + k))), t) \<and>
     blk_ok idle t \<and> (\<forall>j<cap. hsec (blk_hw t) j = hsec (blk_hw s) j)"
proof -
  let ?d = "hsec (blk_hw s) (i + k)"
  obtain t where t: "VirtIOBlock_read_block W v2p (fr k) (of_nat (i + k)) (replicate 512 0) s = Inr (?d, t)"
      "blk_ok idle t" "\<forall>j<cap. hsec (blk_hw t) j = hsec (blk_hw s) j"
    using read_block_spec [OF assms(1,2), of "replicate 512 0" k] by auto
  have len: "length ?d = 512" using assms(1,2) hsec_length by (auto simp: blk_ok_def)
  have "overwrite 0 (take (length chunk) ?d) chunk = take (length chunk) ?d" using len assms(4) by (intro overwrite_whole) simp
  then show ?thesis
    using t len assms(4) by (simp add: read_chunk_def assms(3) kdefs checked_slice_def copy_from_slice_def slice_def)
qed

lemma nuclear_read_chunks:
  assumes "blk_ok idle s" "i + k + length (chunks 512 buf) \<le> cap" "address div 512 = of_nat i"
  shows "\<exists>t. kfold (read_chunk W v2p fr address) (chunks 512 buf) (k, acc) s =
     Inr ((k + length (chunks 512 buf), acc @ take (length buf) (secs (hsec (blk_hw s)) (i + k) (length (chunks 512 buf)))), t) \<and>
     blk_ok idle t \<and> (\<forall>j<cap. hsec (blk_hw t) j = hsec (blk_hw s) j)"
  using assms(1,2)
proof (induction buf arbitrary: s k acc rule: chunks_induct)
  case (step buf)
  let ?n = "length (chunks 512 (drop 512 buf))" and ?h = "blk_hw s"
  let ?p = "take (length (take 512 buf)) (hsec ?h (i + k))"
  have c: "chunks 512 buf = take 512 buf # chunks 512 (drop 512 buf)" using step(1) by (rule chunks_step)
  have lt: "i + k < cap" using step(4) c by simp
  obtain t where t: "read_chunk W v2p fr address (take 512 buf) (k, acc) s = Inr ((k + 1, acc @ ?p), t)"
      "blk_ok idle t" "\<forall>j<cap. hsec (blk_hw t) j = hsec ?h j"
    using read_chunk_spec [OF step(3) lt assms(3), of "take 512 buf" acc] by auto
  obtain u where u: "kfold (read_chunk W v2p fr address) (chunks 512 (drop 512 buf)) (k + 1, acc @ ?p) t =
     Inr ((k + 1 + ?n, (acc @ ?p) @ take (length (drop 512 buf)) (secs (hsec (blk_hw t)) (i + (k + 1)) ?n)), u)"
      "blk_ok idle u" "\<forall>j<cap. hsec (blk_hw u) j = hsec (blk_hw t) j"
    using step(2) [OF t(2), of "k + 1" "acc @ ?p"] step(4) c by auto
  have same: "secs (hsec (blk_hw t)) (i + (k + 1)) ?n = secs (hsec ?h) (i + (k + 1)) ?n"
    by (rule secs_cong) (use t(3) step(4) c in auto)
  have len: "length (hsec ?h (i + k)) = 512" using step(3) lt hsec_length by (auto simp: blk_ok_def)
  have "secs (hsec ?h) (i + k) (Suc ?n) = hsec ?h (i + k) @ secs (hsec ?h) (i + (k + 1)) ?n"
    using secs_add [of "hsec ?h" "i + k" 1 ?n] by simp
  then have "acc @ take (length buf) (secs (hsec ?h) (i + k) (length (chunks 512 buf))) =
      (acc @ ?p) @ take (length (drop 512 buf)) (secs (hsec (blk_hw t)) (i + (k + 1)) ?n)"
    unfolding same using len c by (simp add: min_def)
  moreover have "kfold (read_chunk W v2p fr address) (chunks 512 buf) (k, acc) s =
      kfold (read_chunk W v2p fr address) (chunks 512 (drop 512 buf)) (k + 1, acc @ ?p) t"
    unfolding c kfold.simps kbind_def t(1) by simp
  ultimately have "kfold (read_chunk W v2p fr address) (chunks 512 buf) (k, acc) s =
     Inr ((k + length (chunks 512 buf), acc @ take (length buf) (secs (hsec ?h) (i + k) (length (chunks 512 buf)))), u)"
    using u(1) c by simp
  then show ?case using u(2,3) t(3) by auto
qed (simp add: kret_def)

lemma nuclear_write_chunks:
  assumes "blk_ok idle s" "i + k + n \<le> cap" "address div 512 = of_nat i" "length buf = n * 512"
  shows "\<exists>t. kfold (write_chunk W v2p fr address) (chunks 512 buf) k s = Inr (k + n, t) \<and>
     blk_ok idle t \<and> (\<forall>j<cap. hsec (blk_hw t) j =
       (if i + k \<le> j \<and> j < i + k + n then slice ((j - (i + k)) * 512) ((j - (i + k) + 1) * 512) buf else hsec (blk_hw s) j))"
  using assms(1,2,4)
proof (induction n arbitrary: s k buf)
  case (Suc n)
  let ?w = "kfold (write_chunk W v2p fr address)" and ?P = "\<lambda>j k. (j - (i + k)) * 512"
  have "buf \<noteq> []" using Suc(4) by auto
  then have c: "chunks 512 buf = take 512 buf # chunks 512 (drop 512 buf)" by (rule chunks_step)
  have lt: "i + k < cap" using Suc(3) by simp
  obtain t where t: "VirtIOBlock_write_block W v2p (fr k) (of_nat (i + k)) (take 512 buf) s = Inr ((), t)" "blk_ok idle t"
      "\<forall>j<cap. hsec (blk_hw t) j = (if j = i + k then take 512 buf else hsec (blk_hw s) j)"
    using write_block_spec [OF Suc(2) lt, of "take 512 buf" k] Suc(4) by auto
  have "length (drop 512 buf) = n * 512" using Suc(4) by simp
  then obtain u where u: "?w (chunks 512 (drop 512 buf)) (k + 1) t = Inr (k + 1 + n, u)" "blk_ok idle u"
      "\<forall>j<cap. hsec (blk_hw u) j = (if i + (k + 1) \<le> j \<and> j < i + (k + 1) + n
         then slice (?P j (k + 1)) (?P j (k + 1) + 512) (drop 512 buf) else hsec (blk_hw t) j)"
    using Suc(1) [OF t(2), of "k + 1" "drop 512 buf"] Suc(3) by (auto simp: algebra_simps)
  have "?w (chunks 512 buf) k s = Inr (k + Suc n, u)"
    using t(1) u(1) by (simp add: c write_chunk_def assms(3) kdefs)
  moreover have "hsec (blk_hw u) j = (if i + k \<le> j \<and> j < i + k + Suc n
      then slice (?P j k) ((j - (i + k) + 1) * 512) buf else hsec (blk_hw s) j)" if "j < cap" for j
  proof (cases "i + (k + 1) \<le> j \<and> j < i + (k + 1) + n")
    case True
    then have "?P j k = ?P j (k + 1) + 512" by (simp add: algebra_simps)
    then show ?thesis using True u(3) that by (simp add: slice_def add.commute)
  next
    case False
    then show ?thesis using u(3) t(3) that by (auto simp: slice_def)
  qed
  ultimately show ?case using u(2) by blast
qed (auto simp: kret_def)

end

sublocale virtio_disk \<subseteq> nuc: sector_device "Nuclear W v2p fr" "blk_ok idle" cap "\<lambda>s. hsec (blk_hw s)"
proof
  show "cap * BUFFER_SIZE < 2 ^ 64" using cap_bound by (simp add: BUFFER_SIZE_def)
  show "length (hsec (blk_hw s) i) = BUFFER_SIZE" if "blk_ok idle s" "i < cap" for s i
    using that hsec_length by (auto simp: blk_ok_def BUFFER_SIZE_def)
  have addr: "sector_addr i div 512 = of_nat i" if "i + n \<le> cap" for i n
    using that cap_bound by (intro sector_addr_div) linarith
  show "\<exists>t. sd_read (Nuclear W v2p fr) buf (sector_addr i) n s =
        Inr ((True, take (length buf) (secs (hsec (blk_hw s)) i n)), t) \<and> blk_ok idle t \<and>
        (\<forall>j<cap. hsec (blk_hw t) j = hsec (blk_hw s) j)"
    if "blk_ok idle s" "i + n \<le> cap" "get_needed_sector (length buf) = n" for s i n buf
    using nuclear_read_chunks [OF that(1) _ addr [OF that(2)], of 0 buf "[]"] that(2,3)
    by (auto simp: Nuclear_def Nuclear_read_def length_chunks kdefs)
  show "\<exists>t. sd_write (Nuclear W v2p fr) buf (sector_addr i) n s = Inr (True, t) \<and> blk_ok idle t \<and>
        (\<forall>j<cap. hsec (blk_hw t) j = (if i \<le> j \<and> j < i + n
           then slice ((j - i) * BUFFER_SIZE) ((j - i + 1) * BUFFER_SIZE) buf else hsec (blk_hw s) j))"
    if "blk_ok idle s" "i + n \<le> cap" "length buf = n * BUFFER_SIZE" for s i n buf
    using nuclear_write_chunks [OF that(1) _ addr [OF that(2)], of 0 n buf] that(2,3)
    by (auto simp: Nuclear_def Nuclear_write_def BUFFER_SIZE_def kdefs)
qed

context virtio_disk
begin

lemma nuc_device: "sector_device (Nuclear W v2p fr) (blk_ok idle) cap (\<lambda>s. hsec (blk_hw s))"
  by (rule nuc.sector_device_axioms)

lemma nuc_write_read:
  assumes "blk_ok idle s" "i + n \<le> cap" "length buf = n * 512"
  shows "\<exists>t u. sd_write (Nuclear W v2p fr) buf (sector_addr i) n s = Inr (True, t) \<and>
     sd_read (Nuclear W v2p fr) (replicate (n * 512) 0) (sector_addr i) n t = Inr ((True, buf), u) \<and> blk_ok idle u \<and>
     (\<forall>j<cap. j < i \<or> i + n \<le> j \<longrightarrow> hsec (blk_hw u) j = hsec (blk_hw s) j)"
proof -
  obtain t where t: "sd_write (Nuclear W v2p fr) buf (sector_addr i) n s = Inr (True, t)" "blk_ok idle t"
      "\<forall>j<cap. hsec (blk_hw t) j = (if i \<le> j \<and> j < i + n then slice ((j - i) * 512) ((j - i + 1) * 512) buf else hsec (blk_hw s) j)"
    using nuc.write_sectors [OF assms(1,2), of buf] assms(3) by (auto simp: BUFFER_SIZE_def)
  have need: "get_needed_sector (length (replicate (n * 512) (0 :: u8))) = n" by (simp add: get_needed_sector_def BUFFER_SIZE_def)
  have "secs (hsec (blk_hw t)) i k = take (k * 512) buf" if "k \<le> n" for k
    using that
  proof (induction k)
    case (Suc k)
    have "slice (k * 512) ((k + 1) * 512) buf = take 512 (drop (k * 512) buf)" by (simp add: slice_def drop_take)
    moreover have "hsec (blk_hw t) (i + k) = slice (k * 512) ((k + 1) * 512) buf" using t(3) Suc.prems assms(2) by simp
    ultimately show ?case using Suc secs_add [of "hsec (blk_hw t)" i k 1] take_add [of "k * 512" 512 buf] by (simp add: add.commute)
  qed simp
  then have "secs (hsec (blk_hw t)) i n = buf" using assms(3) by simp
  then obtain u where "sd_read (Nuclear W v2p fr) (replicate (n * 512) 0) (sector_addr i) n t = Inr ((True, buf), u)" "blk_ok idle u"
      "\<forall>j<cap. hsec (blk_hw u) j = hsec (blk_hw t) j"
    using nuc.read_sectors [OF t(2) assms(2) need] assms(3) by auto
  then show ?thesis using t by auto
qed

end

section \<open>A disk that keeps the contract\<close>

text \<open>
  The request processing of a virtio block device: it follows the chain whose head is next in the
  available ring, reads the request header, moves one sector and returns the chain with a status.
\<close>

record disk = virtio_regs +
  disk_seen :: u16
  disk_data :: "nat \<Rightarrow> u8 list"

fun walk :: "nat \<Rightarrow> Descriptor list \<Rightarrow> u16 \<Rightarrow> Descriptor list" where
  "walk 0 ds i = []"
| "walk (Suc n) ds i = (ds ! unat i) # (if has_next (d_flags (ds ! unat i)) then walk n ds (d_next (ds ! unat i)) else [])"

definition disk_serve :: "nat \<Rightarrow> (u64 \<times> u32 \<times> bool) list \<Rightarrow> memory \<Rightarrow> disk \<Rightarrow> memory \<times> disk" where
  "disk_serve cap chain m h =
     (case chain of
        [(a, la, wa), (b, lb, wb), (c, lc, wc)] \<Rightarrow>
          let req = mem_read m (unat a) 16; ty = (from_le_bytes (take 4 req) :: u32);
              i = unat (from_le_bytes (drop 8 req) :: u64)
          in if cap \<le> i then (mem_write m (unat c) [1], h)
             else if ty = 0 \<and> wb then (mem_write (mem_write m (unat b) (disk_data h i)) (unat c) [0], h)
             else if ty = 1 \<and> \<not> wb
             then (mem_write m (unat c) [0], h\<lparr>disk_data := (disk_data h)(i := mem_read m (unat b) 512)\<rparr>)
             else (mem_write m (unat c) [2], h)
      | _ \<Rightarrow> (m, h))"

definition disk_turn :: "nat \<Rightarrow> VirtQueue \<times> memory \<times> disk \<Rightarrow> VirtQueue \<times> memory \<times> disk" where
  "disk_turn cap = (\<lambda>(q, m, h).
     if disk_seen h = avail_ring_idx q then (q, m, h)
     else
       let head = avail_ring q ! unat (disk_seen h AND (queue_size q - 1));
           (m', h') = disk_serve cap (map desc_view (walk (length (vq_desc q)) (vq_desc q) head)) m h
       in (device_complete head 513 q, m', h'\<lparr>disk_seen := disk_seen h + 1\<rparr>))"

definition sample_disk :: "nat \<Rightarrow> disk disk_hw" where
  "sample_disk cap = \<lparr>hw_mmio = legacy_mmio, hw_capacity = (\<lambda>_. of_nat cap), hw_turn = disk_turn cap\<rparr>"

definition disk_idle :: "nat \<Rightarrow> u16 \<Rightarrow> disk \<Rightarrow> bool" where
  "disk_idle cap x h \<longleftrightarrow> disk_seen h = x \<and> (\<forall>i<cap. length (disk_data h i) = 512)"

lemma walk_chain:
  assumes "used_chain ds xs" "length xs \<le> n" "\<forall>x\<in>set xs. x < 32"
  shows "walk n ds (of_nat (hd xs)) = map (\<lambda>x. ds ! x) xs"
  using assms
proof (induction xs arbitrary: n)
  case (Cons x ys)
  have x: "unat (of_nat x :: u16) = x" using Cons.prems(3) by (intro unat_of_nat_small) simp
  obtain k where n: "n = Suc k" using Cons.prems(2) by (cases n) auto
  show ?case
  proof (cases ys)
    case Nil
    then show ?thesis using Cons.prems n x by simp
  next
    case (Cons y zs)
    then show ?thesis using Cons.prems Cons.IH [of k] n x by simp
  qed
qed simp

lemma walk_view:
  assumes rep: "vq_rep q free [ch]"
  shows "map desc_view (walk (length (vq_desc q)) (vq_desc q) (of_nat (hd ch))) = chain_view q ch"
proof -
  have "length ch \<le> length (vq_desc q)" using vq_rep_size(2) [OF rep] rep by (simp add: vq_rep_def)
  moreover have "\<forall>x\<in>set ch. x < 32" using vq_rep_size(1,5) [OF rep] by (metis concat.simps append_Nil2 less_le_trans)
  moreover have "used_chain (vq_desc q) ch" using rep by (simp add: vq_rep_def)
  ultimately show ?thesis by (simp add: walk_chain chain_view_def comp_def)
qed

lemma request_decoded:
  assumes "i < 2 ^ 64"
  shows "from_le_bytes (take 4 (BlkReq_as_buf \<lparr>req_type = t, req_reserved = 0, req_sector = of_nat i\<rparr>)) = ReqType_value t"
    "unat (from_le_bytes (drop 8 (BlkReq_as_buf \<lparr>req_type = t, req_reserved = 0, req_sector = of_nat i\<rparr>)) :: u64) = i"
proof -
  show "from_le_bytes (take 4 (BlkReq_as_buf \<lparr>req_type = t, req_reserved = 0, req_sector = of_nat i\<rparr>)) = ReqType_value t"
    by (simp add: BlkReq_as_buf_def from_to_le_bytes)
  have "unat (of_nat i :: u64) = i" by (rule unat_of_nat_small) (use assms in simp)
  then show "unat (from_le_bytes (drop 8 (BlkReq_as_buf \<lparr>req_type = t, req_reserved = 0, req_sector = of_nat i\<rparr>)) :: u64) = i"
    by (simp add: BlkReq_as_buf_def from_to_le_bytes)
qed

lemma disk_turn_serves:
  assumes "disk_seen h = avail_ring_idx q - 1" "published q ch" "vq_rep q free [ch]"
    and "disk_serve cap (chain_view q ch) m (regs_write R_queue_notify 0 h) = (m', h')"
  shows "serves (disk_turn cap) (q, m, regs_write R_queue_notify 0 h)
    (device_complete (of_nat (hd ch)) 513 q, m', h'\<lparr>disk_seen := avail_ring_idx q\<rparr>)"
proof -
  have seen: "disk_seen (regs_write R_queue_notify 0 h) = avail_ring_idx q - 1" using assms(1) by (simp add: regs_write_def)
  have "disk_turn cap (q, m, regs_write R_queue_notify 0 h) =
      (device_complete (of_nat (hd ch)) 513 q, m', h'\<lparr>disk_seen := avail_ring_idx q\<rparr>)"
    using assms(2,4) by (simp add: disk_turn_def seen published_def walk_view [OF assms(3)])
  then show ?thesis unfolding serves_def by (intro exI [of _ 0]) simp
qed

lemma sample_disk_contract:
  assumes cap: "cap * 512 < 2 ^ 64" and fr: "\<And>i. frame_ok (fr i)"
  shows "virtio_disk (sample_disk cap) id fr (disk_idle cap) cap disk_data"
proof
  show "\<exists>len h'. serves (hw_turn (sample_disk cap)) (q, m, mmio_write (hw_mmio (sample_disk cap)) R_queue_notify 0 h)
        (device_complete (of_nat (hd ch)) len q, mem_write (mem_write m (unat b) (disk_data h i)) (unat c) [0], h') \<and>
      disk_idle cap (avail_ring_idx q) h' \<and> (\<forall>j<cap. disk_data h' j = disk_data h j)"
    if "disk_idle cap (avail_ring_idx q - 1) h" "vq_rep q free [ch]" "published q ch"
      "chain_view q ch = [(a, 16, False), (b, 512, True), (c, 1, True)]" "i < cap"
      "mem_read m (unat a) 16 = BlkReq_as_buf \<lparr>req_type = ReqIn, req_reserved = 0, req_sector = of_nat i\<rparr>" for q h free ch a b c i m
  proof -
    have "i < 2 ^ 64" using that(5) cap by linarith
    note dec = request_decoded [OF this, of ReqIn]
    let ?h = "regs_write R_queue_notify 0 h"
    have data: "disk_data ?h = disk_data h" by (simp add: regs_write_def)
    have "disk_serve cap (chain_view q ch) m ?h = (mem_write (mem_write m (unat b) (disk_data h i)) (unat c) [0], ?h)"
      using that(5) by (simp add: disk_serve_def that(4,6) dec data Let_def)
    from disk_turn_serves [OF _ that(3,2) this] that(1)
    show ?thesis by (intro exI [of _ 513] exI [of _ "?h\<lparr>disk_seen := avail_ring_idx q\<rparr>"])
        (simp add: sample_disk_def legacy_mmio_def disk_idle_def data)
  qed
  show "\<exists>len h'. serves (hw_turn (sample_disk cap)) (q, m, mmio_write (hw_mmio (sample_disk cap)) R_queue_notify 0 h)
        (device_complete (of_nat (hd ch)) len q, mem_write m (unat c) [0], h') \<and>
      disk_idle cap (avail_ring_idx q) h' \<and>
      (\<forall>j<cap. disk_data h' j = (if j = i then mem_read m (unat b) 512 else disk_data h j))"
    if "disk_idle cap (avail_ring_idx q - 1) h" "vq_rep q free [ch]" "published q ch"
      "chain_view q ch = [(a, 16, False), (b, 512, False), (c, 1, True)]" "i < cap"
      "mem_read m (unat a) 16 = BlkReq_as_buf \<lparr>req_type = ReqOut, req_reserved = 0, req_sector = of_nat i\<rparr>" for q h free ch a b c i m
  proof -
    have "i < 2 ^ 64" using that(5) cap by linarith
    note dec = request_decoded [OF this, of ReqOut]
    let ?h = "regs_write R_queue_notify 0 h"
    have data: "disk_data ?h = disk_data h" by (simp add: regs_write_def)
    have "disk_serve cap (chain_view q ch) m ?h =
        (mem_write m (unat c) [0], ?h\<lparr>disk_data := (disk_data h)(i := mem_read m (unat b) 512)\<rparr>)"
      using that(5) by (simp add: disk_serve_def that(4,6) dec data Let_def)
    from disk_turn_serves [OF _ that(3,2) this] that(1)
    show ?thesis by (intro exI [of _ 513] exI [of _ "?h\<lparr>disk_data := (disk_data h)(i := mem_read m (unat b) 512), disk_seen := avail_ring_idx q\<rparr>"])
        (simp add: sample_disk_def legacy_mmio_def disk_idle_def data)
  qed
qed (use cap fr in \<open>simp_all add: disk_idle_def\<close>)

definition sample_frame :: blk_frame where
  "sample_frame = \<lparr>req_at = 0x80900000, buf_at = 0x80901000, resp_at = 0x80902000\<rparr>"

lemma sample_frame_ok: "frame_ok sample_frame"
  by (simp add: frame_ok_def sample_frame_def)

interpretation vdisk: virtio_disk "sample_disk 64" id "\<lambda>_. sample_frame" "disk_idle 64" 64 disk_data
  by (rule sample_disk_contract) (simp_all add: sample_frame_ok)

section \<open>The driver from boot\<close>

lemma VirtIOBlk_new_ok:
  assumes "VirtIOBlk_new W alloc h = Inr (Inr (q, c), h')" "idle 0 h'"
  shows "blk_ok idle \<lparr>blk_queue = q, blk_capacity = c, blk_mem = m, blk_hw = h'\<rparr>"
proof -
  obtain h1 h2 where q: "VirtQueue_new (hw_mmio W) alloc 0 16 h1 = Inr (Inr q, h2)"
    using assms(1) by (auto simp: VirtIOBlk_new_def kdefs split: sum.splits prod.splits)
  have "(4 :: nat) \<le> 5" "(16 :: u16) = push_bit 4 1" by simp_all
  note new = VirtQueue_new_rep [OF q this]
  have "3 \<le> length [0..<unat (16 :: u16)]" by simp
  then show ?thesis using new assms(2) unfolding blk_ok_def by auto
qed

definition boot_disk :: "(nat \<Rightarrow> u8 list) \<Rightarrow> disk" where
  "boot_disk f = \<lparr>vr_device_features = 0x30000e54, vr_driver_features = 0, vr_device_sel = 0, vr_driver_sel = 0,
     vr_status = 0, vr_page_size = 0, vr_queue_sel = 0, vr_queue_max = 1024, vr_queue_num = 0, vr_queue_pfn = (\<lambda>_. 0),
     vr_notified = [], disk_seen = 0, disk_data = f\<rparr>"

definition boot_blk :: "nat \<Rightarrow> (nat \<Rightarrow> u8 list) \<Rightarrow> disk VirtIOBlk" where
  "boot_blk cap f =
     (case VirtIOBlk_new (sample_disk cap) (\<lambda>_. kret 0x80800000) (boot_disk f) of
        Inr (Inr (q, c), h) \<Rightarrow> \<lparr>blk_queue = q, blk_capacity = c, blk_mem = (\<lambda>_. 0), blk_hw = h\<rparr>
      | _ \<Rightarrow> undefined)"

lemma boot_new:
  "\<exists>q h. VirtIOBlk_new (sample_disk cap) (\<lambda>_. kret 0x80800000) (boot_disk f) = Inr (Inr (q, of_nat cap), h) \<and>
     disk_seen h = 0 \<and> disk_data h = f \<and> vr_driver_features h = 0"
  by (simp add: VirtIOBlk_new_def begin_init_def read_device_features_def write_driver_features_def finish_init_def
      VirtQueue_new_def queue_used_def queue_physical_page_number_def max_queue_size_def rd_def wr_def kdefs
      legacy_mmio_def regs_read_def regs_write_def boot_disk_def sample_disk_def is_power_of_two_def upt_rec
      VirtQueueLayout_new_def Let_def DMA_new_def queue_set_def)

lemma boot_blk_ok:
  assumes "\<forall>i<cap. length (f i) = 512"
  shows "blk_ok (disk_idle cap) (boot_blk cap f)" "disk_data (blk_hw (boot_blk cap f)) = f"
proof -
  obtain q h where b: "VirtIOBlk_new (sample_disk cap) (\<lambda>_. kret 0x80800000) (boot_disk f) = Inr (Inr (q, of_nat cap), h)"
      "disk_seen h = 0" "disk_data h = f"
    using boot_new by blast
  have "disk_idle cap 0 h" using b(2,3) assms by (simp add: disk_idle_def)
  from VirtIOBlk_new_ok [OF b(1), of "disk_idle cap", OF this]
  show "blk_ok (disk_idle cap) (boot_blk cap f)" by (simp add: boot_blk_def b(1))
  show "disk_data (blk_hw (boot_blk cap f)) = f" using b by (simp add: boot_blk_def)
qed

text \<open>C7: On any disk that follows the virtio block protocol, the sector device of the kernel keeps
  the contract the file system relies on: requests neither panic nor hang, a read returns the bytes of
  the sectors, also for a buffer that ends inside a sector, and a write changes exactly the sectors it
  names.\<close>

theorem nuclear_refines_sectors:
  assumes "virtio_disk W v2p fr idle cap hsec"
  shows "sector_device (Nuclear W v2p fr) (blk_ok idle) cap (\<lambda>s. hsec (blk_hw s))"
  by (rule virtio_disk.nuc_device [OF assms])

theorem nuclear_refines_sectors_witness:
  "sector_device (Nuclear (sample_disk 64) id (\<lambda>_. sample_frame)) (blk_ok (disk_idle 64)) 64 (\<lambda>s. disk_data (blk_hw s)) \<and>
   blk_ok (disk_idle 64) (boot_blk 64 (\<lambda>_. replicate 512 0))"
  using nuclear_refines_sectors [OF vdisk.virtio_disk_axioms] boot_blk_ok(1) [of 64 "\<lambda>_. replicate 512 0"] by simp

text \<open>C36: What is written to the disk is what is read back: after writing whole sectors through
  virtqueue, notification and completion, reading the same sectors returns the written bytes and
  every other sector is unchanged.\<close>

theorem nuclear_roundtrip:
  assumes "virtio_disk W v2p fr idle cap hsec" "blk_ok idle s" "i + n \<le> cap" "length buf = n * 512"
  shows "\<exists>t u. Nuclear_write W v2p fr buf (sector_addr i) n s = Inr (True, t) \<and>
     Nuclear_read W v2p fr (replicate (n * 512) 0) (sector_addr i) n t = Inr ((True, buf), u) \<and> blk_ok idle u \<and>
     (\<forall>j<cap. j < i \<or> i + n \<le> j \<longrightarrow> hsec (blk_hw u) j = hsec (blk_hw s) j)"
  using virtio_disk.nuc_write_read [OF assms] by (simp add: Nuclear_def)

theorem nuclear_roundtrip_witness:
  "\<exists>t u. Nuclear_write (sample_disk 64) id (\<lambda>_. sample_frame) (replicate 1024 7) (sector_addr 5) 2
       (boot_blk 64 (\<lambda>_. replicate 512 0)) = Inr (True, t) \<and>
     Nuclear_read (sample_disk 64) id (\<lambda>_. sample_frame) (replicate (2 * 512) 0) (sector_addr 5) 2 t = Inr ((True, replicate 1024 7), u) \<and>
     disk_data (blk_hw u) 4 = replicate 512 0"
proof -
  note ok = boot_blk_ok [of 64 "\<lambda>_. replicate 512 0"]
  have "blk_ok (disk_idle 64) (boot_blk 64 (\<lambda>_. replicate 512 0))" by (rule ok) simp
  from nuclear_roundtrip [OF vdisk.virtio_disk_axioms this, of 5 2 "replicate 1024 7"] ok(2)
  show ?thesis by fastforce
qed

section \<open>Pages for a queue\<close>

lemma frame_alloc_bump:
  assumes "fa_inv lo (FRAME_ALLOCATOR s)" "recycled (FRAME_ALLOCATOR s) = []"
    "fa_current (FRAME_ALLOCATOR s) \<noteq> fa_end (FRAME_ALLOCATOR s)"
  shows "frame_alloc s = Inr (Some \<lparr>tracker_ppn = PhysPageNum (fa_current (FRAME_ALLOCATOR s))\<rparr>,
     s\<lparr>FRAME_ALLOCATOR := (FRAME_ALLOCATOR s)\<lparr>fa_current := fa_current (FRAME_ALLOCATOR s) + 1\<rparr>,
       pmem := mem_fill (pmem s) (page_base (PhysPageNum (fa_current (FRAME_ALLOCATOR s)))) 4096 0\<rparr>)"
  by (simp add: frame_alloc_def FrameTracker_new_def kdefs alloc_bump [OF assms] Let_def)

lemma zero_page_fill: "get_bytes_array m p = replicate 4096 0 \<Longrightarrow> get_bytes_array (mem_fill m a n 0) p = replicate 4096 0"
proof (rule nth_equalityI)
  fix i assume z: "get_bytes_array m p = replicate 4096 0" and "i < length (get_bytes_array (mem_fill m a n 0) p)"
  then have i: "i < 4096" by (simp add: get_bytes_array_def)
  have "get_bytes_array m p ! i = 0" using i z by simp
  then show "get_bytes_array (mem_fill m a n 0) p ! i = replicate 4096 0 ! i"
    using i by (simp add: get_bytes_array_def nth_mem_read mem_fill_def)
qed (simp add: get_bytes_array_def)

lemma dma_page_spec:
  fixes s :: "'z virtio_state_scheme"
  assumes inv: "fa_inv lo (FRAME_ALLOCATOR s)" and rec: "recycled (FRAME_ALLOCATOR s) = []"
    and room: "fa_current (FRAME_ALLOCATOR s) \<noteq> fa_end (FRAME_ALLOCATOR s)"
    and base: "i \<noteq> 0 \<Longrightarrow> pb = PhysPageNum b" "fa_current (FRAME_ALLOCATOR s) = b + of_nat i"
  shows "\<exists>t. dma_page i pb s = Inr (PhysPageNum b, t) \<and>
     FRAME_ALLOCATOR t = (FRAME_ALLOCATOR s)\<lparr>fa_current := fa_current (FRAME_ALLOCATOR s) + 1\<rparr> \<and>
     QUEUE_FRAMES t = QUEUE_FRAMES s @ [\<lparr>tracker_ppn = PhysPageNum (b + of_nat i)\<rparr>] \<and>
     pmem t = mem_fill (pmem s) (page_base (PhysPageNum (b + of_nat i))) 4096 0"
  using base by (auto simp: dma_page_def kdefs frame_alloc_bump [OF inv rec room] Let_def)

lemma dma_pages_spec:
  fixes s :: "'z virtio_state_scheme"
  assumes "fa_inv lo (FRAME_ALLOCATOR s)" "recycled (FRAME_ALLOCATOR s) = []"
    "unat (fa_current (FRAME_ALLOCATOR s)) + n \<le> unat (fa_end (FRAME_ALLOCATOR s))"
    "k \<noteq> 0 \<Longrightarrow> pb = PhysPageNum b" "fa_current (FRAME_ALLOCATOR s) = b + of_nat k"
  shows "\<exists>t. kfold dma_page [k..<k + n] pb s = Inr (if n = 0 then pb else PhysPageNum b, t) \<and>
     fa_inv lo (FRAME_ALLOCATOR t) \<and> fa_current (FRAME_ALLOCATOR t) = b + of_nat (k + n) \<and>
     QUEUE_FRAMES t = QUEUE_FRAMES s @ map (\<lambda>i. \<lparr>tracker_ppn = PhysPageNum (b + of_nat i)\<rparr>) [k..<k + n] \<and>
     (\<forall>i. k \<le> i \<and> i < k + n \<longrightarrow> get_bytes_array (pmem t) (PhysPageNum (b + of_nat i)) = replicate 4096 0) \<and>
     (\<forall>p. get_bytes_array (pmem s) p = replicate 4096 0 \<longrightarrow> get_bytes_array (pmem t) p = replicate 4096 0)"
  using assms
proof (induction n arbitrary: k pb s)
  case (Suc n)
  let ?a = "FRAME_ALLOCATOR s" and ?p = "PhysPageNum (b + of_nat k)"
  have ne: "fa_current ?a \<noteq> fa_end ?a" using Suc.prems(3) by auto
  obtain t where t: "dma_page k pb s = Inr (PhysPageNum b, t)" "FRAME_ALLOCATOR t = ?a\<lparr>fa_current := fa_current ?a + 1\<rparr>"
      "QUEUE_FRAMES t = QUEUE_FRAMES s @ [\<lparr>tracker_ppn = ?p\<rparr>]" "pmem t = mem_fill (pmem s) (page_base ?p) 4096 0"
    using dma_page_spec [OF Suc.prems(1,2) ne, of k pb b] Suc.prems(4,5) by blast
  have inv: "fa_inv lo (FRAME_ALLOCATOR t)"
    using alloc_Some(1) [OF Suc.prems(1) alloc_bump [OF Suc.prems(1,2) ne]] t(2) by simp
  have "unat (fa_current ?a + 1) = unat (fa_current ?a) + 1"
  proof (subst unat_add_small)
    show "unat (fa_current ?a) + unat (1 :: usize) < 2 ^ LENGTH(64)"
      using Suc.prems(3) unat_lt_64 [of "fa_end ?a"] by (simp del: unat_lt_64)
  qed simp
  then have room: "unat (fa_current (FRAME_ALLOCATOR t)) + n \<le> unat (fa_end (FRAME_ALLOCATOR t))"
    using t(2) Suc.prems(3) by simp
  have cur: "fa_current (FRAME_ALLOCATOR t) = b + of_nat (k + 1)" using t(2) Suc.prems(5) by simp
  obtain u where u: "kfold dma_page [k + 1..<k + 1 + n] (PhysPageNum b) t = Inr (if n = 0 then PhysPageNum b else PhysPageNum b, u)"
      "fa_inv lo (FRAME_ALLOCATOR u)" "fa_current (FRAME_ALLOCATOR u) = b + of_nat (k + 1 + n)"
      "QUEUE_FRAMES u = QUEUE_FRAMES t @ map (\<lambda>i. \<lparr>tracker_ppn = PhysPageNum (b + of_nat i)\<rparr>) [k + 1..<k + 1 + n]"
      "\<forall>i. k + 1 \<le> i \<and> i < k + 1 + n \<longrightarrow> get_bytes_array (pmem u) (PhysPageNum (b + of_nat i)) = replicate 4096 0"
      "\<forall>p. get_bytes_array (pmem t) p = replicate 4096 0 \<longrightarrow> get_bytes_array (pmem u) p = replicate 4096 0"
    using Suc.IH [OF inv _ room _ cur, of "PhysPageNum b"] t(2) Suc.prems(2) by auto
  have zero: "get_bytes_array (pmem t) ?p = replicate 4096 0"
    by (simp add: t(4) get_bytes_array_def mem_read_fill_same)
  have up: "[k..<k + Suc n] = k # [k + 1..<k + 1 + n]" by (simp add: upt_conv_Cons)
  have "kfold dma_page [k..<k + Suc n] pb s = Inr (PhysPageNum b, u)"
    unfolding up kfold.simps kbind_def t(1) using u(1) by simp
  moreover have "get_bytes_array (pmem u) (PhysPageNum (b + of_nat i)) = replicate 4096 0" if "k \<le> i" "i < k + Suc n" for i
    using that u(5,6) zero by (cases "i = k") auto
  moreover have "get_bytes_array (pmem u) p = replicate 4096 0" if "get_bytes_array (pmem s) p = replicate 4096 0" for p
    using u(6) zero_page_fill [OF that] t(4) by simp
  moreover have "QUEUE_FRAMES u = QUEUE_FRAMES s @ map (\<lambda>i. \<lparr>tracker_ppn = PhysPageNum (b + of_nat i)\<rparr>) [k..<k + Suc n]"
    unfolding up using u(4) t(3) by (simp del: upt_Suc)
  moreover have "fa_current (FRAME_ALLOCATOR u) = b + of_nat (k + Suc n)" using u(3) by simp
  ultimately show ?case using u(2) by (intro exI [of _ u]) (simp del: upt_Suc add_Suc_right)
qed (auto simp: kret_def)

text \<open>C37: On an allocator that has not recycled any frame yet, as at boot, \<^verbatim>\<open>virtio_dma_alloc\<close> returns
  the address of that many consecutive zeroed pages and keeps their trackers alive.\<close>

theorem virtio_dma_contiguous:
  fixes s :: "'z virtio_state_scheme"
  assumes "fa_inv lo (FRAME_ALLOCATOR s)" "recycled (FRAME_ALLOCATOR s) = []" "pages \<noteq> 0"
    "unat (fa_current (FRAME_ALLOCATOR s)) + unat pages \<le> unat (fa_end (FRAME_ALLOCATOR s))"
  shows "\<exists>t. virtio_dma_alloc pages s = Inr (PhysAddr_from_PhysPageNum (PhysPageNum (fa_current (FRAME_ALLOCATOR s))), t) \<and>
     fa_inv lo (FRAME_ALLOCATOR t) \<and>
     QUEUE_FRAMES t = QUEUE_FRAMES s @
       map (\<lambda>i. \<lparr>tracker_ppn = PhysPageNum (fa_current (FRAME_ALLOCATOR s) + of_nat i)\<rparr>) [0..<unat pages] \<and>
     (\<forall>i<unat pages. get_bytes_array (pmem t) (PhysPageNum (fa_current (FRAME_ALLOCATOR s) + of_nat i)) = replicate 4096 0)"
proof -
  have "unat pages \<noteq> 0" using assms(3) by simp
  then show ?thesis
    using dma_pages_spec [OF assms(1,2,4), of 0 "PhysPageNum 0" "fa_current (FRAME_ALLOCATOR s)"]
    by (fastforce simp: virtio_dma_alloc_def kdefs)
qed

theorem virtio_dma_contiguous_witness:
  "\<exists>t :: virtio_state. virtio_dma_alloc 2 \<lparr>pmem = (\<lambda>_. 1), FRAME_ALLOCATOR = \<lparr>fa_current = 0x80500, fa_end = 0x80800, recycled = []\<rparr>, QUEUE_FRAMES = []\<rparr> =
     Inr (PhysAddr_from_PhysPageNum (PhysPageNum 0x80500), t) \<and>
     get_bytes_array (pmem t) (PhysPageNum 0x80501) = replicate 4096 0"
proof -
  have inv: "fa_inv 0x80500 \<lparr>fa_current = 0x80500, fa_end = 0x80800, recycled = []\<rparr>" by (simp add: fa_inv_def)
  let ?s = "\<lparr>pmem = (\<lambda>_. 1), FRAME_ALLOCATOR = \<lparr>fa_current = 0x80500, fa_end = 0x80800, recycled = []\<rparr>, QUEUE_FRAMES = []\<rparr> :: virtio_state"
  have "\<exists>t. virtio_dma_alloc 2 ?s = Inr (PhysAddr_from_PhysPageNum (PhysPageNum 0x80500), t) \<and>
     (\<forall>i<unat (2 :: usize). get_bytes_array (pmem t) (PhysPageNum (0x80500 + of_nat i)) = replicate 4096 0)"
    using virtio_dma_contiguous [where s = ?s and lo = "0x80500" and pages = 2] inv by auto
  then obtain t where "virtio_dma_alloc 2 ?s = Inr (PhysAddr_from_PhysPageNum (PhysPageNum 0x80500), t)"
      "\<forall>i<2. get_bytes_array (pmem t) (PhysPageNum (0x80500 + of_nat i)) = replicate 4096 0" by auto
  moreover from this(2) have "get_bytes_array (pmem t) (PhysPageNum 0x80501) = replicate 4096 0" by (auto dest: spec [of _ 1])
  ultimately show ?thesis by blast
qed

end
