(* ===== verification/Fat_Volume.thy ===== *)
theory Fat_Volume
  imports Fat_File Virtio_Blk
begin

text \<open>
  The file system as its callers see it: opening a volume, finding, creating and reading files, over any
  device that keeps the sector contract, in particular the virtio disk.  The last section has a small
  volume on the virtio disk on which the statements are instantiated.
\<close>

section \<open>Opening a volume\<close>

definition boot_bpb :: "u8 list \<Rightarrow> BIOSParameterBlock" where
  "boot_bpb b = \<lparr>byte_per_sector = from_le_bytes (slice 0x0B 0x0D b), sector_per_cluster = b ! 0x0D,
     reserved_sector = from_le_bytes (slice 0x0E 0x10 b), num_fat = b ! 0x10,
     total_sector = from_le_bytes (slice 0x20 0x24 b), sector_per_fat = from_le_bytes (slice 0x24 0x28 b),
     root_cluster = from_le_bytes (slice 0x2C 0x30 b), bpb_id = from_le_bytes (slice 0x43 0x47 b),
     bpb_volume_label = slice 0x47 0x52 b, bpb_file_system = slice 0x52 0x5A b\<rparr>"

lemma slice_prefix: "slice 0 k (slice i j xs) = slice i (min j (i + k)) xs"
proof -
  have "min j (i + k) - i = min k (j - i)" by linarith
  then show ?thesis by (simp add: slice_def drop_take)
qed

lemma checked_slice_ok: "i \<le> j \<Longrightarrow> j \<le> length xs \<Longrightarrow> checked_slice i j xs = kret (slice i j xs)"
  by (simp add: checked_slice_def kcheck_def kthen_def)

lemma read_le_ok: "length b = 2 \<Longrightarrow> read_le_u16 b = kret (from_le_bytes b)" "length b = 4 \<Longrightarrow> read_le_u32 b = kret (from_le_bytes b)"
  by (simp_all add: read_le_u16_def read_le_u32_def checked_slice_ok slice_def)

context sector_device
begin

lemma Volume_new_spec:
  assumes s: "I s" and cap: "0 < cap"
  shows "\<exists>t. same s t \<and> Volume_new D s =
    (if unat (byte_per_sector (boot_bpb (sec s 0))) \<noteq> 512 then Inl (Explicit ''BUFFER_SIZE'')
     else case from_utf8 (slice 0x52 0x57 (sec s 0)) of
        None \<Rightarrow> Inl UnwrapNone
      | Some fs \<Rightarrow> if fs = lit ''FAT32'' then Inr (boot_bpb (sec s 0), t) else Inl (Explicit ''not fat32 file system''))"
proof -
  have len: "length (sec s 0) = 512" using sec_length [OF s cap] by (simp add: BUFFER_SIZE_def)
  have "sector_addr 0 = 0" by (simp add: sector_addr_def)
  then have "wpe (sector_read D (replicate BUFFER_SIZE 0) 0 1) (\<lambda>b t. b = sec s 0 \<and> same s t) (\<lambda>_. False) s"
    using wpe_sector_read [OF s cap, of "replicate BUFFER_SIZE 0"] by simp
  then obtain t where t: "sector_read D (replicate BUFFER_SIZE 0) 0 1 s = Inr (sec s 0, t)" "same s t" using wpD by fastforce
  have "slice 0 5 (slice 0x52 0x5A (sec s 0)) = slice 0x52 0x57 (sec s 0)" by (simp add: slice_prefix)
  then show ?thesis
    using t len
    by (intro exI [of _ t])
      (simp add: Volume_new_def kbind_def [of "sector_read D _ _ _"] checked_slice_ok read_le_ok is_fat32_def boot_bpb_def BUFFER_SIZE_def
        kcheck_def kunwrap_def kpanic_def kret_def kbind_def kthen_def kindex_def split: option.splits)
qed

end

section \<open>Finding and opening files\<close>

text \<open>Comparing names does not depend on the case of the asked name.\<close>

lemma sfn_equal_case: "eq_ignore_ascii_case v w \<Longrightarrow> sfn_equal x v \<longleftrightarrow> sfn_equal x w"
  by (auto simp: sfn_equal_def name_equal_def eq_ignore_ascii_case_def split: option.splits)

context sector_device
begin

lemma dir_ok_same:
  assumes "vol_ok cap bpb n" "same s t" "dir_ok (sec s) bpb n cs"
  shows "dir_ok (sec t) bpb n cs"
proof -
  have "fat_entry (sec t) (fat_sector bpb) (unat c) = fat_entry (sec s) (fat_sector bpb) (unat c)" if "c \<in> set cs" for c
    using fat_entry_cong [of "sec t" "fat_sector bpb" "unat c" "sec s"] fat_inside [OF assms(1)] assms(2,3) that
    by (simp add: dir_ok_def)
  then show ?thesis
    using assms(3) fat_chain_cong [of cs "fat_entry (sec t) (fat_sector bpb)"] by (simp add: dir_ok_def)
qed

lemma chain_bytes_same:
  assumes "vol_ok cap bpb n" "same s t" "\<forall>c\<in>set cs. is_cluster n c"
  shows "chain_bytes (sec t) bpb cs = chain_bytes (sec s) bpb cs"
  unfolding chain_bytes_def cluster_bytes_of_def
  by (intro arg_cong [where f = concat] map_cong refl secs_cong)
    (use assms(2,3) cluster_inside [OF assms(1)] in \<open>fastforce\<close>)

lemma open_file_sfn:
  assumes vol: "vol_ok cap bpb n" and dir: "dir_ok (sec s) bpb n cs" and s: "I s"
    and at: "fat_at (fat_sector bpb) (dir_fat d) [] cs" and det: "di_sfn (dir_detail d) = Some dsi"
    and sfn: "sfn_or_lfn val = SFN" "\<not> is_illegal val"
    and found: "find (\<lambda>x. sfn_equal x val) (listing (dir_slots (sec s) (chain_sectors bpb cs))) = Some di"
      "is_file di" "di_sfn di = Some si"
  shows "wpe (open_file D bpb d val) (\<lambda>r t. same s t \<and>
     r = Inr \<lparr>file_dir_cluster = si_cluster dsi, file_detail = di, file_fat = FAT_new (si_cluster si) (bpb_fat1 bpb)\<rparr>) E s"
  unfolding open_file_def if_not_P [OF sfn(2)]
proof (rule wpe_bindI [OF Dir_exist_sfn [OF vol dir s at sfn(1)]], goal_cases)
  case (1 item t)
  then have item: "item = Some di" using found(1) by simp
  have t: "same s t" using 1 by simp
  show ?case using t found(2,3) det by (simp add: item di_cluster_def)
qed

text \<open>Opening a file and reading all of it.\<close>

lemma open_read_sfn:
  assumes vol: "vol_ok cap bpb n" and dir: "dir_ok (sec s) bpb n cs" and s: "I s"
    and at: "fat_at (fat_sector bpb) (dir_fat d) [] cs" and det: "di_sfn (dir_detail d) = Some dsi"
    and sfn: "sfn_or_lfn val = SFN" "\<not> is_illegal val"
    and found: "find (\<lambda>x. sfn_equal x val) (listing (dir_slots (sec s) (chain_sectors bpb cs))) = Some di"
      "is_file di" "di_sfn di = Some si"
    and data: "dir_ok (sec s) bpb n fs" "hd fs = si_cluster si" "chain_fits bpb fs (unat (si_length si))"
    and buf: "unat (si_length si) \<le> length buf" "length buf < 2 ^ 63"
  shows "wpe (kbind (open_file D bpb d val) (\<lambda>r. case r of Inl e \<Rightarrow> kpanic UnwrapErr | Inr file \<Rightarrow> File_read D bpb file buf))
     (\<lambda>(r, buf') t. same s t \<and> r = Inr (unat (si_length si)) \<and>
        buf' = take (unat (si_length si)) (chain_bytes (sec s) bpb fs) @ drop (unat (si_length si)) buf) E s"
proof (rule wpe_bindI [OF open_file_sfn [OF vol dir s at det sfn found]], goal_cases)
  case (1 r t)
  let ?file = "\<lparr>file_dir_cluster = si_cluster dsi, file_detail = di, file_fat = FAT_new (si_cluster si) (bpb_fat1 bpb)\<rparr>"
  have r: "r = Inr ?file" and t: "same s t" using 1 by auto
  have ne: "fs \<noteq> []" using data(1) by (auto simp: dir_ok_def fat_chain_def)
  have fa: "fat_at (fat_sector bpb) (file_fat ?file) [] fs"
    using fat_at_start [of fs "fat_sector bpb"] ne data(2) by (simp add: bpb_fat1_sector [OF vol])
  have dir': "dir_ok (sec t) bpb n fs" by (rule dir_ok_same [OF vol t data(1)])
  have bytes: "chain_bytes (sec t) bpb fs = chain_bytes (sec s) bpb fs"
    by (rule chain_bytes_same [OF vol t]) (use data(1) in \<open>simp add: dir_ok_def\<close>)
  have len: "di_length (file_detail ?file) = Some (unat (si_length si))" using found(3) by (simp add: di_length_def)
  show ?case
    unfolding r sum.case
    by (rule wpe_post [OF File_read_spec [OF vol dir' _ fa len data(3) buf]]) (use t bytes in auto)
qed

end

section \<open>Reading sector by sector\<close>

text \<open>A caller that drains the sector iterator and keeps the valid bytes of every item.\<close>

definition drain ::
  "'d sector_dev \<Rightarrow> BIOSParameterBlock \<Rightarrow> ReadIter \<Rightarrow> ('d, u8 list) kernel" where
  "drain D bpb it =
     kloop (\<lambda>(it, acc). kbind (ReadIter_next D bpb it) (\<lambda>(item, it').
       case item of
         None \<Rightarrow> kret (Inr acc)
       | Some (buf, k) \<Rightarrow> kret (Inl (it', acc @ take k buf)))) (it, [])"

lemma chain_bytes_sectors: "chain_bytes f bpb cs = concat (map f (chain_sectors bpb cs))"
  by (induction cs) (simp_all add: chain_bytes_def chain_sectors_def cluster_bytes_of_def secs_def cluster_sectors_def)

lemma chain_sector_at:
  assumes "k < length cs * sector_per_cluster_usize bpb"
  shows "k div sector_per_cluster_usize bpb < length cs"
    "chain_sectors bpb cs ! k = cluster_sector bpb (cs ! (k div sector_per_cluster_usize bpb)) + k mod sector_per_cluster_usize bpb"
proof -
  let ?s = "sector_per_cluster_usize bpb"
  show q: "k div ?s < length cs" using assms by (rule less_mult_imp_div_less)
  have "0 < ?s" using assms by (cases "?s = 0") auto
  then have "k mod ?s < ?s" by simp
  moreover have "cs = take (k div ?s) cs @ cs ! (k div ?s) # drop (Suc (k div ?s)) cs" using q by (rule id_take_nth_drop)
  ultimately show "chain_sectors bpb cs ! k = cluster_sector bpb (cs ! (k div ?s)) + k mod ?s"
    using chain_sectors_nth [of cs "take (k div ?s) cs" "cs ! (k div ?s)" "drop (Suc (k div ?s)) cs" "k mod ?s" bpb] q by simp
qed

lemma ceil_div:
  assumes "0 < (s :: nat)"
  shows "(k + s - 1) div s = (if k mod s = 0 then k div s else Suc (k div s))"
proof (cases "k mod s = 0")
  case True
  then have "k + s - 1 = (s - 1) + (k div s) * s" using assms by (metis Nat.add_diff_assoc Suc_leI One_nat_def add.commute div_mult_mod_eq add.right_neutral)
  then have "(k + s - 1) div s = k div s + (s - 1) div s" using assms by (simp only: div_mult_self1 neq0_conv)
  then show ?thesis using True assms by simp
next
  case False
  have "k = k div s * s + k mod s" by simp
  then have "k + s - 1 = (k mod s - 1) + Suc (k div s) * s" using False by simp
  moreover have "k mod s - 1 < s" using assms by (simp add: less_imp_diff_less)
  ultimately show ?thesis using False assms by (metis add.commute add.right_neutral div_less div_mult_self3 not_less0)
qed

lemma needed_sector_last:
  assumes "k < get_needed_sector len"
  shows "k * BUFFER_SIZE < len" "len - k * BUFFER_SIZE \<le> BUFFER_SIZE \<longleftrightarrow> Suc k = get_needed_sector len"
proof -
  show lt: "k * BUFFER_SIZE < len" by (rule ccontr) (use needed_sector_bounds(2) [of len k] assms in auto)
  have "len - k * BUFFER_SIZE \<le> BUFFER_SIZE \<longleftrightarrow> len \<le> Suc k * BUFFER_SIZE" using lt by auto
  also have "\<dots> \<longleftrightarrow> Suc k = get_needed_sector len"
    using needed_sector_bounds(1) [of len] needed_sector_bounds(2) [of len "Suc k"] assms by (metis Suc_leI le_antisym)
  finally show "len - k * BUFFER_SIZE \<le> BUFFER_SIZE \<longleftrightarrow> Suc k = get_needed_sector len" .
qed

text \<open>The iterator after \<^term>\<open>k\<close> sectors of a file of \<^term>\<open>len\<close> bytes with the clusters \<^term>\<open>cs\<close>.\<close>

definition ri_at :: "BIOSParameterBlock \<Rightarrow> u32 list \<Rightarrow> nat \<Rightarrow> nat \<Rightarrow> ReadIter \<Rightarrow> bool" where
  "ri_at bpb cs len k it \<longleftrightarrow> length (ri_buffer it) = BUFFER_SIZE \<and> ri_read_count it = k \<and>
     ri_need_count it = get_needed_sector len \<and> k \<le> get_needed_sector len \<and>
     (k < get_needed_sector len \<longrightarrow> ri_left_length it = len - k * BUFFER_SIZE) \<and>
     (let m = (k + sector_per_cluster_usize bpb - 1) div sector_per_cluster_usize bpb
      in fat_at (fat_sector bpb) (ri_fat it) (take m cs) (drop m cs))"

context sector_device
begin

lemma ReadIter_load:
  assumes vol: "vol_ok cap bpb n" and dir: "dir_ok (sec s) bpb n cs" and s: "I s" and t: "same s t"
    and it: "ri_at bpb cs len k it" and k: "k < length cs * sector_per_cluster_usize bpb"
  shows "wpe (if ri_read_count it mod sector_per_cluster_usize bpb = 0
      then kbind (FAT_next D (ri_fat it)) (\<lambda>(_, fat). kret (it\<lparr>ri_fat := fat\<rparr>)) else kret it)
    (\<lambda>it' u. same s u \<and> (\<exists>g. it' = it\<lparr>ri_fat := g\<rparr> \<and>
      current_cluster g = cs ! (k div sector_per_cluster_usize bpb) \<and>
      fat_at (fat_sector bpb) g (take (Suc (k div sector_per_cluster_usize bpb)) cs) (drop (Suc (k div sector_per_cluster_usize bpb)) cs))) E t"
proof -
  let ?s = "sector_per_cluster_usize bpb" and ?f = "fat_sector bpb"
  let ?q = "k div ?s"
  have pos: "0 < ?s" using vol by (simp add: vol_ok_def)
  have q: "?q < length cs" using chain_sector_at(1) [OF k] .
  have rc: "ri_read_count it = k" and at: "fat_at ?f (ri_fat it) (take ((k + ?s - 1) div ?s) cs) (drop ((k + ?s - 1) div ?s) cs)"
    using it by (auto simp: ri_at_def Let_def)
  show ?thesis
  proof (cases "k mod ?s = 0")
    case True
    then have m: "(k + ?s - 1) div ?s = ?q" using ceil_div [OF pos] by simp
    let ?y = "cs ! ?q" and ?ys = "drop (Suc ?q) cs"
    have d: "drop ?q cs = ?y # ?ys" using q by (simp add: Cons_nth_drop_Suc)
    have cs: "cs = take ?q cs @ ?y # ?ys" using d by (metis append_take_drop_id)
    have y: "is_cluster n ?y" using dir q by (auto simp: dir_ok_def)
    have e: "fat_entry (sec t) ?f (unat ?y) = chain_link ?ys"
      using dir_ok_link [of "sec s" bpb n "take ?q cs" ?y ?ys] dir cs fat_entry_cong [of "sec t" ?f "unat ?y" "sec s"] t fat_inside [OF vol y] by simp
    have ch: "fat_chain (fat_entry (sec s) ?f) (take ?q cs @ ?y # ?ys)" using dir cs by (simp add: dir_ok_def)
    have nxt: "wpe (FAT_next D (ri_fat it)) (\<lambda>(item, fat') u. same t u \<and> item = Some fat' \<and> fat_at ?f fat' (take ?q cs @ [?y]) ?ys) E t"
      by (rule FAT_next_step [OF _ _ ch e fat_inside [OF vol y]]) (use t at m d in auto)
    show ?thesis
      unfolding rc if_P [OF True] wpe_kbind
      by (rule wpe_post [OF nxt]) (use t q in \<open>auto simp: take_Suc_conv_app_nth fat_at_def\<close>)
  next
    case False
    then have m: "(k + ?s - 1) div ?s = Suc ?q" using ceil_div [OF pos] by simp
    have "take (Suc ?q) cs \<noteq> []" "last (take (Suc ?q) cs) = cs ! ?q" using q by (auto simp: take_Suc_conv_app_nth)
    then show ?thesis using False t at m unfolding rc by (auto simp: fat_at_def intro!: exI [of _ "ri_fat it"])
  qed
qed

lemma ReadIter_next_spec:
  assumes vol: "vol_ok cap bpb n" and dir: "dir_ok (sec s) bpb n cs" and s: "I s" and t: "same s t"
    and it: "ri_at bpb cs len k it" and len: "len \<le> length cs * (sector_per_cluster_usize bpb * BUFFER_SIZE)" "len < 2 ^ 63"
    and k: "k < get_needed_sector len"
  shows "wpe (ReadIter_next D bpb it) (\<lambda>(item, it') u. same s u \<and> ri_at bpb cs len (Suc k) it' \<and>
     item = Some (sec s (chain_sectors bpb cs ! k), min BUFFER_SIZE (len - k * BUFFER_SIZE))) E t"
proof -
  let ?s = "sector_per_cluster_usize bpb"
  let ?j = "chain_sectors bpb cs ! k"
  have pos: "0 < ?s" using vol by (simp add: vol_ok_def)
  have "get_needed_sector len \<le> length cs * ?s" using len(1) by (intro needed_sector_bounds(2)) (simp add: mult.assoc)
  then have k': "k < length cs * ?s" using k by simp
  note sect = chain_sector_at [OF k']
  have c: "is_cluster n (cs ! (k div ?s))" using dir sect(1) by (auto simp: dir_ok_def)
  have j: "?j < cap" using sect(2) cluster_inside [OF vol c] mod_less_divisor [OF pos, of k] by linarith
  have addr: "bpb_offset bpb (cs ! (k div ?s)) + of_nat ((k mod ?s) * BUFFER_SIZE) = sector_addr ?j"
    by (simp only: bpb_offset_sector [OF vol c] sector_addr_add sect(2))
  have rc: "ri_read_count it = k" "ri_need_count it = get_needed_sector len" "length (ri_buffer it) = BUFFER_SIZE"
      "ri_left_length it = len - k * BUFFER_SIZE"
    using it k by (auto simp: ri_at_def)
  note last = needed_sector_last [OF k]
  have ne: "ri_read_count it \<noteq> ri_need_count it" using k rc by simp
  have sub: "usub (len - k * BUFFER_SIZE) BUFFER_SIZE = len - Suc k * BUFFER_SIZE" if "Suc k \<noteq> get_needed_sector len"
    using that last len(2) by (subst usub_small) auto
  show ?thesis
    unfolding ReadIter_next_def Let_def if_not_P [OF ne] wpe_kthen wpe_kcheck
  proof (rule conjI, rule impI, rule wpe_bindI [OF ReadIter_load [OF vol dir s t it k']], goal_cases)
    case (1 it' u)
    then obtain g where u: "same s u" and cur: "current_cluster g = cs ! (k div ?s)"
        and fat: "fat_at (fat_sector bpb) g (take (Suc (k div ?s)) cs) (drop (Suc (k div ?s)) cs)"
        and it': "it' = it\<lparr>ri_fat := g\<rparr>" by auto
    have rc': "ri_read_count it' = k" "current_cluster (ri_fat it') = cs ! (k div ?s)" and buf: "length (ri_buffer it') = BUFFER_SIZE"
      using rc cur by (simp_all add: it')
    have sl: "length (sec u ?j) = BUFFER_SIZE" "sec u ?j = sec s ?j" using sec_length [of u ?j] u j by auto
    show ?case
      unfolding rc' addr wpe_kbind
    proof (rule wpe_sector_read [OF _ j buf], goal_cases)
      case (2 w)
      then have w: "same s w" using u by simp
      show ?case
        using w fat last sub sl rc k pos by (auto simp: it' ri_at_def Let_def div_add_self2 min_def)
    qed (use u in simp)
  next
    case 2
    then show ?case using pos by simp
  qed
qed

lemma drain_spec:
  assumes vol: "vol_ok cap bpb n" and dir: "dir_ok (sec s) bpb n cs" and s: "I s"
    and it: "ri_at bpb cs len 0 it" and len: "len \<le> length cs * (sector_per_cluster_usize bpb * BUFFER_SIZE)" "len < 2 ^ 63"
  shows "wpe (drain D bpb it) (\<lambda>bytes t. same s t \<and> bytes = take len (chain_bytes (sec s) bpb cs)) E s"
proof -
  let ?js = "chain_sectors bpb cs" and ?need = "get_needed_sector len"
  let ?B = "chain_bytes (sec s) bpb cs"
  define J where "J = (\<lambda>(it, acc) t. same s t \<and> (\<exists>k. ri_at bpb cs len k it \<and> acc = take (min len (k * BUFFER_SIZE)) ?B))"
  have need: "?need \<le> length ?js" using len(1) by (simp add: length_chain_sectors needed_sector_bounds(2) mult.assoc)
  have sl: "length (sec s j) = BUFFER_SIZE" if "j \<in> set ?js" for j
    using sec_length [OF s] dir_sectors_inside [OF vol dir that] by simp
  have ext: "take (k * BUFFER_SIZE) ?B @ take x (sec s (?js ! k)) = take (k * BUFFER_SIZE + x) ?B"
    if "k < length ?js" "x \<le> BUFFER_SIZE" for k x
  proof -
    have B: "?B = concat (map (sec s) (take k ?js)) @ sec s (?js ! k) @ concat (map (sec s) (drop (Suc k) ?js))"
      using arg_cong [OF id_take_nth_drop [OF that(1)], of "\<lambda>js. concat (map (sec s) js)"] by (simp add: chain_bytes_sectors)
    have "length (concat (map (sec s) (take k ?js))) = k * BUFFER_SIZE"
      by (subst length_concat_uniform [of _ BUFFER_SIZE]) (use that sl in \<open>auto dest: in_set_takeD\<close>)
    moreover have "length (sec s (?js ! k)) = BUFFER_SIZE" using sl that(1) by simp
    ultimately show ?thesis using that(2) unfolding B by simp
  qed
  show ?thesis
    unfolding drain_def
  proof (rule wpe_kloop_measure [where I = J and m = "\<lambda>(it, acc) t. ri_need_count it - ri_read_count it"])
    show "J (it, []) s" using it s by (auto simp: J_def intro!: exI [of _ 0])
  next
    fix a t assume "J a t"
    then obtain it acc k where a: "a = (it, acc)" and t: "same s t" and r: "ri_at bpb cs len k it"
        and acc: "acc = take (min len (k * BUFFER_SIZE)) ?B"
      by (cases a) (auto simp: J_def)
    show "wpe (case a of (it, acc) \<Rightarrow> kbind (ReadIter_next D bpb it) (\<lambda>(item, it').
         case item of None \<Rightarrow> kret (Inr acc) | Some (buf, k) \<Rightarrow> kret (Inl (it', acc @ take k buf))))
       (\<lambda>r u. case r of
          Inl a' \<Rightarrow> J a' u \<and> (case a' of (it, acc) \<Rightarrow> \<lambda>t. ri_need_count it - ri_read_count it) u < (case a of (it, acc) \<Rightarrow> \<lambda>t. ri_need_count it - ri_read_count it) t
        | Inr b \<Rightarrow> same s u \<and> b = take len ?B) E t"
    proof (cases "k < ?need")
      case True
      note last = needed_sector_last [OF True]
      show ?thesis
        unfolding a prod.case
      proof (rule wpe_bindI [OF ReadIter_next_spec [OF vol dir s t r len True]], clarsimp, goal_cases)
        case (1 it' u)
        let ?x = "min BUFFER_SIZE (len - k * BUFFER_SIZE)"
        have "acc @ take ?x (sec s (?js ! k)) = take (min len (Suc k * BUFFER_SIZE)) ?B"
        proof -
          have "k * BUFFER_SIZE + ?x = min len (Suc k * BUFFER_SIZE)" "min len (k * BUFFER_SIZE) = k * BUFFER_SIZE"
            using last(1) by simp_all
          then show ?thesis using ext [OF less_le_trans [OF True need], of ?x] acc by (simp only: min.cobounded1)
        qed
        then show ?case using 1 r True by (auto simp: J_def ri_at_def)
      qed
    next
      case False
      then have k: "k = ?need" using r by (simp add: ri_at_def)
      then have "ReadIter_next D bpb it = kret (None, it)" using r by (simp add: ReadIter_next_def ri_at_def Let_def)
      then show ?thesis using t acc k needed_sector_bounds(1) [of len] by (simp add: a min_def)
    qed
  qed
qed

end

section \<open>A volume on the virtio disk\<close>

text \<open>
  64 sectors: the boot sector, one sector of table, the root directory with one file of 600 bytes in
  the clusters 3 and 4, and free clusters from 5 on.
\<close>

definition sample_bpb :: BIOSParameterBlock where
  "sample_bpb = \<lparr>byte_per_sector = 512, sector_per_cluster = 1, reserved_sector = 1, num_fat = 1, total_sector = 64,
     sector_per_fat = 1, root_cluster = 2, bpb_id = 0, bpb_volume_label = replicate 11 0x20,
     bpb_file_system = [0x46, 0x41, 0x54, 0x33, 0x32, 0x20, 0x20, 0x20]\<rparr>"

definition sample_boot :: "u8 list" where
  "sample_boot = replicate 11 0 @ [0, 2, 1, 1, 0, 1] @ replicate 15 0 @ [64, 0, 0, 0, 1, 0, 0, 0] @ replicate 4 0 @
     [2, 0, 0, 0] @ replicate 23 0 @ replicate 11 0x20 @ [0x46, 0x41, 0x54, 0x33, 0x32, 0x20, 0x20, 0x20] @ replicate 422 0"

definition sample_fat :: "u8 list" where
  "sample_fat = [0xF8, 0xFF, 0xFF, 0x0F, 0xFF, 0xFF, 0xFF, 0x0F, 0xFF, 0xFF, 0xFF, 0x0F, 4, 0, 0, 0, 0xFF, 0xFF, 0xFF, 0x0F]
     @ replicate 492 0"

definition sample_root :: "u8 list" where
  "sample_root = [0x48, 0x45, 0x4C, 0x4C, 0x4F, 0x20, 0x20, 0x20, 0x54, 0x58, 0x54, 0x20, 0, 0, 0, 0,
     0, 0, 0, 0, 0, 0, 0, 0, 0, 0, 3, 0, 0x58, 2, 0, 0] @ replicate 480 0"

definition sample_image :: "nat \<Rightarrow> u8 list" where
  "sample_image i = (if i = 0 then sample_boot else if i = 1 then sample_fat else if i = 2 then sample_root
     else if i = 3 then replicate 512 0x41 else if i = 4 then replicate 512 0x42 else replicate 512 0)"

lemma sample_lengths: "length (sample_image i) = 512"
  by (simp add: sample_image_def sample_boot_def sample_fat_def sample_root_def)

lemma from_le_bytes_zeros: "from_le_bytes (replicate n 0) = 0"
  by (induction n) simp_all

lemma sample_entries:
  "fat_entry sample_image 1 0 = 0x0FFFFFF8" "fat_entry sample_image 1 1 = end_of_chain" "fat_entry sample_image 1 2 = end_of_chain"
  "fat_entry sample_image 1 3 = 4" "fat_entry sample_image 1 4 = end_of_chain" "fat_entry sample_image 1 5 = 0"
  by (simp_all add: fat_entry_def entry_at_def sample_image_def sample_fat_def slice_def from_le_bytes_zeros)

lemma sample_boot_bpb: "boot_bpb sample_boot = sample_bpb"
  by (simp add: boot_bpb_def sample_boot_def sample_bpb_def slice_def nth_append from_le_bytes_zeros)

lemma sample_slots: "dir_slots sample_image [2] = slice 0 32 sample_root # map (\<lambda>_. replicate 32 0) [0..<15]"
  by (simp add: dir_slots_def sector_slots_def sample_image_def sample_root_def slice_def upt_rec)

lemma sample_vol: "vol_ok 64 sample_bpb 60" "fat_sector sample_bpb = 1" "chain_sectors sample_bpb [2] = [2]"
  by (simp_all add: vol_ok_def sample_bpb_def BUFFER_SIZE_def sector_per_cluster_usize_def cluster_sector_def fat_sector_def
      chain_sectors_def cluster_sectors_def upt_rec)

definition hello_item :: DirectoryItem where
  "hello_item = \<lparr>di_item_type = ItFile, di_sfn = Some \<lparr>si_name = [0x48, 0x45, 0x4C, 0x4C, 0x4F, 0x20, 0x20, 0x20],
     si_extension = [0x54, 0x58, 0x54], si_length = 600, si_cluster = 3\<rparr>, di_lfn = None\<rparr>"

lemma sample_decode: "decode (slice 0 32 sample_root) = hello_item"
  by (simp add: decode_def di_from_buf_def Short_from_buf_def read_le_u32_def checked_slice_def kdefs Let_def sample_root_def
      slice_def hello_item_def ItemType_from_value_def)

lemma sample_listing:
  "listing (dir_slots sample_image [2]) = [hello_item]" "used_slots (dir_slots sample_image [2]) = 1"
  "dir_slots sample_image [2] ! Suc 1 ! 0 = 0"
proof -
  have z: "replicate 32 (0 :: u8) ! 0 = 0" by simp
  have h: "slice 0 32 sample_root ! 0 = 0x48" by (simp add: sample_root_def slice_def)
  show "listing (dir_slots sample_image [2]) = [hello_item]"
    unfolding sample_slots by (simp add: h sample_decode dot_slot_def upt_rec)
  show "used_slots (dir_slots sample_image [2]) = 1"
    unfolding sample_slots by (simp add: h used_slots_def upt_rec)
  show "dir_slots sample_image [2] ! Suc 1 ! 0 = 0" unfolding sample_slots by (simp add: upt_rec)
qed

lemma sample_dirs: "dir_ok sample_image sample_bpb 60 [2]" "dir_ok sample_image sample_bpb 60 [3, 4]"
  by (auto simp: dir_ok_def fat_chain_def sample_vol(2) is_cluster_def sample_entries [unfolded One_nat_def] Cons_eq_append_conv)

lemma sample_root_dir: "fat_at (fat_sector sample_bpb) (dir_fat (Volume_root_dir sample_bpb)) [] [2]"
  using fat_at_start [of "[2]" "fat_sector sample_bpb"] bpb_fat1_sector [OF sample_vol(1)]
  by (simp add: Volume_root_dir_def sample_bpb_def)

abbreviation vd :: "disk VirtIOBlk sector_dev" where
  "vd \<equiv> Nuclear (sample_disk 64) id (\<lambda>_. sample_frame)"

abbreviation vd_sec :: "disk VirtIOBlk \<Rightarrow> nat \<Rightarrow> u8 list" where
  "vd_sec \<equiv> \<lambda>s. disk_data (blk_hw s)"

definition vd_boot :: "disk VirtIOBlk" where
  "vd_boot = boot_blk 64 sample_image"

lemma vd_boot_ok: "blk_ok (disk_idle 64) vd_boot" "vd_sec vd_boot = sample_image"
  using boot_blk_ok [of 64 sample_image] by (simp_all add: vd_boot_def sample_lengths)

lemmas vd_device = vdisk.nuc.sector_device_axioms

section \<open>Creating a file and opening it\<close>

lemma create_file_detail:
  assumes "create_file D bpb d val s = Inr ((r, d'), t)"
  shows "dir_detail d' = dir_detail d"
  using assms unfolding create_file_def Dir_create_split
  by (auto simp: kdefs split: if_splits sum.splits prod.splits option.splits)

text \<open>Short names have no upper-case letters.\<close>

lemma sfn_case:
  assumes "sfn_or_lfn v = SFN" "sfn_or_lfn w = SFN"
  shows "eq_ignore_ascii_case v w \<longleftrightarrow> v = w"
proof -
  have "map ascii_lower u = u" if "sfn_or_lfn u = SFN" for u
    using that by (auto simp: sfn_or_lfn_def list_ex_iff ascii_lower_def is_ascii_uppercase_def split: prod.splits if_splits intro!: map_idI)
  then show ?thesis using assms by (simp add: eq_ignore_ascii_case_def)
qed

context sector_device
begin

lemma create_open_sfn:
  assumes vol: "vol_ok cap bpb n" and dir: "dir_ok (sec s) bpb n cs" and s: "I s"
    and at: "fat_at (fat_sector bpb) (dir_fat d) [] cs" and det: "di_sfn (dir_detail d) = Some dsi"
    and sfn: "sfn_or_lfn val = SFN" "val \<noteq> []" "last val \<noteq> dot" "hd val \<noteq> 0" "\<not> is_illegal val"
  defines "slots \<equiv> dir_slots (sec s) (chain_sectors bpb cs)"
  assumes fresh: "\<forall>x\<in>set (listing slots). \<not> sfn_equal x val"
    and room: "used_slots slots < length slots"
    and clean: "Suc (used_slots slots) < length slots \<Longrightarrow> slots ! Suc (used_slots slots) ! 0 = 0"
    and c: "is_cluster n c" "fat_entry (sec s) (fat_sector bpb) (unat c) = 0"
    and first: "\<And>x. x < unat c \<Longrightarrow> fat_entry (sec s) (fat_sector bpb) x \<noteq> 0"
  shows "wpe (create_file D bpb d val) (\<lambda>(r, d') t. r = Inr () \<and> I t \<and>
     (\<forall>v. sfn_or_lfn v = SFN \<and> \<not> is_illegal v \<and> eq_ignore_ascii_case v val \<longrightarrow>
        wp (open_file D bpb d' v) (\<lambda>r u. \<exists>file. r = Inr file \<and> start_cluster (file_fat file) = c \<and>
          file_dir_cluster file = si_cluster dsi) t) \<and>
     (\<forall>v. sfn_or_lfn v = SFN \<and> \<not> eq_ignore_ascii_case v val \<longrightarrow>
        wp (Dir_exist D bpb d' v) (\<lambda>item u. item = find (\<lambda>x. sfn_equal x v) (listing slots)) t)) E s"
proof -
  let ?js = "chain_sectors bpb cs"
  have "wlp (create_file D bpb d val) (\<lambda>(r, d') t. dir_detail d' = dir_detail d) s"
    by (rule wpeI) (auto dest: create_file_detail)
  note both = wpe_conj [OF create_file_sfn [OF vol dir s at sfn fresh [unfolded slots_def] room [unfolded slots_def]
        clean [unfolded slots_def] c first] this]
  show ?thesis
  proof (rule wpe_post [OF both], goal_cases)
    case 1 then show ?case by simp
  next
    case 2 then show ?case by simp
  next
    case (3 a t)
    obtain r d' where a: "a = (r, d')" by (cases a)
    have t: "r = Inr ()" "I t" "file_created (sec s) (sec t) bpb cs val c" "dir_ok (sec t) bpb n cs"
        "fat_at (fat_sector bpb) (dir_fat d') [] cs" "dir_detail d' = dir_detail d"
      using 3 by (auto simp: a)
    obtain item where item: "listing (dir_slots (sec t) ?js) = listing slots @ [item]" "is_file item"
        "map_option si_cluster (di_sfn item) = Some c" "\<And>v. sfn_equal item v \<longleftrightarrow> eq_ignore_ascii_case v val"
      using t(3) by (auto simp: file_created_def slots_def)
    obtain si where si: "di_sfn item = Some si" "si_cluster si = c" using item(3) by auto
    have det': "di_sfn (dir_detail d') = Some dsi" using det t(6) by simp
    have "wp (open_file D bpb d' v) (\<lambda>r u. \<exists>file. r = Inr file \<and> start_cluster (file_fat file) = c \<and>
          file_dir_cluster file = si_cluster dsi) t"
      if v: "sfn_or_lfn v = SFN" "\<not> is_illegal v" "eq_ignore_ascii_case v val" for v
    proof -
      have "find (\<lambda>x. sfn_equal x v) (listing slots) = None" using fresh sfn_equal_case [OF v(3)] by (simp add: find_None_iff)
      then have "find (\<lambda>x. sfn_equal x v) (listing (dir_slots (sec t) ?js)) = Some item"
        using item(4) v(3) by (simp add: item(1) find_append)
      from open_file_sfn [OF vol t(4,2,5) det' v(1,2) this item(2) si(1), of "\<lambda>_. False"] show ?thesis
        by (rule wpe_post) (use si(2) in \<open>simp add: FAT_new_def\<close>)
    qed
    moreover have "wp (Dir_exist D bpb d' v) (\<lambda>item u. item = find (\<lambda>x. sfn_equal x v) (listing slots)) t"
      if v: "sfn_or_lfn v = SFN" "\<not> eq_ignore_ascii_case v val" for v
      by (rule wpe_post [OF Dir_exist_sfn [OF vol t(4,2,5) v(1)]])
        (use item(4) v(2) in \<open>simp add: item(1) find_append split: option.split\<close>)
    ultimately show ?case using t by (simp add: a)
  qed
qed

end

section \<open>The file system on a disk\<close>

text \<open>C24: Opening a volume never misreads it: the boot sector is decoded field by field, and it is
  refused with a panic exactly when the sectors do not have 512 bytes or the file system is not FAT32.\<close>

theorem volume_opened:
  assumes "sector_device D I cap sec" "I s" "0 < cap"
  shows "\<exists>t. (\<forall>j<cap. sec t j = sec s j) \<and> Volume_new D s =
    (if unat (byte_per_sector (boot_bpb (sec s 0))) \<noteq> 512 then Inl (Explicit ''BUFFER_SIZE'')
     else case from_utf8 (slice 0x52 0x57 (sec s 0)) of
        None \<Rightarrow> Inl UnwrapNone
      | Some fs \<Rightarrow> if fs = lit ''FAT32'' then Inr (boot_bpb (sec s 0), t) else Inl (Explicit ''not fat32 file system''))"
  using sector_device.Volume_new_spec [OF assms] by blast

theorem volume_opened_witness:
  "\<exists>t. Volume_new vd vd_boot = Inr (sample_bpb, t)"
proof -
  have "slice 0x52 0x57 sample_boot = [0x46, 0x41, 0x54, 0x33, 0x32]" by (simp add: sample_boot_def slice_def)
  moreover have "from_utf8 [0x46, 0x41, 0x54, 0x33, 0x32] = Some (lit ''FAT32'')" by code_simp
  ultimately show ?thesis
    using volume_opened [OF vd_device vd_boot_ok(1)] by (auto simp: vd_boot_ok(2) sample_image_def sample_boot_bpb) (simp add: sample_bpb_def)
qed

text \<open>C23: Looking up a short name in a directory returns the first live entry of that name, without
  regard to case, up to the end mark and across all clusters of the directory, or none; it always
  returns, and the disk keeps its content.\<close>

theorem lookup_finds_first:
  assumes "sector_device D I cap sec" "vol_ok cap bpb n" "dir_ok (sec s) bpb n cs" "I s"
    "fat_at (fat_sector bpb) (dir_fat d) [] cs" "sfn_or_lfn val = SFN"
  shows "\<exists>t. Dir_exist D bpb d val s =
       Inr (find (\<lambda>x. sfn_equal x val) (listing (dir_slots (sec s) (chain_sectors bpb cs))), t) \<and>
     (\<forall>j<cap. sec t j = sec s j)"
  using wpD [OF sector_device.Dir_exist_sfn [OF assms]] by auto

lemma hello_found: "sfn_equal hello_item (lit ''hello.txt'')" "sfn_or_lfn (lit ''hello.txt'') = SFN" "\<not> is_illegal (lit ''hello.txt'')"
  by (code_simp)+

theorem lookup_finds_first_witness:
  "\<exists>t. Dir_exist vd sample_bpb (Volume_root_dir sample_bpb) (lit ''hello.txt'') vd_boot = Inr (Some hello_item, t)"
proof -
  have "dir_ok (vd_sec vd_boot) sample_bpb 60 [2]" by (simp add: vd_boot_ok(2) sample_dirs)
  from lookup_finds_first [OF vd_device sample_vol(1) this vd_boot_ok(1) sample_root_dir hello_found(2)]
  show ?thesis by (auto simp: vd_boot_ok(2) sample_vol(3) sample_listing(1) hello_found(1))
qed




lemma memo_name: "sfn_or_lfn (lit ''memo.md'') = SFN" "lit ''memo.md'' \<noteq> []" "last (lit ''memo.md'') \<noteq> dot" "hd (lit ''memo.md'') \<noteq> 0"
  "\<not> is_illegal (lit ''memo.md'')" "\<not> sfn_equal hello_item (lit ''memo.md'')"
  by (code_simp)+

lemma below_5: "x < unat (5 :: u32) \<Longrightarrow> x = 0 \<or> x = 1 \<or> x = 2 \<or> x = 3 \<or> x = (4 :: nat)"
  by auto


text \<open>C21: Reading a file sector by sector is the same as reading it at once: the valid bytes of the
  items of the sector iterator, in order, are the bytes the whole-file read stores.\<close>

theorem per_sector_equals_read:
  assumes "sector_device D I cap sec" "vol_ok cap bpb n" "dir_ok (sec s) bpb n cs" "I s"
    "fat_at (fat_sector bpb) (file_fat file) [] cs" "di_length (file_detail file) = Some len" "chain_fits bpb cs len" "len < 2 ^ 63"
  shows "\<exists>it t u bytes. read_per_sector file s = Inr (it, s) \<and> drain D bpb it s = Inr (bytes, t) \<and>
     File_read D bpb file (replicate len 0) s = Inr ((Inr len, bytes), u)"
proof -
  let ?it = "\<lparr>ri_buffer = replicate BUFFER_SIZE 0, ri_fat = file_fat file, ri_left_length = len, ri_read_count = 0,
     ri_need_count = get_needed_sector len\<rparr>"
  have it: "read_per_sector file s = Inr (?it, s)" using assms(6) by (simp add: read_per_sector_def kdefs)
  have "ri_at bpb cs len 0 ?it" using assms(2,5) by (auto simp: ri_at_def vol_ok_def)
  moreover have "len \<le> length cs * (sector_per_cluster_usize bpb * BUFFER_SIZE)" using assms(7) by (simp add: chain_fits_def)
  ultimately obtain t where t: "drain D bpb ?it s = Inr (take len (chain_bytes (sec s) bpb cs), t)"
    using wpD [OF sector_device.drain_spec [OF assms(1-4) _ _ assms(8)]] by blast
  obtain u where "File_read D bpb file (replicate len 0) s = Inr ((Inr len, take len (chain_bytes (sec s) bpb cs)), u)"
    using wpD [OF sector_device.File_read_spec [OF assms(1-7), of "replicate len 0"]] assms(8) by auto
  then show ?thesis using it t by blast
qed

theorem per_sector_equals_read_witness:
  "\<exists>it t u bytes. let file = \<lparr>file_dir_cluster = 2, file_detail = hello_item, file_fat = FAT_new 3 (bpb_fat1 sample_bpb)\<rparr>
     in read_per_sector file vd_boot = Inr (it, vd_boot) \<and> drain vd sample_bpb it vd_boot = Inr (bytes, t) \<and>
        File_read vd sample_bpb file (replicate 600 0) vd_boot = Inr ((Inr 600, bytes), u)"
proof -
  let ?file = "\<lparr>file_dir_cluster = 2, file_detail = hello_item, file_fat = FAT_new 3 (bpb_fat1 sample_bpb)\<rparr>"
  have d: "dir_ok (vd_sec vd_boot) sample_bpb 60 [3, 4]" by (simp add: vd_boot_ok(2) sample_dirs)
  have at: "fat_at (fat_sector sample_bpb) (file_fat ?file) [] [3, 4]"
    using fat_at_start [of "[3, 4]" "fat_sector sample_bpb"] bpb_fat1_sector [OF sample_vol(1)] by simp
  have len: "di_length (file_detail ?file) = Some 600" by (simp add: di_length_def hello_item_def)
  have fits: "chain_fits sample_bpb [3, 4] 600"
    by (simp add: chain_fits_def sample_bpb_def sector_per_cluster_usize_def BUFFER_SIZE_def)
  show ?thesis
    using per_sector_equals_read [OF vd_device sample_vol(1) d vd_boot_ok(1) at len fits] by (simp add: Let_def)
qed

text \<open>C22: The search for a free cluster ends and returns the first table entry that is zero, and
  reserving it changes that entry alone: every other entry, hence every chain of the volume, is kept.\<close>

theorem reserve_first_free:
  assumes "sector_device D I cap sec" "I s" "fat_ready f0 fat" "f0 + nf \<le> cap" "128 * nf \<le> 2 ^ 32"
    "c < 128 * nf" "fat_entry (sec s) f0 c = 0" "\<And>x. x < c \<Longrightarrow> fat_entry (sec s) f0 x \<noteq> 0"
  shows "\<exists>fat1 t fat2 u. FAT_blank_cluster D fat s = Inr ((of_nat c, fat1), t) \<and>
     FAT_write D (of_nat c) end_of_chain fat1 t = Inr (fat2, u) \<and>
     (\<forall>x<128 * nf. fat_entry (sec u) f0 x = (if x = c then end_of_chain else fat_entry (sec s) f0 x)) \<and>
     (\<forall>j<cap. j \<noteq> f0 + c div 128 \<longrightarrow> sec u j = sec s j)"
proof -
  obtain g t where t: "FAT_blank_cluster D fat s = Inr ((of_nat c, g), t)" "I t" "\<forall>j<cap. sec t j = sec s j" "rebuffered fat g"
    using wpD [OF sector_device.blank_cluster_spec [OF assms(1-7) assms(8)]] by auto
  have u: "unat (of_nat c :: u32) = c" using assms(5,6) by (intro unat_of_nat_small) simp
  have in_cap: "f0 + c div 128 < cap" using assms(4,6) less_mult_imp_div_less [of c nf 128] by (simp add: mult.commute)
  have g: "fat_ready f0 g" using t(4) assms(3) rebuffered_fields by auto
  obtain h v where h: "FAT_write D (of_nat c) end_of_chain g t = Inr (h, v)"
      "sec v (f0 + c div 128) = overwrite (4 * (c mod 128)) (to_le_bytes 4 end_of_chain) (sec t (f0 + c div 128))"
      "\<forall>j<cap. j \<noteq> f0 + c div 128 \<longrightarrow> sec v j = sec t j"
    using wpD [OF sector_device.FAT_write_spec [OF assms(1) t(2) g, of "of_nat c" end_of_chain]] in_cap u by auto
  have len: "length (sec s (f0 + c div 128)) = BUFFER_SIZE" using sector_device.sec_length [OF assms(1,2) in_cap] .
  have "fat_entry (sec v) f0 x = (if x = c then end_of_chain else fat_entry (sec s) f0 x)" if "x < 128 * nf" for x
    using len h(2,3) t(3) in_cap assms(4) less_mult_imp_div_less [of x nf 128] that
    by (intro fat_entry_update [where k = cap]) (auto simp: mult.commute)
  moreover have "\<forall>j<cap. j \<noteq> f0 + c div 128 \<longrightarrow> sec v j = sec s j" using h(3) t(3) by simp
  ultimately show ?thesis using t(1) h(1) by blast
qed

theorem reserve_first_free_witness:
  "\<exists>fat1 t fat2 u. FAT_blank_cluster vd (FAT_new 2 (sector_addr 1)) vd_boot = Inr ((5, fat1), t) \<and>
     FAT_write vd 5 end_of_chain fat1 t = Inr (fat2, u) \<and> fat_entry (vd_sec u) 1 5 = end_of_chain \<and> fat_entry (vd_sec u) 1 3 = 4"
proof -
  have r: "fat_ready 1 (FAT_new 2 (sector_addr 1))" by (simp add: FAT_new_def)
  have "fat_entry (vd_sec vd_boot) 1 5 = 0" using sample_entries(6) by (simp add: vd_boot_ok(2))
  moreover have "fat_entry (vd_sec vd_boot) 1 x \<noteq> 0" if "x < 5" for x
    using below_5 [of x] that sample_entries by (auto simp: vd_boot_ok(2))
  moreover have "(1 :: nat) + 1 \<le> 64" "128 * (1 :: nat) \<le> 2 ^ 32" "5 < 128 * (1 :: nat)" by simp_all
  ultimately obtain fat1 t fat2 u where u: "FAT_blank_cluster vd (FAT_new 2 (sector_addr 1)) vd_boot = Inr ((of_nat 5, fat1), t)"
      "FAT_write vd (of_nat 5) end_of_chain fat1 t = Inr (fat2, u)"
      "\<forall>x<128 * 1. fat_entry (vd_sec u) 1 x = (if x = 5 then end_of_chain else fat_entry (vd_sec vd_boot) 1 x)"
    using reserve_first_free [OF vd_device vd_boot_ok(1) r, of 1 5] by blast
  have "fat_entry (vd_sec u) 1 5 = end_of_chain" "fat_entry (vd_sec u) 1 3 = 4"
    using u(3) sample_entries(4) by (simp_all add: vd_boot_ok(2))
  then show ?thesis using u(1,2) by fastforce
qed

end
