(* ===== verification/Atomics.thy ===== *)
theory Atomics
  imports Prelude
begin

text \<open>
  The read-modify-write operations of \<^verbatim>\<open>core::sync::atomic\<close> that the \<^verbatim>\<open>spin\<close> crate uses, each as one
  indivisible step on the value of the cell, and the contract a mutex gives its clients.  Every lock of
  the crate keeps its state in one or two atomic cells; the model interleaves the threads at the level
  of single atomic operations.  The orderings (\<open>Acquire\<close>, \<open>Release\<close>, \<open>Relaxed\<close>) are not modelled: all
  threads see the operations on a cell in one order, which Rust promises for each single cell whatever
  the ordering, and the data behind a lock is only touched by the holder of the lock.
\<close>

section \<open>Atomic operations\<close>

text \<open>Each operation returns what the Rust method returns and the new value of the cell.\<close>

definition compare_exchange :: "'a \<Rightarrow> 'a \<Rightarrow> 'a \<Rightarrow> ('a + 'a) \<times> 'a" where
  "compare_exchange current new cell = (if cell = current then (Inr cell, new) else (Inl cell, cell))"

text \<open>The weak form may also fail although the cell holds the expected value.\<close>

definition compare_exchange_weak :: "bool \<Rightarrow> 'a \<Rightarrow> 'a \<Rightarrow> 'a \<Rightarrow> ('a + 'a) \<times> 'a" where
  "compare_exchange_weak spurious current new cell =
     (if spurious then (Inl cell, cell) else compare_exchange current new cell)"

definition fetch_add :: "usize \<Rightarrow> usize \<Rightarrow> usize \<times> usize" where
  "fetch_add n cell = (cell, cell + n)"

definition fetch_sub :: "usize \<Rightarrow> usize \<Rightarrow> usize \<times> usize" where
  "fetch_sub n cell = (cell, cell - n)"

definition fetch_or :: "usize \<Rightarrow> usize \<Rightarrow> usize \<times> usize" where
  "fetch_or n cell = (cell, cell OR n)"

definition fetch_and :: "usize \<Rightarrow> usize \<Rightarrow> usize \<times> usize" where
  "fetch_and n cell = (cell, cell AND n)"

named_theorems atomic_defs \<open>the atomic operations\<close>

lemmas [atomic_defs] = compare_exchange_def compare_exchange_weak_def fetch_add_def fetch_sub_def
  fetch_or_def fetch_and_def

section \<open>Lock words with flags\<close>

text \<open>A lock word that keeps a count above \<open>m\<close> flag bits.\<close>

definition flagged :: "nat \<Rightarrow> usize \<Rightarrow> usize \<Rightarrow> usize" where
  "flagged m x f = push_bit m x OR f"

lemma flag_bit: "take_bit m f = f \<Longrightarrow> m \<le> i \<Longrightarrow> \<not> bit (f :: usize) i"
  by (metis bit_take_bit_iff not_less)

lemma flagged_and: "take_bit m g = g \<Longrightarrow> flagged m x f AND g = f AND g"
  by (rule bit_eqI) (auto simp: flagged_def bit_simps dest: flag_bit not_less [THEN iffD1])

lemma flagged_or: "flagged m x f OR g = flagged m x (f OR g)"
  by (simp add: flagged_def or.assoc)

lemma flagged_and_not: "take_bit m g = g \<Longrightarrow> flagged m x f AND NOT g = flagged m x (f AND NOT g)"
  by (rule bit_eqI) (auto simp: flagged_def bit_simps dest: flag_bit)

lemma flagged_plus: "take_bit m f = f \<Longrightarrow> flagged m x f = push_bit m x + f"
  unfolding flagged_def
  by (rule disjunctive_add [symmetric]) (auto simp: bit_simps dest: flag_bit not_less [THEN iffD1])

lemma flagged_add: "take_bit m f = f \<Longrightarrow> flagged m x f + push_bit m y = flagged m (x + y) f"
  by (simp add: flagged_plus push_bit_add)

lemma flagged_sub: "take_bit m f = f \<Longrightarrow> flagged m x f - push_bit m y = flagged m (x - y) f"
  by (simp add: flagged_plus push_bit_eq_mult algebra_simps)

lemma unat_flagged:
  assumes "take_bit m f = f" "m \<le> 64" "unat x < 2 ^ (64 - m)"
  shows "unat (flagged m x f) = unat x * 2 ^ m + unat f"
proof -
  have f: "unat f < 2 ^ m" using assms(1) by (metis take_bit_nat_less_exp unsigned_take_bit_eq)
  have "(unat x + 1) * 2 ^ m \<le> 2 ^ (64 - m) * (2 ^ m :: nat)" using assms(3) by (intro mult_right_mono) simp_all
  also have "\<dots> = 2 ^ 64" using assms(2) by (simp flip: power_add)
  finally have le: "unat x * 2 ^ m + 2 ^ m \<le> 2 ^ 64" by simp
  have "0 < (2 :: nat) ^ m" by simp
  with le have "unat x * 2 ^ m < 2 ^ 64" by linarith
  then have p: "unat (push_bit m x) = unat x * 2 ^ m" by (intro unat_push_bit_small) simp
  show ?thesis unfolding flagged_plus [OF assms(1)]
    by (subst unat_add_small) (use p f le in simp_all)
qed

text \<open>A lock shared by threads that are numbered; each thread has its own control state.\<close>

record ('m, 'p) threads =
  shared :: 'm
  pc :: "nat \<Rightarrow> 'p"

definition goto :: "nat \<Rightarrow> 'm \<times> 'p \<Rightarrow> ('m, 'p) threads \<Rightarrow> ('m, 'p) threads" where
  "goto t r c = c\<lparr>shared := fst r, pc := (pc c)(t := snd r)\<rparr>"

lemma goto_simps [simp]:
  "shared (goto t r c) = fst r"
  "pc (goto t r c) u = (if u = t then snd r else pc c u)"
  by (simp_all add: goto_def)

section \<open>What a mutex promises\<close>

text \<open>
  The operations of a mutex are given by a step relation labelled with the acting thread, a predicate
  that tells which thread has the guard, and the protected value.  The laws: an invariant that every
  step keeps, at most one holder, only the holder changes the value, and no thread takes the guard away
  from another.
\<close>

locale mutex_protocol =
  fixes step :: "nat \<Rightarrow> 'c \<Rightarrow> 'c \<Rightarrow> bool"
    and start :: "'c \<Rightarrow> bool"
    and I :: "'c \<Rightarrow> bool"
    and holds :: "'c \<Rightarrow> nat \<Rightarrow> bool"
    and val :: "'c \<Rightarrow> 'd"
  assumes start_ok: "start c \<Longrightarrow> I c"
    and step_ok: "I c \<Longrightarrow> step t c d \<Longrightarrow> I d"
    and exclusive: "I c \<Longrightarrow> holds c t \<Longrightarrow> holds c u \<Longrightarrow> t = u"
    and guarded: "I c \<Longrightarrow> step t c d \<Longrightarrow> val d \<noteq> val c \<Longrightarrow> holds c t"
    and kept: "I c \<Longrightarrow> step t c d \<Longrightarrow> u \<noteq> t \<Longrightarrow> holds d u = holds c u"
begin

lemma steps_ok: "(\<lambda>c d. \<exists>t. P t \<and> step t c d)\<^sup>*\<^sup>* c d \<Longrightarrow> I c \<Longrightarrow> I d"
  by (induction rule: rtranclp_induct) (auto intro: step_ok)

lemma steps_exclusive:
  "start c \<Longrightarrow> (\<lambda>c d. \<exists>t. P t \<and> step t c d)\<^sup>*\<^sup>* c d \<Longrightarrow> holds d t \<Longrightarrow> holds d u \<Longrightarrow> t = u"
  using steps_ok [of P c d] start_ok exclusive by blast

text \<open>Whatever the other threads do in the meantime, the holder keeps the guard and the value.\<close>

lemma others_kept:
  "(\<lambda>c d. \<exists>u. u \<noteq> t \<and> step u c d)\<^sup>*\<^sup>* c d \<Longrightarrow> I c \<Longrightarrow> holds c t \<Longrightarrow> I d \<and> holds d t \<and> val d = val c"
proof (induction rule: rtranclp_induct)
  case (step y z)
  then obtain u where u: "u \<noteq> t" "step u y z" "I y" "holds y t" "val y = val c" by auto
  have "\<not> holds y u" using exclusive [OF u(3,4)] u(1) by blast
  with u show ?case using step_ok [OF u(3,2)] guarded [OF u(3,2)] kept [OF u(3,2)] by metis
qed simp

end

end
