(* ===== verification/Spin_Mutex.thy ===== *)
theory Spin_Mutex
  imports Atomics
begin

text \<open>
  \<^verbatim>\<open>spin/src/mutex/spin.rs\<close>, the mutex behind every \<^verbatim>\<open>spin::Mutex\<close> and \<^verbatim>\<open>SpinMutex\<close> of the kernel
  (\<^verbatim>\<open>spin/src/mutex.rs\<close> only forwards to it).  The operations act on the one atomic flag; \<open>lock\<close> is a loop,
  so its control state is explicit.  The copy of the crate in this repository gives up with a panic
  after \<open>100000000\<close> looks at a taken lock.
\<close>

section \<open>The operations\<close>

record 'a SpinMutex =
  sm_lock :: bool
  sm_data :: 'a

definition SpinMutex_new :: "'a \<Rightarrow> 'a SpinMutex" where
  "SpinMutex_new d = \<lparr>sm_lock = False, sm_data = d\<rparr>"

definition SpinMutex_into_inner :: "'a SpinMutex \<Rightarrow> 'a" where
  "SpinMutex_into_inner m = sm_data m"

definition SpinMutex_is_locked :: "'a SpinMutex \<Rightarrow> bool" where
  "SpinMutex_is_locked m = sm_lock m"

definition SpinMutex_force_unlock :: "'a SpinMutex \<Rightarrow> 'a SpinMutex" where
  "SpinMutex_force_unlock m = m\<lparr>sm_lock := False\<rparr>"

definition SpinMutex_try_lock :: "'a SpinMutex \<Rightarrow> bool \<times> 'a SpinMutex" where
  "SpinMutex_try_lock m =
     (case compare_exchange False True (sm_lock m) of
        (Inr _, l) \<Rightarrow> (True, m\<lparr>sm_lock := l\<rparr>)
      | (Inl _, l) \<Rightarrow> (False, m\<lparr>sm_lock := l\<rparr>))"

definition SpinMutexGuard_drop :: "'a SpinMutex \<Rightarrow> 'a SpinMutex" where
  "SpinMutexGuard_drop m = m\<lparr>sm_lock := False\<rparr>"

definition SpinMutexGuard_deref_mut :: "('a \<Rightarrow> 'a) \<Rightarrow> 'a SpinMutex \<Rightarrow> 'a SpinMutex" where
  "SpinMutexGuard_deref_mut f m = m\<lparr>sm_data := f (sm_data m)\<rparr>"

definition dead_lock_spins :: usize where
  "dead_lock_spins = 100000000"

text \<open>Where a thread is: outside, before the exchange, in the inner loop, with the guard, or stopped by
  the panic; the number is the local variable \<open>count\<close>.\<close>

datatype spin_pc = SpinIdle | SpinTry usize | SpinWait usize | SpinHeld | SpinPanic

fun SpinMutex_lock_step :: "bool \<Rightarrow> 'a SpinMutex \<Rightarrow> spin_pc \<Rightarrow> 'a SpinMutex \<times> spin_pc" where
  "SpinMutex_lock_step spurious m (SpinTry c) =
     (case compare_exchange_weak spurious False True (sm_lock m) of
        (Inr _, l) \<Rightarrow> (m\<lparr>sm_lock := l\<rparr>, SpinHeld)
      | (Inl _, l) \<Rightarrow> (m\<lparr>sm_lock := l\<rparr>, SpinWait c))"
| "SpinMutex_lock_step spurious m (SpinWait c) =
     (if SpinMutex_is_locked m
      then (m, if c + 1 = dead_lock_spins then SpinPanic else SpinWait (c + 1))
      else (m, SpinTry c))"
| "SpinMutex_lock_step spurious m p = (m, p)"

text \<open>The same loop run by the only thread of a hart, nothing else interfering.\<close>

definition SpinMutex_lock_body :: "spin_pc \<Rightarrow> ('a SpinMutex, spin_pc + unit) kernel" where
  "SpinMutex_lock_body p =
     kbind (kget (\<lambda>m. SpinMutex_lock_step False m p)) (\<lambda>(m, p).
     kthen (kmodify (\<lambda>_. m))
       (case p of
          SpinHeld \<Rightarrow> kret (Inr ())
        | SpinPanic \<Rightarrow> kpanic (Explicit ''dead lock'')
        | _ \<Rightarrow> kret (Inl p)))"

definition SpinMutex_lock :: "('a SpinMutex, unit) kernel" where
  "SpinMutex_lock = kloop SpinMutex_lock_body (SpinTry 0)"

section \<open>The threads\<close>

type_synonym 'a spin_threads = "('a SpinMutex, spin_pc) threads"

inductive spin_step :: "nat \<Rightarrow> 'a spin_threads \<Rightarrow> 'a spin_threads \<Rightarrow> bool" where
  call: "pc c t = SpinIdle \<Longrightarrow> spin_step t c (goto t (shared c, SpinTry 0) c)"
| spin: "pc c t \<in> {SpinTry n, SpinWait n} \<Longrightarrow>
     spin_step t c (goto t (SpinMutex_lock_step spurious (shared c) (pc c t)) c)"
| attempt: "pc c t = SpinIdle \<Longrightarrow> SpinMutex_try_lock (shared c) = (ok, m) \<Longrightarrow>
     spin_step t c (goto t (m, if ok then SpinHeld else SpinIdle) c)"
| access: "pc c t = SpinHeld \<Longrightarrow> spin_step t c (goto t (SpinMutexGuard_deref_mut f (shared c), SpinHeld) c)"
| release: "pc c t = SpinHeld \<Longrightarrow> spin_step t c (goto t (SpinMutexGuard_drop (shared c), SpinIdle) c)"

inductive_cases spin_stepE: "spin_step t c d"

definition spin_start :: "'a spin_threads \<Rightarrow> bool" where
  "spin_start c \<longleftrightarrow> (\<exists>d. shared c = SpinMutex_new d) \<and> (\<forall>t. pc c t = SpinIdle)"

definition spin_holds :: "'a spin_threads \<Rightarrow> nat \<Rightarrow> bool" where
  "spin_holds c t \<longleftrightarrow> pc c t = SpinHeld"

definition spin_inv :: "'a spin_threads \<Rightarrow> bool" where
  "spin_inv c \<longleftrightarrow> (\<forall>t u. spin_holds c t \<and> spin_holds c u \<longrightarrow> t = u) \<and> (sm_lock (shared c) \<longleftrightarrow> (\<exists>t. spin_holds c t))"

lemmas spin_defs = SpinMutex_new_def SpinMutex_is_locked_def SpinMutex_try_lock_def SpinMutexGuard_drop_def
  SpinMutexGuard_deref_mut_def spin_holds_def spin_inv_def spin_start_def atomic_defs

lemma spin_step_inv: "spin_inv c \<Longrightarrow> spin_step t c d \<Longrightarrow> spin_inv d"
  by (erule spin_stepE) (auto simp: spin_defs split: if_splits; metis spin_pc.distinct)+

interpretation spin: mutex_protocol spin_step spin_start spin_inv spin_holds "\<lambda>c. sm_data (shared c)"
proof (unfold_locales, goal_cases)
  case (1 c)
  then show ?case by (auto simp: spin_defs)
next
  case (2 c t d)
  then show ?case by (rule spin_step_inv)
next
  case (3 c t u)
  then show ?case by (simp add: spin_inv_def)
next
  case (4 c t d)
  then show ?case by (auto elim!: spin_stepE simp: spin_defs split: if_splits)
next
  case (5 c t d u)
  then show ?case by (auto elim!: spin_stepE simp: spin_defs)
qed

section \<open>One hart\<close>

lemma SpinMutex_lock_free: "\<not> sm_lock m \<Longrightarrow> SpinMutex_lock m = Inr ((), m\<lparr>sm_lock := True\<rparr>)"
  unfolding SpinMutex_lock_def
  by (subst kloop_unfold) (simp add: SpinMutex_lock_body_def kdefs atomic_defs)

lemma dead_lock_count:
  assumes "c < dead_lock_spins" "c + 1 \<noteq> dead_lock_spins"
  shows "c + 1 < dead_lock_spins \<and> unat (dead_lock_spins - (c + 1)) < unat (dead_lock_spins - c)"
proof -
  have D: "unat dead_lock_spins = 100000000" by (simp add: dead_lock_spins_def)
  have c: "unat c < 100000000" using assms(1) by (simp add: word_less_nat_alt D)
  have c1: "unat (c + 1) = unat c + 1" by (subst unat_add_small) (use c in simp_all)
  have "unat c + 1 \<noteq> 100000000" using assms(2) c1 D by (metis unat_eqI)
  with c have lt: "unat (c + 1) < 100000000" unfolding c1 by linarith
  have "unat (dead_lock_spins - (c + 1)) = 100000000 - unat (c + 1)" "unat (dead_lock_spins - c) = 100000000 - unat c"
    using lt c by (simp_all add: unat_sub_small word_le_nat_alt D)
  with lt c show ?thesis by (simp add: word_less_nat_alt D c1)
qed

lemma SpinMutex_lock_taken: "sm_lock m \<Longrightarrow> SpinMutex_lock m = Inl (Explicit ''dead lock'')"
proof -
  assume l: "sm_lock m"
  have "wpe SpinMutex_lock (\<lambda>_ _. False) (\<lambda>e. e = Explicit ''dead lock'') m"
    unfolding SpinMutex_lock_def
  proof (rule wpe_kloop_measure [where
        I = "\<lambda>p m. sm_lock m \<and> (case p of SpinTry c \<Rightarrow> c = 0 | SpinWait c \<Rightarrow> c < dead_lock_spins | _ \<Rightarrow> False)"
        and m = "\<lambda>p _. case p of SpinWait c \<Rightarrow> unat (dead_lock_spins - c) | _ \<Rightarrow> 100000001"], goal_cases)
    case 1
    show ?case using l by simp
  next
    case (2 p s)
    show ?case
    proof (cases p)
      case (SpinWait c)
      have c: "c < dead_lock_spins" using 2 SpinWait by simp
      have "c + 1 < dead_lock_spins \<and> unat (dead_lock_spins - (c + 1)) < unat (dead_lock_spins - c)"
        if "c + 1 \<noteq> dead_lock_spins"
        by (rule dead_lock_count [OF c that])
      then show ?thesis
        using 2 SpinWait by (simp add: SpinMutex_lock_body_def SpinMutex_is_locked_def)
    qed (use 2 in \<open>simp_all add: SpinMutex_lock_body_def atomic_defs dead_lock_spins_def\<close>)
  qed
  then show ?thesis by (auto simp: wpe_def split: sum.splits)
qed

section \<open>Properties\<close>

text \<open>C18: In every configuration that any number of threads reach from an unlocked SpinMutex by calling lock
  and try_lock, working on the data and dropping their guards, at most one thread has a guard, the flag
  is set exactly while one has, and whatever the others do meanwhile, the data of the holder stays as it
  left it.\<close>

theorem spin_mutual_exclusion:
  assumes "spin_start c" "(\<lambda>c d. \<exists>t. spin_step t c d)\<^sup>*\<^sup>* c d"
  shows "(\<forall>t u. spin_holds d t \<and> spin_holds d u \<longrightarrow> t = u) \<and>
    (SpinMutex_is_locked (shared d) \<longleftrightarrow> (\<exists>t. spin_holds d t)) \<and>
    (\<forall>t e. spin_holds d t \<and> (\<lambda>c d. \<exists>u. u \<noteq> t \<and> spin_step u c d)\<^sup>*\<^sup>* d e \<longrightarrow>
       spin_holds e t \<and> sm_data (shared e) = sm_data (shared d))"
proof -
  have I: "spin_inv d" using spin.steps_ok [of "\<lambda>_. True" c d] spin.start_ok [OF assms(1)] assms(2) by simp
  have "spin_holds e t \<and> sm_data (shared e) = sm_data (shared d)"
    if "spin_holds d t" "(\<lambda>c d. \<exists>u. u \<noteq> t \<and> spin_step u c d)\<^sup>*\<^sup>* d e" for t e
    using spin.others_kept [OF that(2) I that(1)] by simp
  with I show ?thesis unfolding spin_inv_def SpinMutex_is_locked_def by blast
qed

definition spin_idle :: "nat spin_threads" where
  "spin_idle = \<lparr>shared = SpinMutex_new 7, pc = (\<lambda>_. SpinIdle)\<rparr>"

theorem spin_mutual_exclusion_witness:
  "{t. spin_holds (goto 3 (snd (SpinMutex_try_lock (shared spin_idle)), SpinHeld) spin_idle) t} = {3}"
proof -
  let ?d = "goto 3 (snd (SpinMutex_try_lock (shared spin_idle)), SpinHeld) spin_idle"
  have s: "spin_start spin_idle" by (auto simp: spin_start_def spin_idle_def)
  have "spin_step 3 spin_idle ?d"
    using spin_step.attempt [of spin_idle 3 True "snd (SpinMutex_try_lock (shared spin_idle))"]
    by (simp add: spin_idle_def SpinMutex_try_lock_def SpinMutex_new_def atomic_defs)
  then have r: "(\<lambda>c d. \<exists>t. spin_step t c d)\<^sup>*\<^sup>* spin_idle ?d" by blast
  have "spin_holds ?d 3" by (simp add: spin_holds_def)
  then show ?thesis using spin_mutual_exclusion [OF s r] by blast
qed


end
