(* ===== verification/Ticket_Mutex.thy ===== *)
theory Ticket_Mutex
  imports Atomics
begin

text \<open>
  \<^verbatim>\<open>spin/src/mutex/ticket.rs\<close>: the mutex that serves its callers in the order they arrive.  The tickets are
  64-bit counters that wrap, so the model keeps them as words; the abstract state is the queue of the
  threads that have drawn a ticket, the head being the one that is served.
\<close>

section \<open>The operations\<close>

record 'a TicketMutex =
  next_ticket :: usize
  next_serving :: usize
  tm_data :: 'a

definition TicketMutex_new :: "'a \<Rightarrow> 'a TicketMutex" where
  "TicketMutex_new d = \<lparr>next_ticket = 0, next_serving = 0, tm_data = d\<rparr>"

definition TicketMutex_into_inner :: "'a TicketMutex \<Rightarrow> 'a" where
  "TicketMutex_into_inner m = tm_data m"

definition TicketMutex_is_locked :: "'a TicketMutex \<Rightarrow> bool" where
  "TicketMutex_is_locked m \<longleftrightarrow> next_serving m \<noteq> next_ticket m"

definition TicketMutex_force_unlock :: "'a TicketMutex \<Rightarrow> 'a TicketMutex" where
  "TicketMutex_force_unlock m = m\<lparr>next_serving := snd (fetch_add 1 (next_serving m))\<rparr>"

text \<open>Where a thread is; the numbers are its ticket in \<open>lock\<close> and the value \<open>fetch_update\<close> of \<open>try_lock\<close>
  works with.\<close>

datatype ticket_pc = TicketIdle | TicketSpin usize | TicketHeld usize | TicketTry usize | TicketCas usize

text \<open>\<open>lock\<close> draws a ticket and then waits for its turn.\<close>

definition TicketMutex_draw :: "'a TicketMutex \<Rightarrow> 'a TicketMutex \<times> ticket_pc" where
  "TicketMutex_draw m = (case fetch_add 1 (next_ticket m) of (ticket, n) \<Rightarrow> (m\<lparr>next_ticket := n\<rparr>, TicketSpin ticket))"

definition TicketMutex_spin :: "usize \<Rightarrow> 'a TicketMutex \<Rightarrow> 'a TicketMutex \<times> ticket_pc" where
  "TicketMutex_spin ticket m = (m, if next_serving m \<noteq> ticket then TicketSpin ticket else TicketHeld ticket)"

text \<open>\<open>try_lock\<close> is \<open>fetch_update\<close> on the ticket counter: it reads the counter, looks whether that ticket is
  served, and takes it by a weak exchange, starting again with the new value when the exchange fails.\<close>

definition TicketMutex_try_load :: "'a TicketMutex \<Rightarrow> 'a TicketMutex \<times> ticket_pc" where
  "TicketMutex_try_load m = (m, TicketTry (next_ticket m))"

definition TicketMutex_try_check :: "usize \<Rightarrow> 'a TicketMutex \<Rightarrow> 'a TicketMutex \<times> ticket_pc" where
  "TicketMutex_try_check ticket m = (m, if next_serving m = ticket then TicketCas ticket else TicketIdle)"

definition TicketMutex_try_cas :: "bool \<Rightarrow> usize \<Rightarrow> 'a TicketMutex \<Rightarrow> 'a TicketMutex \<times> ticket_pc" where
  "TicketMutex_try_cas spurious ticket m =
     (case compare_exchange_weak spurious ticket (ticket + 1) (next_ticket m) of
        (Inr _, n) \<Rightarrow> (m\<lparr>next_ticket := n\<rparr>, TicketHeld ticket)
      | (Inl seen, n) \<Rightarrow> (m\<lparr>next_ticket := n\<rparr>, TicketTry seen))"

definition TicketMutexGuard_deref_mut :: "('a \<Rightarrow> 'a) \<Rightarrow> 'a TicketMutex \<Rightarrow> 'a TicketMutex" where
  "TicketMutexGuard_deref_mut f m = m\<lparr>tm_data := f (tm_data m)\<rparr>"

definition TicketMutexGuard_drop :: "usize \<Rightarrow> 'a TicketMutex \<Rightarrow> 'a TicketMutex" where
  "TicketMutexGuard_drop ticket m = (let new_ticket = ticket + 1 in m\<lparr>next_serving := new_ticket\<rparr>)"

section \<open>The threads\<close>

type_synonym 'a ticket_threads = "('a TicketMutex, ticket_pc) threads"

inductive ticket_step :: "nat \<Rightarrow> 'a ticket_threads \<Rightarrow> 'a ticket_threads \<Rightarrow> bool" where
  rest: "pc c t = TicketIdle \<Longrightarrow> ticket_step t c c"
| draw: "pc c t = TicketIdle \<Longrightarrow> ticket_step t c (goto t (TicketMutex_draw (shared c)) c)"
| spin: "pc c t = TicketSpin k \<Longrightarrow> ticket_step t c (goto t (TicketMutex_spin k (shared c)) c)"
| access: "pc c t = TicketHeld k \<Longrightarrow>
     ticket_step t c (goto t (TicketMutexGuard_deref_mut f (shared c), TicketHeld k) c)"
| release: "pc c t = TicketHeld k \<Longrightarrow> ticket_step t c (goto t (TicketMutexGuard_drop k (shared c), TicketIdle) c)"
| try_load: "pc c t = TicketIdle \<Longrightarrow> ticket_step t c (goto t (TicketMutex_try_load (shared c)) c)"
| try_check: "pc c t = TicketTry k \<Longrightarrow> ticket_step t c (goto t (TicketMutex_try_check k (shared c)) c)"
| try_cas: "pc c t = TicketCas k \<Longrightarrow> ticket_step t c (goto t (TicketMutex_try_cas spurious k (shared c)) c)"

inductive_cases ticket_stepE: "ticket_step t c d"

definition ticket_start :: "'a ticket_threads \<Rightarrow> bool" where
  "ticket_start c \<longleftrightarrow> (\<exists>d. shared c = TicketMutex_new d) \<and> (\<forall>t. pc c t = TicketIdle)"

definition ticket_holds :: "'a ticket_threads \<Rightarrow> nat \<Rightarrow> bool" where
  "ticket_holds c t \<longleftrightarrow> (\<exists>k. pc c t = TicketHeld k)"

section \<open>The queue\<close>

fun ticket_of :: "ticket_pc \<Rightarrow> usize option" where
  "ticket_of (TicketSpin k) = Some k"
| "ticket_of (TicketHeld k) = Some k"
| "ticket_of _ = None"

text \<open>The threads with a ticket, in the order of their tickets; only the first can have the guard.\<close>

definition ticket_queue :: "nat list \<Rightarrow> 'a ticket_threads \<Rightarrow> bool" where
  "ticket_queue q c \<longleftrightarrow> distinct q \<and> next_ticket (shared c) = next_serving (shared c) + of_nat (length q) \<and>
     (\<forall>i<length q. ticket_of (pc c (q ! i)) = Some (next_serving (shared c) + of_nat i)) \<and>
     (\<forall>t. t \<notin> set q \<longrightarrow> ticket_of (pc c t) = None) \<and>
     (\<forall>t. ticket_holds c t \<longrightarrow> q \<noteq> [] \<and> hd q = t)"

lemmas ticket_ops = TicketMutex_draw_def TicketMutex_spin_def TicketMutexGuard_deref_mut_def TicketMutexGuard_drop_def
  TicketMutex_try_load_def TicketMutex_try_check_def TicketMutex_try_cas_def atomic_defs Let_def

lemma ticket_queue_start: "ticket_start c \<Longrightarrow> ticket_queue [] c"
  by (auto simp: ticket_start_def ticket_queue_def TicketMutex_new_def ticket_holds_def)

lemma of_nat_ticket_eq:
  assumes "i < 2 ^ 64" "j < 2 ^ 64"
  shows "s + of_nat i = s + (of_nat j :: usize) \<longleftrightarrow> i = j"
proof -
  have "unat (of_nat i :: usize) = i" "unat (of_nat j :: usize) = j" using assms by (simp_all add: unat_of_nat)
  then show ?thesis by (metis add_left_cancel)
qed

lemma ticket_queueI:
  assumes "distinct q" "next_ticket (shared c) = next_serving (shared c) + of_nat (length q)"
    "\<And>i. i < length q \<Longrightarrow> ticket_of (pc c (q ! i)) = Some (next_serving (shared c) + of_nat i)"
    "\<And>t. t \<notin> set q \<Longrightarrow> ticket_of (pc c t) = None" "\<And>t. ticket_holds c t \<Longrightarrow> q \<noteq> [] \<and> hd q = t"
  shows "ticket_queue q c"
  using assms by (simp add: ticket_queue_def)

lemma ticket_queueD:
  assumes "ticket_queue q c"
  shows "distinct q" "next_ticket (shared c) = next_serving (shared c) + of_nat (length q)"
    "\<And>i. i < length q \<Longrightarrow> ticket_of (pc c (q ! i)) = Some (next_serving (shared c) + of_nat i)"
    "\<And>t. t \<notin> set q \<Longrightarrow> ticket_of (pc c t) = None" "\<And>t. ticket_holds c t \<Longrightarrow> q \<noteq> [] \<and> hd q = t"
  using assms by (simp_all add: ticket_queue_def)

text \<open>The ticket tells the place in the queue.\<close>

lemma ticket_place:
  assumes "ticket_queue q c" "length q < 2 ^ 64" "ticket_of (pc c t) = Some k"
  obtains i where "i < length q" "q ! i = t" "k = next_serving (shared c) + of_nat i"
proof -
  have "t \<in> set q" using assms(1,3) by (auto simp: ticket_queue_def)
  then obtain i where i: "i < length q" "q ! i = t" by (auto simp: in_set_conv_nth)
  with ticket_queueD(3) [OF assms(1), of i] assms(3) show thesis using that by simp
qed

lemma ticket_served:
  assumes "ticket_queue q c" "length q < 2 ^ 64" "ticket_of (pc c t) = Some (next_serving (shared c))"
  shows "q \<noteq> [] \<and> hd q = t"
proof -
  obtain i where i: "i < length q" "q ! i = t" "next_serving (shared c) = next_serving (shared c) + of_nat i"
    by (rule ticket_place [OF assms])
  then have "i = 0" using of_nat_ticket_eq [of i 0 "next_serving (shared c)"] assms(2) by simp
  with i show ?thesis by (cases q) auto
qed

text \<open>Each step is a step of the abstract first-in first-out lock: a thread joins at the end, the head leaves,
  or the queue stays.\<close>

lemma ticket_queue_out:
  assumes "ticket_queue q c" "ticket_of (pc c t) = None"
  shows "t \<notin> set q" "i < length q \<Longrightarrow> q ! i \<noteq> t"
  using assms ticket_queueD(3) [OF assms(1)] by (auto simp: in_set_conv_nth)

lemma ticket_queue_join:
  assumes q: "ticket_queue q c" and t: "ticket_of (pc c t) = None"
    and d: "shared d = (shared c)\<lparr>next_ticket := next_ticket (shared c) + 1\<rparr>" "pc d = (pc c)(t := p)"
      "ticket_of p = Some (next_ticket (shared c))" "\<And>k. p = TicketHeld k \<Longrightarrow> q = []"
  shows "ticket_queue (q @ [t]) d"
proof (rule ticket_queueI, goal_cases)
  case 1
  show ?case using ticket_queueD(1) [OF q] ticket_queue_out(1) [OF q t] by simp
next
  case 2
  show ?case using ticket_queueD(2) [OF q] by (simp add: d)
next
  case (3 i)
  then show ?case
    using ticket_queueD(2,3) [OF q] ticket_queue_out(2) [OF q t] by (auto simp: d nth_append less_Suc_eq)
next
  case (4 u)
  then show ?case using ticket_queueD(4) [OF q] by (simp add: d)
next
  case (5 u)
  show ?case
  proof (cases "u = t")
    case True
    then show ?thesis using 5 d(4) by (auto simp: d(2) ticket_holds_def)
  next
    case False
    then have "ticket_holds c u" using 5 by (auto simp: d(2) ticket_holds_def)
    then show ?thesis using ticket_queueD(5) [OF q, of u] by simp
  qed
qed

lemma ticket_queue_leave:
  assumes q: "ticket_queue q c" and t: "pc c t = TicketHeld k"
  shows "q \<noteq> [] \<and> hd q = t \<and> k = next_serving (shared c) \<and> ticket_queue (tl q) (goto t (TicketMutexGuard_drop k (shared c), TicketIdle) c)"
proof -
  have hd: "q \<noteq> []" "hd q = t" using ticket_queueD(5) [OF q, of t] t by (auto simp: ticket_holds_def)
  then obtain r where r: "q = t # r" by (cases q) auto
  have k: "k = next_serving (shared c)" using ticket_queueD(3) [OF q, of 0] t r by simp
  have "ticket_queue r (goto t (TicketMutexGuard_drop k (shared c), TicketIdle) c)"
  proof (rule ticket_queueI, goal_cases)
    case 1
    show ?case using ticket_queueD(1) [OF q] r by simp
  next
    case 2
    show ?case using ticket_queueD(2) [OF q] r by (simp add: ticket_ops k)
  next
    case (3 i)
    have "r ! i \<noteq> t" using ticket_queueD(1) [OF q] r 3 by (metis distinct.simps(2) nth_mem)
    then show ?case using ticket_queueD(3) [OF q, of "Suc i"] r 3 by (simp add: ticket_ops k ac_simps)
  next
    case (4 u)
    then show ?case using ticket_queueD(4) [OF q, of u] r by simp
  next
    case (5 u)
    then have "ticket_holds c u \<and> u \<noteq> t" by (auto simp: ticket_holds_def split: if_splits)
    then show ?case using ticket_queueD(5) [OF q, of u] r by simp
  qed
  with hd r k show ?thesis by simp
qed

lemma ticket_queue_same:
  assumes q: "ticket_queue q c" and d: "next_ticket (shared d) = next_ticket (shared c)" "next_serving (shared d) = next_serving (shared c)"
    and p: "pc d = (pc c)(t := p)" "ticket_of p = ticket_of (pc c t)" "\<And>k. p = TicketHeld k \<Longrightarrow> q \<noteq> [] \<and> hd q = t"
  shows "ticket_queue q d"
proof -
  have pcs: "ticket_of (pc d u) = ticket_of (pc c u)" for u by (simp add: p(1,2))
  show ?thesis
  proof (rule ticket_queueI, goal_cases)
    case (5 u)
    then show ?case
      using ticket_queueD(5) [OF q, of u] p(3) by (cases "u = t") (auto simp: p(1) ticket_holds_def)
  qed (simp_all add: pcs d ticket_queueD [OF q])
qed

definition counters :: "'a ticket_threads \<Rightarrow> usize \<times> usize" where
  "counters c = (next_ticket (shared c), next_serving (shared c))"

definition queue_moves :: "nat \<Rightarrow> 'a ticket_threads \<Rightarrow> 'a ticket_threads \<Rightarrow> nat list \<Rightarrow> nat list \<Rightarrow> bool" where
  "queue_moves t c d q q' \<longleftrightarrow>
     q' = q \<and> counters d = counters c \<or>
     ticket_of (pc c t) = None \<and> q' = q @ [t] \<and> counters d = (next_ticket (shared c) + 1, next_serving (shared c)) \<or>
     ticket_holds c t \<and> q \<noteq> [] \<and> hd q = t \<and> q' = tl q \<and>
       counters d = (next_ticket (shared c), next_serving (shared c) + 1)"

lemma ticket_step_queue:
  assumes q: "ticket_queue q c" and step: "ticket_step t c d" and len: "length q < 2 ^ 64"
    and cas: "\<forall>k. pc c t = TicketCas k \<and> next_ticket (shared c) = k \<longrightarrow> q = []"
  shows "\<exists>q'. ticket_queue q' d \<and> queue_moves t c d q q'"
  using step
proof cases
  case rest
  then show ?thesis using q by (auto simp: queue_moves_def)
next
  case draw
  then have "ticket_queue (q @ [t]) d"
    by (intro ticket_queue_join [OF q, where p = "TicketSpin (next_ticket (shared c))"]) (auto simp: ticket_ops goto_def)
  then show ?thesis using draw by (intro exI [of _ "q @ [t]"]) (simp add: queue_moves_def counters_def ticket_ops)
next
  case (spin k)
  have "ticket_queue q d"
  proof (rule ticket_queue_same [OF q])
    show "pc d = (pc c)(t := snd (TicketMutex_spin k (shared c)))" by (auto simp: spin goto_def)
  qed (use spin ticket_served [OF q len, of t] in \<open>auto simp: ticket_ops split: if_splits\<close>)
  moreover have "queue_moves t c d q q" by (simp add: queue_moves_def counters_def spin ticket_ops)
  ultimately show ?thesis by blast
next
  case (access k f)
  have "ticket_queue q d"
  proof (rule ticket_queue_same [OF q])
    show "pc d = (pc c)(t := TicketHeld k)" by (auto simp: access goto_def)
  qed (use access ticket_queueD(5) [OF q, of t] in \<open>auto simp: ticket_ops ticket_holds_def\<close>)
  moreover have "queue_moves t c d q q" by (simp add: queue_moves_def counters_def access ticket_ops)
  ultimately show ?thesis by blast
next
  case (release k)
  have "queue_moves t c d q (tl q)"
    using ticket_queue_leave [OF q release(2)] release by (auto simp: queue_moves_def counters_def ticket_ops ticket_holds_def)
  with ticket_queue_leave [OF q release(2)] show ?thesis unfolding release(1) by blast
next
  case try_load
  have "ticket_queue q d"
  proof (rule ticket_queue_same [OF q])
    show "pc d = (pc c)(t := TicketTry (next_ticket (shared c)))" by (auto simp: try_load goto_def ticket_ops)
  qed (use try_load in \<open>auto simp: ticket_ops\<close>)
  moreover have "queue_moves t c d q q" by (simp add: queue_moves_def counters_def try_load ticket_ops)
  ultimately show ?thesis by blast
next
  case (try_check k)
  have "ticket_queue q d"
  proof (rule ticket_queue_same [OF q])
    show "pc d = (pc c)(t := snd (TicketMutex_try_check k (shared c)))" by (auto simp: try_check goto_def)
  qed (use try_check in \<open>auto simp: ticket_ops split: if_splits\<close>)
  moreover have "queue_moves t c d q q" by (simp add: queue_moves_def counters_def try_check ticket_ops)
  ultimately show ?thesis by blast
next
  case (try_cas k spurious)
  show ?thesis
  proof (cases "\<not> spurious \<and> next_ticket (shared c) = k")
    case True
    then have "ticket_queue (q @ [t]) d"
      using cas try_cas(2) ticket_queueD(2) [OF q]
      by (intro ticket_queue_join [OF q, where p = "TicketHeld k"]) (auto simp: try_cas ticket_ops goto_def)
    then show ?thesis
      using try_cas True by (intro exI [of _ "q @ [t]"]) (simp add: queue_moves_def counters_def ticket_ops)
  next
    case False
    have "ticket_queue q d"
    proof (rule ticket_queue_same [OF q])
      show "pc d = (pc c)(t := TicketTry (next_ticket (shared c)))" using False by (auto simp: try_cas goto_def ticket_ops)
    qed (use try_cas False in \<open>auto simp: ticket_ops\<close>)
    moreover have "queue_moves t c d q q" using False by (auto simp: queue_moves_def counters_def try_cas ticket_ops)
    ultimately show ?thesis by blast
  qed
qed

section \<open>Threads that block\<close>

text \<open>Threads that only use \<open>lock\<close>; there may be any number of them below the number of tickets.\<close>

fun ticket_blocking :: "ticket_pc \<Rightarrow> bool" where
  "ticket_blocking (TicketTry _) = False"
| "ticket_blocking (TicketCas _) = False"
| "ticket_blocking _ = True"

definition ticket_run :: "nat \<Rightarrow> nat \<Rightarrow> 'a ticket_threads \<Rightarrow> 'a ticket_threads \<Rightarrow> bool" where
  "ticket_run n t c d \<longleftrightarrow> t < n \<and> ticket_step t c d \<and> ticket_blocking (pc d t)"

definition ticket_inv :: "nat \<Rightarrow> 'a ticket_threads \<Rightarrow> bool" where
  "ticket_inv n c \<longleftrightarrow> (\<exists>q. ticket_queue q c \<and> set q \<subseteq> {..<n}) \<and> (\<forall>t. ticket_blocking (pc c t))"

lemma queue_bound:
  assumes "ticket_queue q c" "set q \<subseteq> {..<n}" "n < 2 ^ 64"
  shows "length q < 2 ^ 64"
proof -
  have "length q = card (set q)" using ticket_queueD(1) [OF assms(1)] by (simp add: distinct_card)
  also have "\<dots> \<le> n" using card_mono [OF finite_lessThan assms(2)] by simp
  finally show ?thesis using assms(3) by simp
qed

lemma ticket_run_queue:
  assumes "ticket_run n t c d" "n < 2 ^ 64" "ticket_queue q c" "set q \<subseteq> {..<n}" "\<forall>t. ticket_blocking (pc c t)"
  shows "\<exists>q'. (ticket_queue q' d \<and> set q' \<subseteq> {..<n} \<and> (\<forall>t. ticket_blocking (pc d t))) \<and> queue_moves t c d q q'"
proof -
  have run: "t < n" "ticket_step t c d" "ticket_blocking (pc d t)" using assms(1) by (auto simp: ticket_run_def)
  have b: "\<forall>u. ticket_blocking (pc d u)"
    using run(2,3) assms(5) by (auto elim!: ticket_stepE split: if_splits)
  have no: "\<forall>k. pc c t = TicketCas k \<and> next_ticket (shared c) = k \<longrightarrow> q = []"
    using assms(5) by (metis ticket_blocking.simps(2))
  from ticket_step_queue [OF assms(3) run(2) queue_bound [OF assms(3,4,2)] no]
  obtain q' where q': "ticket_queue q' d"
      "queue_moves t c d q q'" by blast
  have "set q' \<subseteq> {..<n}" using q'(2) assms(4) run(1) by (auto simp: queue_moves_def dest: list.set_sel(2))
  with q' b show ?thesis by blast
qed

lemma ticket_run_inv: "ticket_inv n c \<Longrightarrow> ticket_run n t c d \<Longrightarrow> n < 2 ^ 64 \<Longrightarrow> ticket_inv n d"
  using ticket_run_queue [of n t c d] unfolding ticket_inv_def by blast

lemma ticket_inv_start: "ticket_start c \<Longrightarrow> ticket_inv n c"
  using ticket_queue_start [of c] by (auto simp: ticket_inv_def ticket_start_def)

text \<open>Other threads do not move a thread, and do not take its guard.\<close>

lemma ticket_step_other: "ticket_step t c d \<Longrightarrow> u \<noteq> t \<Longrightarrow> pc d u = pc c u"
  by (auto elim!: ticket_stepE)

lemma ticket_step_data: "ticket_step t c d \<Longrightarrow> tm_data (shared d) \<noteq> tm_data (shared c) \<Longrightarrow> ticket_holds c t"
  by (auto elim!: ticket_stepE simp: ticket_ops ticket_holds_def split: if_splits)

definition ticket_threads_max :: nat where
  "ticket_threads_max = 2 ^ 64 - 1"

interpretation ticket: mutex_protocol "ticket_run ticket_threads_max" ticket_start "ticket_inv ticket_threads_max"
  ticket_holds "\<lambda>c. tm_data (shared c)"
proof (unfold_locales, goal_cases)
  case (1 c)
  then show ?case by (rule ticket_inv_start)
next
  case (2 c t d)
  then show ?case by (rule ticket_run_inv) (simp add: ticket_threads_max_def)
next
  case (3 c t u)
  then show ?case unfolding ticket_inv_def by (metis ticket_queueD(5))
next
  case (4 c t d)
  then show ?case by (auto simp: ticket_run_def intro: ticket_step_data)
next
  case (5 c t d u)
  then show ?case unfolding ticket_run_def ticket_holds_def by (metis ticket_step_other)
qed

section \<open>Every caller is served\<close>

text \<open>An infinite run of \<open>n\<close> threads in which every thread is scheduled again and again and every critical
  section ends.\<close>

definition ticket_fair_run :: "nat \<Rightarrow> (nat \<Rightarrow> 'a ticket_threads) \<Rightarrow> (nat \<Rightarrow> nat) \<Rightarrow> bool" where
  "ticket_fair_run n \<sigma> \<theta> \<longleftrightarrow> ticket_start (\<sigma> 0) \<and> (\<forall>i. ticket_run n (\<theta> i) (\<sigma> i) (\<sigma> (Suc i))) \<and>
     (\<forall>t<n. \<forall>i. \<exists>j\<ge>i. \<theta> j = t) \<and>
     (\<forall>t i. ticket_holds (\<sigma> i) t \<longrightarrow> (\<exists>j\<ge>i. \<not> ticket_holds (\<sigma> j) t))"

lemma ticket_spin_step:
  assumes "ticket_step u c d" "pc c t = TicketSpin k"
  shows "pc d t = TicketSpin k \<or> pc d t = TicketHeld k"
  using assms by (auto elim!: ticket_stepE simp: ticket_ops)

lemma ticket_spin_served:
  assumes "ticket_step t c d" "pc c t = TicketSpin (next_serving (shared c))"
  shows "pc d t = TicketHeld (next_serving (shared c))"
  using assms by (auto elim!: ticket_stepE simp: ticket_ops)

lemma ticket_run_queues:
  assumes "ticket_fair_run n \<sigma> \<theta>" "n < 2 ^ 64"
  shows "\<exists>Q. \<forall>m. ticket_queue (Q m) (\<sigma> m) \<and> set (Q m) \<subseteq> {..<n} \<and> queue_moves (\<theta> m) (\<sigma> m) (\<sigma> (Suc m)) (Q m) (Q (Suc m))"
proof -
  let ?P = "\<lambda>m q. ticket_queue q (\<sigma> m) \<and> set q \<subseteq> {..<n} \<and> (\<forall>t. ticket_blocking (pc (\<sigma> m) t))"
  have "\<exists>q. ?P 0 q"
    using assms(1) ticket_queue_start [of "\<sigma> 0"] by (auto simp: ticket_fair_run_def ticket_start_def)
  moreover have "\<exists>q'. ?P (Suc m) q' \<and> queue_moves (\<theta> m) (\<sigma> m) (\<sigma> (Suc m)) q q'" if "?P m q" for q m
    using ticket_run_queue [of n "\<theta> m" "\<sigma> m" "\<sigma> (Suc m)" q] assms that
    unfolding ticket_fair_run_def by blast
  ultimately have "\<exists>Q. \<forall>m. ?P m (Q m) \<and> queue_moves (\<theta> m) (\<sigma> m) (\<sigma> (Suc m)) (Q m) (Q (Suc m))"
    by (rule dependent_nat_choice)
  then show ?thesis by blast
qed

text \<open>The thread at the head of the queue gets the guard when it is scheduled next.\<close>

lemma head_served:
  assumes Q: "\<And>m. ticket_queue (Q m) (\<sigma> m)" "\<And>m. queue_moves (\<theta> m) (\<sigma> m) (\<sigma> (Suc m)) (Q m) (Q (Suc m))"
    and steps: "\<And>m. ticket_step (\<theta> m) (\<sigma> m) (\<sigma> (Suc m))" and sched: "\<exists>j\<ge>i. \<theta> j = t"
    and hd: "Q i \<noteq> []" "hd (Q i) = t"
  shows "\<exists>j\<ge>i. ticket_holds (\<sigma> j) t"
proof (rule ccontr)
  assume no: "\<not> ?thesis"
  have head: "Q (i + m) \<noteq> [] \<and> hd (Q (i + m)) = t" for m
  proof (induction m)
    case (Suc m)
    have "\<not> ticket_holds (\<sigma> (i + m)) t" using no by simp
    with Suc Q(2) [of "i + m"] show ?case by (auto simp: queue_moves_def)
  qed (use hd in simp)
  obtain j where j: "i \<le> j" "\<theta> j = t" using sched by blast
  have hj: "Q j \<noteq> [] \<and> hd (Q j) = t" using head [of "j - i"] j(1) by simp
  then have "ticket_of (pc (\<sigma> j) t) = Some (next_serving (shared (\<sigma> j)))"
    using ticket_queueD(3) [OF Q(1), of 0 j] hd_conv_nth [of "Q j"] by simp
  moreover have "\<not> ticket_holds (\<sigma> j) t" using no j(1) by blast
  ultimately have "pc (\<sigma> j) t = TicketSpin (next_serving (shared (\<sigma> j)))"
    by (cases "pc (\<sigma> j) t") (auto simp: ticket_holds_def)
  then have "ticket_holds (\<sigma> (Suc j)) t"
    using ticket_spin_served [of t "\<sigma> j"] steps [of j] j(2) by (auto simp: ticket_holds_def)
  then show False using no j(1) by (meson le_SucI)
qed

text \<open>When the head lets the guard go, the queue moves up.\<close>

lemma head_leaves:
  assumes Q: "\<And>m. ticket_queue (Q m) (\<sigma> m)" "\<And>m. queue_moves (\<theta> m) (\<sigma> m) (\<sigma> (Suc m)) (Q m) (Q (Suc m))"
    and steps: "\<And>m. ticket_step (\<theta> m) (\<sigma> m) (\<sigma> (Suc m))"
    and h: "ticket_holds (\<sigma> i) t" "\<exists>j\<ge>i. \<not> ticket_holds (\<sigma> j) t"
  shows "\<exists>j\<ge>i. Q j \<noteq> [] \<and> Q (Suc j) = tl (Q j)"
proof -
  obtain m where m: "i \<le> m" "ticket_holds (\<sigma> m) t" "\<not> ticket_holds (\<sigma> (Suc m)) t"
  proof (rule ccontr)
    assume no: "\<not> thesis"
    have "ticket_holds (\<sigma> (i + m)) t" for m
    proof (induction m)
      case (Suc m)
      then show ?case using that [of "i + m"] no by auto
    qed (use h(1) in simp)
    then show False using h(2) by (metis le_Suc_ex)
  qed
  then have t: "\<theta> m = t" using ticket_step_other [OF steps] unfolding ticket_holds_def by metis
  have "ticket_of (pc (\<sigma> (Suc m)) t) = None"
    using steps [of m] m(2,3) unfolding t by (auto elim!: ticket_stepE simp: ticket_holds_def)
  then have "t \<notin> set (Q (Suc m))" using ticket_queue_out(1) [OF Q(1)] by blast
  moreover have "Q m \<noteq> [] \<and> hd (Q m) = t" using ticket_queueD(5) [OF Q(1) m(2)] .
  ultimately show ?thesis
    using Q(2) [of m] m(1) unfolding queue_moves_def by (metis hd_in_set in_set_conv_decomp_last list.set_intros(1) Un_iff set_append)
qed

lemma takeWhile_tl:
  assumes "distinct q" "t \<in> set (tl q)"
  shows "length (takeWhile ((\<noteq>) t) (tl q)) < length (takeWhile ((\<noteq>) t) q)"
  using assms by (cases q) auto

lemma takeWhile_moves:
  assumes "queue_moves u c d q q'" "distinct q" "t \<in> set q" "t \<in> set q'"
  shows "length (takeWhile ((\<noteq>) t) q') \<le> length (takeWhile ((\<noteq>) t) q)"
  using assms takeWhile_tl [of q t] by (auto simp: queue_moves_def less_imp_le)

lemma waiting_served:
  assumes fair: "ticket_fair_run n \<sigma> \<theta>" and n: "n < 2 ^ 64" and t: "pc (\<sigma> i) t = TicketSpin k"
  shows "\<exists>j\<ge>i. pc (\<sigma> j) t = TicketHeld k"
proof (rule ccontr)
  assume no: "\<not> ?thesis"
  obtain Q where Q: "\<And>m. ticket_queue (Q m) (\<sigma> m)" "\<And>m. set (Q m) \<subseteq> {..<n}"
    "\<And>m. queue_moves (\<theta> m) (\<sigma> m) (\<sigma> (Suc m)) (Q m) (Q (Suc m))" using ticket_run_queues [OF fair n] by blast
  have steps: "\<And>m. ticket_step (\<theta> m) (\<sigma> m) (\<sigma> (Suc m))" using fair by (simp add: ticket_fair_run_def ticket_run_def)
  have "pc (\<sigma> (i + m)) t = TicketSpin k" for m
  proof (induction m)
    case (Suc m)
    then show ?case using ticket_spin_step [OF steps Suc] no by (metis add_Suc_right le_add1)
  qed (use t in simp)
  then have inq: "t \<in> set (Q m)" if "i \<le> m" for m
    using ticket_queueD(4) [OF Q(1), of t m] that by (metis le_add_diff_inverse option.distinct(1) ticket_of.simps(1))
  let ?p = "\<lambda>m. length (takeWhile ((\<noteq>) t) (Q m))"
  have mono: "?p (m + d) \<le> ?p m" if "i \<le> m" for m d
  proof (induction d)
    case (Suc d)
    have "?p (Suc (m + d)) \<le> ?p (m + d)"
      by (rule takeWhile_moves [OF Q(3) ticket_queueD(1) [OF Q(1)]]) (use inq that in auto)
    with Suc show ?case by simp
  qed simp
  obtain m where m: "i \<le> m" "\<And>j. i \<le> j \<Longrightarrow> ?p m \<le> ?p j"
    using ex_has_least_nat [of "\<lambda>m. i \<le> m" i ?p] by blast
  have ne: "Q m \<noteq> []" using inq [OF m(1)] by auto
  then have "hd (Q m) < n" using Q(2) [of m] by (auto dest: hd_in_set)
  then have "\<exists>j\<ge>m. \<theta> j = hd (Q m)" using fair by (simp add: ticket_fair_run_def)
  from head_served [OF Q(1,3) steps this ne refl]
  obtain j where j: "m \<le> j" "ticket_holds (\<sigma> j) (hd (Q m))" by blast
  have "\<exists>l\<ge>j. \<not> ticket_holds (\<sigma> l) (hd (Q m))" using fair j(2) by (simp add: ticket_fair_run_def)
  from head_leaves [OF Q(1,3) steps j(2) this]
  obtain l where l: "j \<le> l" "Q (Suc l) = tl (Q l)" by blast
  have "?p (Suc l) < ?p l"
    unfolding l(2) by (rule takeWhile_tl [OF ticket_queueD(1) [OF Q(1)]]) (use inq [of "Suc l"] l m(1) j(1) in simp)
  also have "\<dots> \<le> ?p m" using mono [OF m(1), of "l - m"] l(1) j(1) by simp
  finally show False using m(2) [of "Suc l"] l(1) j(1) m(1) by simp
qed

section \<open>Threads that try\<close>

text \<open>With \<open>try_lock\<close> in the picture the counters must not wrap: the exchange of \<open>fetch_update\<close> compares tickets
  only.  \<open>ticket_reach k c\<close> says that \<open>c\<close> is reached after \<open>k\<close> tickets were given out.\<close>

inductive ticket_reach :: "nat \<Rightarrow> 'a ticket_threads \<Rightarrow> bool" where
  start: "ticket_start c \<Longrightarrow> ticket_reach 0 c"
| keep: "ticket_reach k c \<Longrightarrow> ticket_step t c d \<Longrightarrow> next_ticket (shared d) = next_ticket (shared c) \<Longrightarrow> ticket_reach k d"
| give: "ticket_reach k c \<Longrightarrow> ticket_step t c d \<Longrightarrow> next_ticket (shared d) \<noteq> next_ticket (shared c) \<Longrightarrow> ticket_reach (Suc k) d"

lemma ticket_step_counter:
  "ticket_step t c d \<Longrightarrow> next_ticket (shared d) = next_ticket (shared c) \<or> next_ticket (shared d) = next_ticket (shared c) + 1"
  by (auto elim!: ticket_stepE simp: ticket_ops split: if_splits)

text \<open>The counters as numbers, while fewer than \<open>2 ^ 64\<close> tickets are out.\<close>

definition ticket_counted :: "nat \<Rightarrow> nat list \<Rightarrow> 'a ticket_threads \<Rightarrow> bool" where
  "ticket_counted k q c \<longleftrightarrow> ticket_queue q c \<and> unat (next_ticket (shared c)) = k \<and>
     unat (next_serving (shared c)) + length q = k \<and>
     (\<forall>t v. pc c t = TicketCas v \<longrightarrow> unat v \<le> unat (next_serving (shared c)))"

lemma ticket_step_cas_seen:
  assumes "ticket_step t c d" "pc d u = TicketCas v"
  shows "pc c u = TicketCas v \<or> v = next_serving (shared c) \<and> shared d = shared c"
  using assms by (auto elim!: ticket_stepE simp: ticket_ops split: if_splits)

lemma ticket_step_serving:
  assumes "ticket_step t c d"
  shows "next_serving (shared d) = next_serving (shared c) \<or>
    (\<exists>k. pc c t = TicketHeld k \<and> next_serving (shared d) = k + 1 \<and> next_ticket (shared d) = next_ticket (shared c))"
  using assms by (auto elim!: ticket_stepE simp: ticket_ops split: if_splits)

lemma ticket_counted_cas:
  "ticket_counted k q c \<Longrightarrow> \<forall>v. pc c t = TicketCas v \<and> next_ticket (shared c) = v \<longrightarrow> q = []"
  unfolding ticket_counted_def by (metis add_diff_cancel_left' diff_is_0_eq length_0_conv)

lemma ticket_counted_step:
  assumes c: "ticket_counted k q c" and step: "ticket_step t c d" and k: "k < 2 ^ 64"
    and k': "k' = (if next_ticket (shared d) = next_ticket (shared c) then k else Suc k)" "k' < 2 ^ 64"
  shows "\<exists>q'. ticket_counted k' q' d"
proof -
  have q: "ticket_queue q c" and n: "unat (next_ticket (shared c)) = k" "unat (next_serving (shared c)) + length q = k"
    and seen: "\<And>u v. pc c u = TicketCas v \<Longrightarrow> unat v \<le> unat (next_serving (shared c))"
    using c by (auto simp: ticket_counted_def)
  obtain q' where q': "ticket_queue q' d" "queue_moves t c d q q'"
    using ticket_step_queue [OF q step _ ticket_counted_cas [OF c]] n k by fastforce
  have cnt: "unat (next_ticket (shared d)) = k' \<and> unat (next_serving (shared d)) + length q' = k' \<and>
      unat (next_serving (shared c)) \<le> unat (next_serving (shared d))"
    using q'(2) unfolding queue_moves_def
  proof (elim disjE conjE, goal_cases)
    case 1
    then show ?thesis using n k' by (simp add: counters_def)
  next
    case 2
    then have "k' = Suc k" using k'(1) by (simp add: counters_def)
    moreover have "unat (next_ticket (shared c) + 1) = Suc k"
      by (subst unat_add_small) (use k'(2) n(1) calculation in simp_all)
    ultimately show ?thesis using 2 n by (simp add: counters_def)
  next
    case 3
    then have "k' = k" "length q = Suc (length q')" using k'(1) by (simp_all add: counters_def)
    moreover have "unat (next_serving (shared c) + 1) = unat (next_serving (shared c)) + 1"
      by (subst unat_add_small) (use k n(2) calculation in simp_all)
    ultimately show ?thesis using 3 n by (simp add: counters_def del: length_tl)
  qed
  have "unat v \<le> unat (next_serving (shared d))" if "pc d u = TicketCas v" for u v
    using ticket_step_cas_seen [OF step that] seen cnt by (auto dest: le_trans)
  with q' cnt show ?thesis unfolding ticket_counted_def by blast
qed

lemma ticket_reach_counted:
  assumes "ticket_reach k c"
  shows "k < 2 ^ 64 \<Longrightarrow> \<exists>q. ticket_counted k q c"
  using assms
proof induction
  case (start c)
  then show ?case
    using ticket_queue_start [OF start(1)] by (auto simp: ticket_counted_def ticket_start_def TicketMutex_new_def)
next
  case (keep k c t d)
  then show ?case using ticket_counted_step [of k _ c t d k] by auto
next
  case (give k c t d)
  then show ?case using ticket_counted_step [of k _ c t d "Suc k"] by auto
qed

section \<open>Properties\<close>

text \<open>Two threads that take turns forever.\<close>

definition turn :: "nat \<Rightarrow> usize \<Rightarrow> usize \<times> usize \<times> ticket_pc \<times> ticket_pc" where
  "turn r k =
     [(k, k, TicketIdle, TicketIdle),
      (k + 1, k, TicketSpin k, TicketIdle),
      (k + 2, k, TicketSpin k, TicketSpin (k + 1)),
      (k + 2, k, TicketHeld k, TicketSpin (k + 1)),
      (k + 2, k + 1, TicketIdle, TicketSpin (k + 1)),
      (k + 2, k + 1, TicketIdle, TicketHeld (k + 1))] ! r"

definition turn_state :: "usize \<times> usize \<times> ticket_pc \<times> ticket_pc \<Rightarrow> unit ticket_threads" where
  "turn_state = (\<lambda>(n, s, a, b). \<lparr>shared = \<lparr>next_ticket = n, next_serving = s, tm_data = ()\<rparr>,
     pc = (\<lambda>t. if t = 0 then a else if t = 1 then b else TicketIdle)\<rparr>)"

definition turn_run :: "nat \<Rightarrow> unit ticket_threads" where
  "turn_run i = turn_state (turn (i mod 6) (of_nat (2 * (i div 6))))"

definition turn_thread :: "nat \<Rightarrow> nat" where
  "turn_thread i = [0, 1, 0, 0, 1, 1] ! (i mod 6)"

lemmas turn_defs = turn_def turn_state_def goto_def ticket_ops fun_upd_def fun_eq_iff

lemma turn_step:
  assumes "r < 6"
  shows "ticket_run 2 ([0, 1, 0, 0, 1, 1] ! r) (turn_state (turn r k)) (turn_state (if r < 5 then turn (Suc r) k else turn 0 (k + 2)))"
proof -
  have "r = 0 \<or> r = 1 \<or> r = 2 \<or> r = 3 \<or> r = 4 \<or> r = 5" using assms by linarith
  then show ?thesis
  proof (elim disjE, goal_cases)
    case 1
    let ?c = "turn_state (turn 0 k)"
    have "pc ?c 0 = TicketIdle" "goto 0 (TicketMutex_draw (shared ?c)) ?c = turn_state (turn 1 k)" "ticket_blocking (pc (turn_state (turn 1 k)) 0)"
      by (simp_all add: turn_defs)
    then show ?case using 1 ticket_step.draw [of ?c 0] by (simp add: ticket_run_def)
  next
    case 2
    let ?c = "turn_state (turn 1 k)"
    have "pc ?c 1 = TicketIdle" "goto 1 (TicketMutex_draw (shared ?c)) ?c = turn_state (turn 2 k)" "ticket_blocking (pc (turn_state (turn 2 k)) 1)"
      by (simp_all add: turn_defs)
    then show ?case using 2 ticket_step.draw [of ?c 1] by (simp add: ticket_run_def numeral_2_eq_2)
  next
    case 3
    let ?c = "turn_state (turn 2 k)"
    have "pc ?c 0 = TicketSpin (k)" "goto 0 (TicketMutex_spin k (shared ?c)) ?c = turn_state (turn 3 k)" "ticket_blocking (pc (turn_state (turn 3 k)) 0)"
      by (simp_all add: turn_defs)
    then show ?case using 3 ticket_step.spin [of ?c 0 k] by (simp add: ticket_run_def)
  next
    case 4
    let ?c = "turn_state (turn 3 k)"
    have "pc ?c 0 = TicketHeld (k)" "goto 0 (TicketMutexGuard_drop k (shared ?c), TicketIdle) ?c = turn_state (turn 4 k)" "ticket_blocking (pc (turn_state (turn 4 k)) 0)"
      by (simp_all add: turn_defs)
    then show ?case using 4 ticket_step.release [of ?c 0 k] by (simp add: ticket_run_def)
  next
    case 5
    let ?c = "turn_state (turn 4 k)"
    have "pc ?c 1 = TicketSpin (k + 1)" "goto 1 (TicketMutex_spin (k + 1) (shared ?c)) ?c = turn_state (turn 5 k)" "ticket_blocking (pc (turn_state (turn 5 k)) 1)"
      by (simp_all add: turn_defs)
    then show ?case using 5 ticket_step.spin [of ?c 1 "k + 1"] by (simp add: ticket_run_def)
  next
    case 6
    let ?c = "turn_state (turn 5 k)"
    have "pc ?c 1 = TicketHeld (k + 1)" "goto 1 (TicketMutexGuard_drop (k + 1) (shared ?c), TicketIdle) ?c = turn_state (turn 0 (k + 2))" "ticket_blocking (pc (turn_state (turn 0 (k + 2))) 1)"
      by (simp_all add: turn_defs)
    then show ?case using 6 ticket_step.release [of ?c 1 "k + 1"] by (simp add: ticket_run_def)
  qed
qed

lemma turn_fair: "ticket_fair_run 2 turn_run turn_thread"
  unfolding ticket_fair_run_def
proof (intro conjI allI impI, goal_cases)
  case 1
  show ?case by (simp add: turn_run_def turn_defs ticket_start_def TicketMutex_new_def)
next
  case (2 i)
  have "turn_run (Suc i) = turn_state (if i mod 6 < 5 then turn (Suc (i mod 6)) (of_nat (2 * (i div 6)))
      else turn 0 (of_nat (2 * (i div 6)) + 2))"
    by (auto simp: turn_run_def mod_Suc div_Suc add.commute)
  with turn_step [of "i mod 6" "of_nat (2 * (i div 6))"] show ?case
    unfolding turn_thread_def turn_run_def [of i] by simp
next
  case (3 t i)
  then have "turn_thread (6 * i + t) = t" by (auto simp: turn_thread_def less_2_cases_iff)
  then show ?case by (intro exI [of _ "6 * i + t"]) simp
next
  case (4 t i)
  have "\<not> ticket_holds (turn_run (6 * i)) t" by (simp add: turn_run_def turn_defs ticket_holds_def)
  then show ?case by (intro exI [of _ "6 * i"]) simp
qed

text \<open>C14: The ticket mutex is a first-in first-out lock.  As long as fewer than 2^64 tickets have been given out,
  every step of any thread, by lock, try_lock or the guard, corresponds to a step of the abstract queue:
  a thread joins at the end, the head leaves, or the queue stays.  Only the head can have the guard, so
  no two threads have it, and the mutex looks locked exactly when the queue is not empty.\<close>

theorem ticket_refines_fifo:
  assumes "ticket_reach k c" "k < 2 ^ 64" "ticket_step t c d"
  shows "\<exists>q q'. ticket_queue q c \<and> ticket_queue q' d \<and> queue_moves t c d q q' \<and>
    (\<forall>u. ticket_holds c u \<longrightarrow> q \<noteq> [] \<and> u = hd q) \<and> (TicketMutex_is_locked (shared c) \<longleftrightarrow> q \<noteq> [])"
proof -
  obtain q where q: "ticket_counted k q c" using ticket_reach_counted [OF assms(1,2)] by blast
  then have qc: "ticket_queue q c" "length q \<le> k" "unat (next_serving (shared c)) + length q = unat (next_ticket (shared c))"
    by (auto simp: ticket_counted_def)
  have "TicketMutex_is_locked (shared c) \<longleftrightarrow> q \<noteq> []"
    using qc(3) ticket_queueD(2) [OF qc(1)] by (auto simp: TicketMutex_is_locked_def)
  moreover obtain q' where "ticket_queue q' d" "queue_moves t c d q q'"
    using ticket_step_queue [OF qc(1) assms(3) _ ticket_counted_cas [OF q]] qc(2) assms(2) by fastforce
  ultimately show ?thesis using qc(1) ticket_queueD(5) [OF qc(1)] by blast
qed

theorem ticket_refines_fifo_witness:
  "\<exists>q q'. ticket_queue q (turn_run 0) \<and> ticket_queue q' (turn_run 1) \<and> queue_moves 0 (turn_run 0) (turn_run 1) q q' \<and>
     (TicketMutex_is_locked (shared (turn_run 0)) \<longleftrightarrow> q \<noteq> [])"
proof -
  have "ticket_start (turn_run 0)" "ticket_step 0 (turn_run 0) (turn_run 1)"
    using turn_fair by (auto simp: ticket_fair_run_def ticket_run_def turn_thread_def dest: spec [of _ 0])
  from ticket_refines_fifo [OF ticket_reach.start [OF this(1)] _ this(2)] show ?thesis by (simp, blast)
qed

text \<open>C12: No thread starves on a ticket mutex.  In every infinite run of fewer than 2^64 threads that call
  lock, in which every thread is scheduled again and again and every critical section ends, a thread
  that has drawn a ticket gets the guard with that ticket, although the counters wrap.\<close>

theorem ticket_lock_served:
  assumes "ticket_fair_run n \<sigma> \<theta>" "n < 2 ^ 64" "pc (\<sigma> i) t = TicketSpin k"
  shows "\<exists>j\<ge>i. pc (\<sigma> j) t = TicketHeld k"
  by (rule waiting_served [OF assms])

theorem ticket_lock_served_witness: "\<exists>j\<ge>2. pc (turn_run j) 1 = TicketHeld 1"
proof -
  have "pc (turn_run 2) 1 = TicketSpin 1" by (simp add: turn_run_def turn_defs)
  from ticket_lock_served [OF turn_fair _ this] show ?thesis by simp
qed

end
