(* ===== verification/Fair_Mutex.thy ===== *)
theory Fair_Mutex
  imports Atomics
begin

text \<open>
  \<^verbatim>\<open>spin/src/mutex/fair.rs\<close>: a spinning mutex whose lowest bit says that it is locked and whose other bits
  count the starving threads.  A thread that has spun too long registers as starving, and from then on a
  newcomer, who only takes a lock word of zero, cannot get in before it.
\<close>

section \<open>The operations\<close>

definition LOCKED :: usize where
  "LOCKED = 1"

definition STARVED :: usize where
  "STARVED = 2"

definition STARVATION_SPINS :: usize where
  "STARVATION_SPINS = 1024"

record 'a FairMutex =
  fm_lock :: usize
  fm_data :: 'a

datatype LockRejectReason = RejectLocked | RejectStarved

definition FairMutex_new :: "'a \<Rightarrow> 'a FairMutex" where
  "FairMutex_new d = \<lparr>fm_lock = 0, fm_data = d\<rparr>"

definition FairMutex_into_inner :: "'a FairMutex \<Rightarrow> 'a" where
  "FairMutex_into_inner m = fm_data m"

definition FairMutex_is_locked :: "'a FairMutex \<Rightarrow> bool" where
  "FairMutex_is_locked m \<longleftrightarrow> fm_lock m AND LOCKED \<noteq> 0"

definition FairMutex_force_unlock :: "'a FairMutex \<Rightarrow> 'a FairMutex" where
  "FairMutex_force_unlock m = m\<lparr>fm_lock := snd (fetch_and (NOT LOCKED) (fm_lock m))\<rparr>"

definition FairMutex_try_lock_starver :: "'a FairMutex \<Rightarrow> (LockRejectReason + unit) \<times> 'a FairMutex" where
  "FairMutex_try_lock_starver m =
     (case compare_exchange 0 LOCKED (fm_lock m) of
        (r, l) \<Rightarrow>
          (let x = (case r of Inr old \<Rightarrow> old | Inl old \<Rightarrow> old)
           in (if x = 0 then Inr () else if x = LOCKED then Inl RejectLocked else Inl RejectStarved,
               m\<lparr>fm_lock := l\<rparr>)))"

definition FairMutex_try_lock :: "'a FairMutex \<Rightarrow> bool \<times> 'a FairMutex" where
  "FairMutex_try_lock m = (case FairMutex_try_lock_starver m of (r, m) \<Rightarrow> (\<not> isl r, m))"

text \<open>\<open>starve\<close> registers the caller; it aborts before the count could run into the sign bit.\<close>

definition FairMutex_starve :: "'a FairMutex \<Rightarrow> bool \<times> 'a FairMutex" where
  "FairMutex_starve m =
     (case fetch_add STARVED (fm_lock m) of
        (old, l) \<Rightarrow> (old \<le> 0x7FFFFFFFFFFFFFFE, m\<lparr>fm_lock := l\<rparr>))"

definition Starvation_try_lock_fair :: "'a FairMutex \<Rightarrow> bool \<times> 'a FairMutex" where
  "Starvation_try_lock_fair m =
     (case compare_exchange STARVED (STARVED OR LOCKED) (fm_lock m) of
        (r, l) \<Rightarrow> (\<not> isl r, m\<lparr>fm_lock := l\<rparr>))"

definition Starvation_try_lock :: "'a FairMutex \<Rightarrow> bool \<times> 'a FairMutex" where
  "Starvation_try_lock m =
     (case fetch_or LOCKED (fm_lock m) of (old, l) \<Rightarrow> (old AND LOCKED = 0, m\<lparr>fm_lock := l\<rparr>))"

definition Starvation_drop :: "'a FairMutex \<Rightarrow> 'a FairMutex" where
  "Starvation_drop m = m\<lparr>fm_lock := snd (fetch_sub STARVED (fm_lock m))\<rparr>"

definition FairMutexGuard_drop :: "'a FairMutex \<Rightarrow> 'a FairMutex" where
  "FairMutexGuard_drop m = m\<lparr>fm_lock := snd (fetch_and (NOT LOCKED) (fm_lock m))\<rparr>"

definition FairMutexGuard_deref_mut :: "('a \<Rightarrow> 'a) \<Rightarrow> 'a FairMutex \<Rightarrow> 'a FairMutex" where
  "FairMutexGuard_deref_mut f m = m\<lparr>fm_data := f (fm_data m)\<rparr>"

text \<open>Where a thread is: outside; in \<open>lock\<close> before the exchange or in its waiting loop, with its count of
  spins; about to register; with a \<open>Starvation\<close> in hand; in \<open>Starvation::lock\<close> before the exchange or
  waiting; with the lock but the \<open>Starvation\<close> not yet dropped; with the guard; aborted.\<close>

datatype fair_pc = FairIdle | FairTry usize | FairWait usize | FairRegister | FairHand | FairStarved | FairRelax
  | FairGot | FairHeld | FairAbort

fun FairMutex_lock_step :: "bool \<Rightarrow> 'a FairMutex \<Rightarrow> fair_pc \<Rightarrow> 'a FairMutex \<times> fair_pc" where
  "FairMutex_lock_step spurious m (FairTry spins) =
     (case compare_exchange_weak spurious 0 1 (fm_lock m) of
        (Inr _, l) \<Rightarrow> (m\<lparr>fm_lock := l\<rparr>, FairHeld)
      | (Inl _, l) \<Rightarrow> (m\<lparr>fm_lock := l\<rparr>, FairWait spins))"
| "FairMutex_lock_step spurious m (FairWait spins) =
     (if FairMutex_is_locked m
      then (m, if spins > STARVATION_SPINS then FairRegister else FairWait (spins + 1))
      else (m, FairTry spins))"
| "FairMutex_lock_step spurious m FairRegister =
     (case FairMutex_starve m of (ok, m) \<Rightarrow> (m, if ok then FairStarved else FairAbort))"
| "FairMutex_lock_step spurious m p = (m, p)"

fun Starvation_lock_step :: "'a FairMutex \<Rightarrow> fair_pc \<Rightarrow> 'a FairMutex \<times> fair_pc" where
  "Starvation_lock_step m FairStarved =
     (case Starvation_try_lock m of (ok, m) \<Rightarrow> (m, if ok then FairGot else FairRelax))"
| "Starvation_lock_step m FairRelax = (m, if FairMutex_is_locked m then FairRelax else FairStarved)"
| "Starvation_lock_step m FairGot = (Starvation_drop m, FairHeld)"
| "Starvation_lock_step m p = (m, p)"

section \<open>The threads\<close>

type_synonym 'a fair_threads = "('a FairMutex, fair_pc) threads"

inductive fair_step :: "nat \<Rightarrow> 'a fair_threads \<Rightarrow> 'a fair_threads \<Rightarrow> bool" where
  call: "pc c t = FairIdle \<Longrightarrow> fair_step t c (goto t (shared c, FairTry 0) c)"
| spin: "pc c t \<in> {FairTry n, FairWait n, FairRegister} \<Longrightarrow>
     fair_step t c (goto t (FairMutex_lock_step spurious (shared c) (pc c t)) c)"
| starved: "pc c t \<in> {FairStarved, FairRelax, FairGot} \<Longrightarrow>
     fair_step t c (goto t (Starvation_lock_step (shared c) (pc c t)) c)"
| attempt: "pc c t = FairIdle \<Longrightarrow> FairMutex_try_lock (shared c) = (ok, m) \<Longrightarrow>
     fair_step t c (goto t (m, if ok then FairHeld else FairIdle) c)"
| starve: "pc c t = FairIdle \<Longrightarrow> FairMutex_starve (shared c) = (ok, m) \<Longrightarrow>
     fair_step t c (goto t (m, if ok then FairHand else FairAbort) c)"
| hand_lock: "pc c t = FairHand \<Longrightarrow> fair_step t c (goto t (shared c, FairStarved) c)"
| hand_try: "pc c t = FairHand \<Longrightarrow> Starvation_try_lock (shared c) = (ok, m) \<Longrightarrow>
     fair_step t c (goto t (m, if ok then FairGot else FairHand) c)"
| hand_fair: "pc c t = FairHand \<Longrightarrow> Starvation_try_lock_fair (shared c) = (ok, m) \<Longrightarrow>
     fair_step t c (goto t (m, if ok then FairGot else FairHand) c)"
| hand_drop: "pc c t = FairHand \<Longrightarrow> fair_step t c (goto t (Starvation_drop (shared c), FairIdle) c)"
| access: "pc c t = FairHeld \<Longrightarrow> fair_step t c (goto t (FairMutexGuard_deref_mut f (shared c), FairHeld) c)"
| release: "pc c t = FairHeld \<Longrightarrow> fair_step t c (goto t (FairMutexGuard_drop (shared c), FairIdle) c)"

inductive_cases fair_stepE: "fair_step t c d"

definition fair_run :: "nat \<Rightarrow> nat \<Rightarrow> 'a fair_threads \<Rightarrow> 'a fair_threads \<Rightarrow> bool" where
  "fair_run n t c d \<longleftrightarrow> t < n \<and> fair_step t c d"

definition fair_start :: "'a fair_threads \<Rightarrow> bool" where
  "fair_start c \<longleftrightarrow> (\<exists>d. shared c = FairMutex_new d) \<and> (\<forall>t. pc c t = FairIdle)"

section \<open>The meaning of the lock word\<close>

definition fair_owns :: "fair_pc \<Rightarrow> bool" where
  "fair_owns p \<longleftrightarrow> p \<in> {FairGot, FairHeld}"

definition fair_starves :: "fair_pc \<Rightarrow> bool" where
  "fair_starves p \<longleftrightarrow> p \<in> {FairHand, FairStarved, FairRelax, FairGot}"

definition fair_holds :: "'a fair_threads \<Rightarrow> nat \<Rightarrow> bool" where
  "fair_holds c t \<longleftrightarrow> fair_owns (pc c t)"

definition starvers :: "nat \<Rightarrow> 'a fair_threads \<Rightarrow> nat set" where
  "starvers n c = {t. t < n \<and> fair_starves (pc c t)}"

definition fair_word :: "nat \<Rightarrow> bool \<Rightarrow> usize" where
  "fair_word k held = flagged 1 (of_nat k) (of_bool held)"

lemma fair_flag [simp]: "take_bit 1 (of_bool b :: usize) = of_bool b" "take_bit 1 LOCKED = LOCKED"
  by (simp_all add: LOCKED_def)

lemma fair_word_ops [simp]:
  "fair_word k held AND LOCKED = of_bool held"
  "fair_word k held OR LOCKED = fair_word k True"
  "fair_word k held AND NOT LOCKED = fair_word k False"
  "fair_word k held + STARVED = fair_word (Suc k) held"
  "fair_word (Suc k) held - STARVED = fair_word k held"
proof -
  have S: "STARVED = push_bit 1 1" by (simp add: STARVED_def)
  show "fair_word k held + STARVED = fair_word (Suc k) held" "fair_word (Suc k) held - STARVED = fair_word k held"
    unfolding S fair_word_def by (simp_all only: flagged_add flagged_sub fair_flag) (simp_all add: add.commute)
  show "fair_word k held AND NOT LOCKED = fair_word k False"
    unfolding fair_word_def flagged_and_not [OF fair_flag(2)] by (simp add: LOCKED_def)
qed (simp_all add: fair_word_def flagged_and flagged_or LOCKED_def)

lemma unat_fair_word: "k < 2 ^ 62 \<Longrightarrow> unat (fair_word k held) = 2 * k + of_bool held"
  unfolding fair_word_def by (subst unat_flagged) (auto simp: unat_of_nat)

lemma fair_word_0: "k < 2 ^ 62 \<Longrightarrow> fair_word k held = 0 \<longleftrightarrow> k = 0 \<and> \<not> held"
  using unat_fair_word [of k held] by (cases held) (auto simp flip: unat_0_iff)

lemma fair_word_STARVED: "k < 2 ^ 62 \<Longrightarrow> fair_word k held = STARVED \<longleftrightarrow> k = 1 \<and> \<not> held"
proof -
  assume "k < 2 ^ 62"
  then have "unat (fair_word k held) = 2 * k + of_bool held" by (rule unat_fair_word)
  moreover have "unat STARVED = 2" by (simp add: STARVED_def)
  moreover have "fair_word k held = STARVED \<longleftrightarrow> unat (fair_word k held) = unat STARVED" by (metis unat_eqI)
  ultimately show ?thesis by (cases held) auto
qed

lemma fair_word_new: "1 = fair_word 0 True" "LOCKED = fair_word 0 True" "STARVED OR LOCKED = fair_word (Suc 0) True"
  by (simp_all add: fair_word_def flagged_def STARVED_def LOCKED_def)

lemma fair_word_room: "k < 2 ^ 62 - 1 \<Longrightarrow> fair_word k held \<le> 0x7FFFFFFFFFFFFFFE"
  using unat_fair_word [of k held] by (cases held) (auto simp: word_le_nat_alt)

lemma fair_word_zero [simp]: "fair_word 0 False = 0"
  by (simp add: fair_word_def flagged_def)

text \<open>What one thread does to the word, \<open>k\<close> other threads starving and \<open>b\<close> telling whether another one has the
  lock.\<close>

definition fair_view :: "nat \<Rightarrow> bool \<Rightarrow> 'a FairMutex \<Rightarrow> fair_pc \<Rightarrow> bool" where
  "fair_view k b m p \<longleftrightarrow> fm_lock m = fair_word (k + of_bool (fair_starves p)) (fair_owns p \<or> b) \<and>
     \<not> (fair_owns p \<and> b) \<and> p \<noteq> FairAbort"

lemmas fair_ops = FairMutex_try_lock_def FairMutex_try_lock_starver_def FairMutex_starve_def FairMutex_is_locked_def
  Starvation_try_lock_fair_def Starvation_try_lock_def Starvation_drop_def FairMutexGuard_drop_def
  FairMutexGuard_deref_mut_def atomic_defs Let_def

lemma fair_view_step:
  assumes step: "fair_step t c d" and view: "fair_view k b (shared c) (pc c t)" and k: "k < 2 ^ 62 - 2"
  shows "fair_view k b (shared d) (pc d t)"
proof -
  have facts: "fair_word k h = 0 \<longleftrightarrow> k = 0 \<and> \<not> h" "fair_word (Suc k) h = STARVED \<longleftrightarrow> k = 0 \<and> \<not> h"
    "fair_word k h \<le> 0x7FFFFFFFFFFFFFFE" for h
    using fair_word_0 [of k h] fair_word_STARVED [of "Suc k" h] fair_word_room [of k h] k by simp_all
  note s = fair_view_def fair_ops fair_owns_def fair_starves_def facts
  show ?thesis
    using step view by cases (auto simp: s fair_word_new [THEN eqTrueI] split: if_splits)
qed

definition fair_inv :: "nat \<Rightarrow> 'a fair_threads \<Rightarrow> bool" where
  "fair_inv n c \<longleftrightarrow> (\<forall>t. n \<le> t \<longrightarrow> pc c t = FairIdle) \<and> (\<forall>t. pc c t \<noteq> FairAbort) \<and>
     (\<forall>t u. fair_holds c t \<and> fair_holds c u \<longrightarrow> t = u) \<and>
     fm_lock (shared c) = fair_word (card (starvers n c)) (\<exists>t. fair_holds c t)"

text \<open>The invariant as each thread sees it.\<close>

lemma starvers_split:
  "t < n \<Longrightarrow> card (starvers n c) = card (starvers n c - {t}) + of_bool (fair_starves (pc c t))"
proof -
  assume "t < n"
  then have "t \<in> starvers n c \<longleftrightarrow> fair_starves (pc c t)" by (simp add: starvers_def)
  moreover have "finite (starvers n c)" by (simp add: starvers_def)
  ultimately show ?thesis using card.remove [of "starvers n c" t] by (cases "fair_starves (pc c t)") auto
qed

lemma others_bound: "t < n \<Longrightarrow> card (starvers n c - {t}) \<le> n - 1"
proof -
  assume "t < n"
  then have "card ({..<n} - {t}) = n - 1" by simp
  moreover have "card (starvers n c - {t}) \<le> card ({..<n} - {t})" by (rule card_mono) (auto simp: starvers_def)
  ultimately show ?thesis by simp
qed

lemma holders_split: "(\<exists>u. fair_holds c u) \<longleftrightarrow> fair_owns (pc c t) \<or> (\<exists>u. u \<noteq> t \<and> fair_holds c u)"
  unfolding fair_holds_def by metis

lemma fair_inv_view:
  assumes "fair_inv n c" "t < n"
  shows "fair_view (card (starvers n c - {t})) (\<exists>u. u \<noteq> t \<and> fair_holds c u) (shared c) (pc c t)"
proof -
  have "\<not> (fair_owns (pc c t) \<and> (\<exists>u. u \<noteq> t \<and> fair_holds c u))"
    using assms(1) by (auto simp: fair_inv_def fair_holds_def)
  then show ?thesis
    using assms(1) starvers_split [OF assms(2), of c] holders_split [of c t] by (simp add: fair_view_def fair_inv_def)
qed

lemma fair_step_other: "fair_step t c d \<Longrightarrow> u \<noteq> t \<Longrightarrow> pc d u = pc c u"
  by (auto elim!: fair_stepE)

lemma fair_run_inv:
  assumes inv: "fair_inv n c" and run: "fair_run n t c d" and n: "n < 2 ^ 62 - 1"
  shows "fair_inv n d"
proof -
  have t: "t < n" and step: "fair_step t c d" using run by (auto simp: fair_run_def)
  note other = fair_step_other [OF step]
  have S: "starvers n d - {t} = starvers n c - {t}" using other by (auto simp: starvers_def)
  have H: "(\<exists>u. u \<noteq> t \<and> fair_holds d u) \<longleftrightarrow> (\<exists>u. u \<noteq> t \<and> fair_holds c u)" using other by (auto simp: fair_holds_def)
  have "fair_view (card (starvers n c - {t})) (\<exists>u. u \<noteq> t \<and> fair_holds c u) (shared d) (pc d t)"
    by (rule fair_view_step [OF step fair_inv_view [OF inv t]]) (use others_bound [OF t, of c] t n in linarith)
  then have v: "fair_view (card (starvers n d - {t})) (\<exists>u. u \<noteq> t \<and> fair_holds d u) (shared d) (pc d t)"
    unfolding S H .
  from v holders_split [of d t] have "fm_lock (shared d) = fair_word (card (starvers n d)) (\<exists>u. fair_holds d u)"
    unfolding fair_view_def starvers_split [OF t, of d] by simp
  moreover have "\<forall>u v. fair_holds d u \<and> fair_holds d v \<longrightarrow> u = v"
    using v inv other unfolding fair_view_def fair_inv_def fair_holds_def by metis
  moreover have "\<forall>u. pc d u \<noteq> FairAbort" using v inv other unfolding fair_view_def fair_inv_def by metis
  moreover have "\<forall>u. n \<le> u \<longrightarrow> pc d u = FairIdle" using inv other t unfolding fair_inv_def by (metis not_less)
  ultimately show ?thesis unfolding fair_inv_def by blast
qed

lemma fair_inv_start: "fair_start c \<Longrightarrow> fair_inv n c"
  by (auto simp: fair_start_def fair_inv_def fair_holds_def fair_owns_def starvers_def fair_starves_def FairMutex_new_def)

definition fair_threads_max :: nat where
  "fair_threads_max = 2 ^ 62 - 2"

lemma fair_step_data: "fair_step t c d \<Longrightarrow> fm_data (shared d) \<noteq> fm_data (shared c) \<Longrightarrow> fair_holds c t"
  by (auto elim!: fair_stepE simp: fair_ops fair_holds_def fair_owns_def split: if_splits)

interpretation fair: mutex_protocol "fair_run fair_threads_max" fair_start "fair_inv fair_threads_max"
  fair_holds "\<lambda>c. fm_data (shared c)"
proof (unfold_locales, goal_cases)
  case (1 c)
  then show ?case by (rule fair_inv_start)
next
  case (2 c t d)
  then show ?case by (rule fair_run_inv) (simp add: fair_threads_max_def)
next
  case (3 c t u)
  then show ?case by (simp add: fair_inv_def)
next
  case (4 c t d)
  then show ?case by (auto simp: fair_run_def intro: fair_step_data)
next
  case (5 c t d u)
  then show ?case unfolding fair_run_def fair_holds_def by (metis fair_step_other)
qed

section \<open>Properties\<close>


definition fair_idle :: "nat fair_threads" where
  "fair_idle = \<lparr>shared = FairMutex_new 7, pc = (\<lambda>_. FairIdle)\<rparr>"


end
