(* ===== verification/Rw_Lock.thy ===== *)
theory Rw_Lock
  imports Atomics
begin

text \<open>
  \<^verbatim>\<open>spin/src/rwlock.rs\<close>: one writer or many readers, and an upgradeable reader that shares the lock with
  readers only.  The lock word counts the readers above the two flags \<open>UPGRADED\<close> and \<open>WRITER\<close>.  An agent of
  the model is one guard with the calls that lead to it; a thread with several guards is several agents.
  The blocking calls \<open>read\<close>, \<open>write\<close>, \<open>upgradeable_read\<close> and \<open>upgrade\<close> repeat the attempts.
\<close>

section \<open>The operations\<close>

definition READER :: usize where
  "READER = push_bit 2 1"

definition UPGRADED :: usize where
  "UPGRADED = push_bit 1 1"

definition WRITER :: usize where
  "WRITER = 1"

definition MAX_READERS :: usize where
  "MAX_READERS = 0xFFFFFFFFFFFFFFFF div READER div 2"

record 'a RwLock =
  rw_lock :: usize
  rw_data :: 'a

definition RwLock_new :: "'a \<Rightarrow> 'a RwLock" where
  "RwLock_new d = \<lparr>rw_lock = 0, rw_data = d\<rparr>"

definition RwLock_into_inner :: "'a RwLock \<Rightarrow> 'a" where
  "RwLock_into_inner m = rw_data m"

text \<open>The first half of \<open>acquire_reader\<close>, with the word it saw; the second half, when there are too many
  readers, takes the count back and panics.\<close>

definition acquire_reader :: "'a RwLock \<Rightarrow> (unit + usize) \<times> 'a RwLock" where
  "acquire_reader m =
     (case fetch_add READER (rw_lock m) of
        (v, l) \<Rightarrow> (if v > MAX_READERS * READER then Inl () else Inr v, m\<lparr>rw_lock := l\<rparr>))"

definition release_reader :: "'a RwLock \<Rightarrow> 'a RwLock" where
  "release_reader m = m\<lparr>rw_lock := snd (fetch_sub READER (rw_lock m))\<rparr>"

definition reader_count :: "'a RwLock \<Rightarrow> usize" where
  "reader_count m = rw_lock m div READER + (rw_lock m AND UPGRADED) div UPGRADED"

definition writer_count :: "'a RwLock \<Rightarrow> usize" where
  "writer_count m = (rw_lock m AND WRITER) div WRITER"

definition force_read_decrement :: "'a RwLock \<Rightarrow> 'a RwLock" where
  "force_read_decrement m = m\<lparr>rw_lock := snd (fetch_sub READER (rw_lock m))\<rparr>"

definition force_write_unlock :: "'a RwLock \<Rightarrow> 'a RwLock" where
  "force_write_unlock m = m\<lparr>rw_lock := snd (fetch_and (NOT (WRITER OR UPGRADED)) (rw_lock m))\<rparr>"

definition try_write_internal :: "bool \<Rightarrow> bool \<Rightarrow> 'a RwLock \<Rightarrow> bool \<times> 'a RwLock" where
  "try_write_internal spurious strong m =
     (case (if strong then compare_exchange 0 WRITER (rw_lock m)
            else compare_exchange_weak spurious 0 WRITER (rw_lock m)) of
        (r, l) \<Rightarrow> (\<not> isl r, m\<lparr>rw_lock := l\<rparr>))"

definition try_upgradeable_read :: "'a RwLock \<Rightarrow> bool \<times> 'a RwLock" where
  "try_upgradeable_read m =
     (case fetch_or UPGRADED (rw_lock m) of
        (old, l) \<Rightarrow> (old AND (WRITER OR UPGRADED) = 0, m\<lparr>rw_lock := l\<rparr>))"

definition try_upgrade_internal :: "bool \<Rightarrow> bool \<Rightarrow> 'a RwLock \<Rightarrow> bool \<times> 'a RwLock" where
  "try_upgrade_internal spurious strong m =
     (case (if strong then compare_exchange UPGRADED WRITER (rw_lock m)
            else compare_exchange_weak spurious UPGRADED WRITER (rw_lock m)) of
        (r, l) \<Rightarrow> (\<not> isl r, m\<lparr>rw_lock := l\<rparr>))"

definition UpgradableGuard_drop :: "'a RwLock \<Rightarrow> 'a RwLock" where
  "UpgradableGuard_drop m = m\<lparr>rw_lock := snd (fetch_sub UPGRADED (rw_lock m))\<rparr>"

definition WriteGuard_drop :: "'a RwLock \<Rightarrow> 'a RwLock" where
  "WriteGuard_drop m = m\<lparr>rw_lock := snd (fetch_and (NOT (WRITER OR UPGRADED)) (rw_lock m))\<rparr>"

definition downgrade_to_upgradeable :: "'a RwLock \<Rightarrow> 'a RwLock" where
  "downgrade_to_upgradeable m = m\<lparr>rw_lock := UPGRADED\<rparr>"

text \<open>Where an agent is: without a guard; in \<open>try_read\<close> with the reader counted although the lock is taken;
  with a read, upgradeable or write guard; in \<open>downgrade\<close> of an upgradeable or a write guard with the
  reader already counted; in \<open>acquire_reader\<close> with too many readers; after its panic.\<close>

datatype rw_pc = RwIdle | RwUndo | RwRead | RwUp | RwWrite | RwUpDown | RwWriteDown | RwOver | RwPanic

definition try_read_step :: "'a RwLock \<Rightarrow> 'a RwLock \<times> rw_pc" where
  "try_read_step m =
     (case acquire_reader m of
        (Inl _, m) \<Rightarrow> (m, RwOver)
      | (Inr v, m) \<Rightarrow> (m, if v AND (WRITER OR UPGRADED) \<noteq> 0 then RwUndo else RwRead))"

definition downgrade_step :: "rw_pc \<Rightarrow> 'a RwLock \<Rightarrow> 'a RwLock \<times> rw_pc" where
  "downgrade_step p m = (case acquire_reader m of (Inl _, m) \<Rightarrow> (m, RwOver) | (Inr _, m) \<Rightarrow> (m, p))"

section \<open>The agents\<close>

type_synonym 'a rw_threads = "('a RwLock, rw_pc) threads"

inductive rw_step :: "nat \<Rightarrow> 'a rw_threads \<Rightarrow> 'a rw_threads \<Rightarrow> bool" where
  try_read: "pc c t = RwIdle \<Longrightarrow> rw_step t c (goto t (try_read_step (shared c)) c)"
| undo: "pc c t = RwUndo \<Longrightarrow> rw_step t c (goto t (release_reader (shared c), RwIdle) c)"
| over: "pc c t = RwOver \<Longrightarrow> rw_step t c (goto t (release_reader (shared c), RwPanic) c)"
| try_write: "pc c t = RwIdle \<Longrightarrow> try_write_internal spurious strong (shared c) = (ok, m) \<Longrightarrow>
     rw_step t c (goto t (m, if ok then RwWrite else RwIdle) c)"
| try_up: "pc c t = RwIdle \<Longrightarrow> try_upgradeable_read (shared c) = (ok, m) \<Longrightarrow>
     rw_step t c (goto t (m, if ok then RwUp else RwIdle) c)"
| upgrade: "pc c t = RwUp \<Longrightarrow> try_upgrade_internal spurious strong (shared c) = (ok, m) \<Longrightarrow>
     rw_step t c (goto t (m, if ok then RwWrite else RwUp) c)"
| up_down: "pc c t = RwUp \<Longrightarrow> rw_step t c (goto t (downgrade_step RwUpDown (shared c)) c)"
| up_down_drop: "pc c t = RwUpDown \<Longrightarrow> rw_step t c (goto t (UpgradableGuard_drop (shared c), RwRead) c)"
| write_down: "pc c t = RwWrite \<Longrightarrow> rw_step t c (goto t (downgrade_step RwWriteDown (shared c)) c)"
| write_down_drop: "pc c t = RwWriteDown \<Longrightarrow> rw_step t c (goto t (WriteGuard_drop (shared c), RwRead) c)"
| store: "pc c t = RwWrite \<Longrightarrow> rw_step t c (goto t ((shared c)\<lparr>rw_data := v\<rparr>, RwWrite) c)"
| drop_read: "pc c t = RwRead \<Longrightarrow> rw_step t c (goto t (release_reader (shared c), RwIdle) c)"
| drop_up: "pc c t = RwUp \<Longrightarrow> rw_step t c (goto t (UpgradableGuard_drop (shared c), RwIdle) c)"
| drop_write: "pc c t = RwWrite \<Longrightarrow> rw_step t c (goto t (WriteGuard_drop (shared c), RwIdle) c)"

inductive_cases rw_stepE: "rw_step t c d"

definition rw_run :: "nat \<Rightarrow> nat \<Rightarrow> 'a rw_threads \<Rightarrow> 'a rw_threads \<Rightarrow> bool" where
  "rw_run n t c d \<longleftrightarrow> t < n \<and> rw_step t c d"

definition rw_start :: "'a rw_threads \<Rightarrow> bool" where
  "rw_start c \<longleftrightarrow> (\<exists>d. shared c = RwLock_new d) \<and> (\<forall>t. pc c t = RwIdle)"

section \<open>The meaning of the lock word\<close>

definition rw_word :: "nat \<Rightarrow> bool \<Rightarrow> bool \<Rightarrow> usize" where
  "rw_word k w u = flagged 2 (of_nat k) (of_bool w OR (2 * of_bool u))"

lemma rw_flag [simp]:
  "take_bit 2 (of_bool w OR (2 * of_bool u) :: usize) = of_bool w OR (2 * of_bool u)"
  "take_bit 2 (WRITER OR UPGRADED) = WRITER OR UPGRADED"
  by (cases w; cases u; simp add: WRITER_def UPGRADED_def)+

lemma rw_word_ops [simp]:
  "rw_word k w u AND (WRITER OR UPGRADED) = 0 \<longleftrightarrow> \<not> w \<and> \<not> u"
  "rw_word k w u OR UPGRADED = rw_word k w True"
  "rw_word k w u AND NOT (WRITER OR UPGRADED) = rw_word k False False"
  "rw_word k w True - UPGRADED = rw_word k w False"
  "rw_word k w u + READER = rw_word (Suc k) w u"
  "rw_word (Suc k) w u - READER = rw_word k w u"
proof -
  show "rw_word k w u + READER = rw_word (Suc k) w u" "rw_word (Suc k) w u - READER = rw_word k w u"
    unfolding READER_def rw_word_def by (simp_all only: flagged_add flagged_sub rw_flag) (simp_all add: add.commute)
  show "rw_word k w u AND (WRITER OR UPGRADED) = 0 \<longleftrightarrow> \<not> w \<and> \<not> u"
    unfolding rw_word_def flagged_and [OF rw_flag(2)] by (cases w; cases u; simp add: WRITER_def UPGRADED_def)
  show "rw_word k w u OR UPGRADED = rw_word k w True"
    unfolding rw_word_def flagged_or by (cases w; cases u; simp add: UPGRADED_def)
  show "rw_word k w u AND NOT (WRITER OR UPGRADED) = rw_word k False False"
    unfolding rw_word_def flagged_and_not [OF rw_flag(2)] by (cases w; cases u; simp add: WRITER_def UPGRADED_def)
  show "rw_word k w True - UPGRADED = rw_word k w False"
    unfolding rw_word_def flagged_plus [OF rw_flag(1)] by (cases w; simp add: UPGRADED_def)
qed

lemma rw_word_clear [simp]: "rw_word k w u AND NOT WRITER AND NOT UPGRADED = rw_word k False False"
  using rw_word_ops(3) [of k w u] by (simp del: rw_word_ops)

lemma unat_rw_word: "k < 2 ^ 61 \<Longrightarrow> unat (rw_word k w u) = 4 * k + of_bool w + 2 * of_bool u"
  unfolding rw_word_def by (subst unat_flagged) (cases w; cases u; auto simp: unat_of_nat)+

lemma rw_word_eqs:
  assumes "k < 2 ^ 61 - 1"
  shows "rw_word k w u = 0 \<longleftrightarrow> k = 0 \<and> \<not> w \<and> \<not> u" "rw_word k w u = UPGRADED \<longleftrightarrow> k = 0 \<and> \<not> w \<and> u"
    "\<not> rw_word k w u > MAX_READERS * READER"
proof -
  have u: "unat (rw_word k w u) = 4 * k + of_bool w + 2 * of_bool u" using assms by (intro unat_rw_word) simp
  have iff: "rw_word k w u = v \<longleftrightarrow> unat (rw_word k w u) = unat v" for v by (metis unat_eqI)
  show "rw_word k w u = 0 \<longleftrightarrow> k = 0 \<and> \<not> w \<and> \<not> u" unfolding iff u by (cases w; cases u) auto
  show "rw_word k w u = UPGRADED \<longleftrightarrow> k = 0 \<and> \<not> w \<and> u"
    unfolding iff u by (cases w; cases u; simp add: UPGRADED_def; presburger)
  have "unat (MAX_READERS * READER) = 2 ^ 63 - 4" by (simp add: MAX_READERS_def READER_def)
  then show "\<not> rw_word k w u > MAX_READERS * READER"
    using assms unfolding word_less_nat_alt u by (cases w; cases u) auto
qed

lemma rw_word_new: "WRITER = rw_word 0 True False" "0 = rw_word 0 False False"
  by (simp_all add: rw_word_def flagged_def WRITER_def)

definition rw_counts :: "rw_pc \<Rightarrow> bool" where
  "rw_counts p \<longleftrightarrow> p \<in> {RwUndo, RwRead, RwUpDown, RwWriteDown}"

definition rw_writes :: "rw_pc \<Rightarrow> bool" where
  "rw_writes p \<longleftrightarrow> p \<in> {RwWrite, RwWriteDown}"

definition rw_ups :: "rw_pc \<Rightarrow> bool" where
  "rw_ups p \<longleftrightarrow> p \<in> {RwUp, RwUpDown}"

text \<open>The lock as one agent sees it: \<open>k\<close> others are counted, and \<open>bw\<close>, \<open>bu\<close>, \<open>br\<close> tell whether another one
  writes, is upgradeable or reads.  Beside a writer, a failed attempt may have left the \<open>UPGRADED\<close> bit set.\<close>

definition up_bit :: "'a RwLock \<Rightarrow> bool" where
  "up_bit m = bit (rw_lock m) 1"

definition rw_view :: "nat \<Rightarrow> bool \<Rightarrow> bool \<Rightarrow> bool \<Rightarrow> 'a RwLock \<Rightarrow> rw_pc \<Rightarrow> bool" where
  "rw_view k bw bu br m p \<longleftrightarrow>
     rw_lock m = rw_word (k + of_bool (rw_counts p)) (rw_writes p \<or> bw) (up_bit m) \<and>
     (rw_ups p \<or> bu \<longrightarrow> up_bit m) \<and> (up_bit m \<longrightarrow> rw_ups p \<or> bu \<or> rw_writes p \<or> bw) \<and>
     \<not> (rw_writes p \<and> (bw \<or> bu)) \<and> \<not> (rw_ups p \<and> (bw \<or> bu)) \<and>
     (p = RwRead \<longrightarrow> \<not> bw) \<and> (br \<longrightarrow> \<not> rw_writes p) \<and> p \<noteq> RwOver \<and> p \<noteq> RwPanic"

lemma bit_rw_word [simp]: "bit (rw_word k w u) (Suc 0) = u" "\<not> bit WRITER (Suc 0)"
  unfolding rw_word_def flagged_def WRITER_def by (cases w; cases u; simp add: bit_simps)+

lemma up_bit_word: "rw_lock m = rw_word k w u \<Longrightarrow> up_bit m = u"
  by (simp add: up_bit_def)

lemmas rw_ops = acquire_reader_def release_reader_def try_write_internal_def try_upgradeable_read_def try_upgrade_internal_def
  UpgradableGuard_drop_def WriteGuard_drop_def try_read_step_def downgrade_step_def atomic_defs

lemma rw_view_step:
  assumes step: "rw_step t c d" and view: "rw_view k bw bu br (shared c) (pc c t)"
    and k: "k < 2 ^ 61 - 2" and br: "br \<longrightarrow> 0 < k"
  shows "rw_view k bw bu br (shared d) (pc d t)"
proof -
  have eqs: "rw_word k w u = 0 \<longleftrightarrow> k = 0 \<and> \<not> w \<and> \<not> u" "rw_word k w u = UPGRADED \<longleftrightarrow> k = 0 \<and> \<not> w \<and> u"
    "\<not> rw_word k w u > MAX_READERS * READER" for w u
    using rw_word_eqs [of k w u] k by simp_all
  define f where "f = up_bit (shared c)"
  have lock: "rw_lock (shared c) = rw_word (k + of_bool (rw_counts (pc c t))) (rw_writes (pc c t) \<or> bw) f"
    and f: "rw_ups (pc c t) \<or> bu \<longrightarrow> f" "f \<longrightarrow> rw_ups (pc c t) \<or> bu \<or> rw_writes (pc c t) \<or> bw"
    and ex: "\<not> (rw_writes (pc c t) \<and> (bw \<or> bu))" "\<not> (rw_ups (pc c t) \<and> (bw \<or> bu))"
      "pc c t = RwRead \<longrightarrow> \<not> bw" "br \<longrightarrow> \<not> rw_writes (pc c t)" "pc c t \<noteq> RwOver" "pc c t \<noteq> RwPanic"
    using view unfolding f_def rw_view_def by auto
  note s = rw_ops rw_counts_def rw_writes_def rw_ups_def eqs rw_word_new [THEN eqTrueI] up_bit_def lock
  show ?thesis
    using step f ex br by cases (auto simp: rw_view_def s split: if_splits)
qed

definition counted :: "nat \<Rightarrow> 'a rw_threads \<Rightarrow> nat set" where
  "counted n c = {t. t < n \<and> rw_counts (pc c t)}"

definition rw_inv :: "nat \<Rightarrow> 'a rw_threads \<Rightarrow> bool" where
  "rw_inv n c \<longleftrightarrow> (\<forall>t. n \<le> t \<longrightarrow> pc c t = RwIdle) \<and> (\<forall>t. pc c t \<noteq> RwOver \<and> pc c t \<noteq> RwPanic) \<and>
     rw_lock (shared c) = rw_word (card (counted n c)) (\<exists>t. rw_writes (pc c t)) (up_bit (shared c)) \<and>
     ((\<exists>t. rw_ups (pc c t)) \<longrightarrow> up_bit (shared c)) \<and>
     (up_bit (shared c) \<longrightarrow> (\<exists>t. rw_ups (pc c t)) \<or> (\<exists>t. rw_writes (pc c t))) \<and>
     (\<forall>t u. (rw_writes (pc c t) \<or> rw_ups (pc c t)) \<and> (rw_writes (pc c u) \<or> rw_ups (pc c u)) \<longrightarrow> t = u) \<and>
     (\<forall>t u. rw_writes (pc c t) \<longrightarrow> pc c u \<noteq> RwRead)"

lemma counted_split: "t < n \<Longrightarrow> card (counted n c) = card (counted n c - {t}) + of_bool (rw_counts (pc c t))"
proof -
  assume "t < n"
  then have "t \<in> counted n c \<longleftrightarrow> rw_counts (pc c t)" by (simp add: counted_def)
  moreover have "finite (counted n c)" by (simp add: counted_def)
  ultimately show ?thesis using card.remove [of "counted n c" t] by (cases "rw_counts (pc c t)") auto
qed

lemma counted_bound: "t < n \<Longrightarrow> card (counted n c - {t}) \<le> n - 1"
proof -
  assume "t < n"
  then have "card ({..<n} - {t}) = n - 1" by simp
  moreover have "card (counted n c - {t}) \<le> card ({..<n} - {t})" by (rule card_mono) (auto simp: counted_def)
  ultimately show ?thesis by simp
qed

lemma ex_split: "(\<exists>u. P (pc c u)) \<longleftrightarrow> P (pc c t) \<or> (\<exists>u. u \<noteq> t \<and> P (pc c u))"
  by metis

lemma writes_not_ups: "rw_writes p \<Longrightarrow> \<not> rw_ups p" "\<not> rw_writes RwRead" "\<not> rw_ups RwRead" "rw_counts RwRead"
  by (auto simp: rw_writes_def rw_ups_def rw_counts_def)

lemma rw_inv_view:
  assumes "rw_inv n c" "t < n"
  shows "rw_view (card (counted n c - {t})) (\<exists>u. u \<noteq> t \<and> rw_writes (pc c u)) (\<exists>u. u \<noteq> t \<and> rw_ups (pc c u))
    (\<exists>u. u \<noteq> t \<and> pc c u = RwRead) (shared c) (pc c t)"
proof -
  have "\<not> (rw_writes (pc c t) \<and> ((\<exists>u. u \<noteq> t \<and> rw_writes (pc c u)) \<or> (\<exists>u. u \<noteq> t \<and> rw_ups (pc c u))))"
    "\<not> (rw_ups (pc c t) \<and> ((\<exists>u. u \<noteq> t \<and> rw_writes (pc c u)) \<or> (\<exists>u. u \<noteq> t \<and> rw_ups (pc c u))))"
    using assms(1) unfolding rw_inv_def by blast+
  then show ?thesis
    using assms(1) unfolding rw_view_def rw_inv_def counted_split [OF assms(2), of c]
      ex_split [of rw_writes c t] ex_split [of rw_ups c t] by blast
qed

lemma rw_step_other: "rw_step t c d \<Longrightarrow> u \<noteq> t \<Longrightarrow> pc d u = pc c u"
  by (auto elim!: rw_stepE)

lemma rw_run_inv:
  assumes inv: "rw_inv n c" and run: "rw_run n t c d" and n: "n < 2 ^ 61 - 1"
  shows "rw_inv n d"
proof -
  have t: "t < n" and step: "rw_step t c d" using run by (auto simp: rw_run_def)
  note other = rw_step_other [OF step]
  have S: "counted n d - {t} = counted n c - {t}" using other by (auto simp: counted_def)
  have H: "(\<exists>u. u \<noteq> t \<and> P (pc d u)) \<longleftrightarrow> (\<exists>u. u \<noteq> t \<and> P (pc c u))" for P using other by auto
  have br: "(\<exists>u. u \<noteq> t \<and> pc c u = RwRead) \<longrightarrow> 0 < card (counted n c - {t})"
  proof
    assume "\<exists>u. u \<noteq> t \<and> pc c u = RwRead"
    then obtain u where u: "u \<noteq> t" "pc c u = RwRead" by blast
    then have "u < n" using inv unfolding rw_inv_def by (metis not_less rw_pc.distinct(3))
    with u have "u \<in> counted n c - {t}" by (simp add: counted_def writes_not_ups)
    then show "0 < card (counted n c - {t})" by (auto simp: card_gt_0_iff counted_def)
  qed
  have v: "rw_view (card (counted n d - {t})) (\<exists>u. u \<noteq> t \<and> rw_writes (pc d u)) (\<exists>u. u \<noteq> t \<and> rw_ups (pc d u))
    (\<exists>u. u \<noteq> t \<and> pc d u = RwRead) (shared d) (pc d t)"
    unfolding S H [of rw_writes] H [of rw_ups] H [of "\<lambda>p. p = RwRead"]
    by (rule rw_view_step [OF step rw_inv_view [OF inv t] _ br]) (use counted_bound [OF t, of c] t n in linarith)
  have vt: "\<And>u. u \<noteq> t \<Longrightarrow> rw_writes (pc d t) \<or> rw_ups (pc d t) \<Longrightarrow> \<not> (rw_writes (pc d u) \<or> rw_ups (pc d u))"
    "\<And>u. u \<noteq> t \<Longrightarrow> pc d t = RwRead \<Longrightarrow> \<not> rw_writes (pc d u)"
    "\<And>u. u \<noteq> t \<Longrightarrow> rw_writes (pc d t) \<Longrightarrow> pc d u \<noteq> RwRead" "pc d t \<noteq> RwOver" "pc d t \<noteq> RwPanic"
    using v unfolding rw_view_def by blast+
  have io: "\<And>u v. u \<noteq> t \<Longrightarrow> v \<noteq> t \<Longrightarrow> rw_writes (pc d u) \<or> rw_ups (pc d u) \<Longrightarrow> rw_writes (pc d v) \<or> rw_ups (pc d v) \<Longrightarrow> u = v"
    "\<And>u v. u \<noteq> t \<Longrightarrow> v \<noteq> t \<Longrightarrow> rw_writes (pc d u) \<Longrightarrow> pc d v \<noteq> RwRead"
    "\<And>u. u \<noteq> t \<Longrightarrow> pc d u \<noteq> RwOver \<and> pc d u \<noteq> RwPanic" "\<And>u. n \<le> u \<Longrightarrow> pc d u = RwIdle"
    using inv t unfolding rw_inv_def by (simp_all add: other) (blast | metis not_less other)+
  have "\<forall>u. n \<le> u \<longrightarrow> pc d u = RwIdle" using io(4) by blast
  moreover have "\<forall>u. pc d u \<noteq> RwOver \<and> pc d u \<noteq> RwPanic" using vt(4,5) io(3) by metis
  moreover have "\<forall>u v. (rw_writes (pc d u) \<or> rw_ups (pc d u)) \<and> (rw_writes (pc d v) \<or> rw_ups (pc d v)) \<longrightarrow> u = v"
    using vt(1) io(1) by metis
  moreover have "\<forall>u v. rw_writes (pc d u) \<longrightarrow> pc d v \<noteq> RwRead"
    using vt(2,3) io(2) writes_not_ups(2) by metis
  moreover have "rw_lock (shared d) = rw_word (card (counted n d)) (\<exists>t. rw_writes (pc d t)) (up_bit (shared d))"
    "(\<exists>t. rw_ups (pc d t)) \<longrightarrow> up_bit (shared d)"
    "up_bit (shared d) \<longrightarrow> (\<exists>t. rw_ups (pc d t)) \<or> (\<exists>t. rw_writes (pc d t))"
    using v unfolding rw_view_def counted_split [OF t, of d] ex_split [of rw_writes d t] ex_split [of rw_ups d t] by blast+
  ultimately show ?thesis unfolding rw_inv_def by blast
qed

lemma rw_inv_start: "rw_start c \<Longrightarrow> rw_inv n c"
  using rw_word_new(2)
  by (auto simp: rw_start_def rw_inv_def RwLock_new_def counted_def rw_counts_def rw_writes_def rw_ups_def up_bit_def)

definition rw_agents_max :: nat where
  "rw_agents_max = 2 ^ 61 - 2"

lemma rw_reach_inv:
  assumes "rw_start c" "(\<lambda>c d. \<exists>t. rw_run rw_agents_max t c d)\<^sup>*\<^sup>* c d"
  shows "rw_inv rw_agents_max d"
  using assms(2)
proof (induction rule: rtranclp_induct)
  case base
  show ?case by (rule rw_inv_start [OF assms(1)])
next
  case (step y z)
  then show ?case using rw_run_inv [of rw_agents_max y _ z] by (auto simp: rw_agents_max_def)
qed

lemma rw_step_data: "rw_step t c d \<Longrightarrow> rw_data (shared d) \<noteq> rw_data (shared c) \<Longrightarrow> pc c t = RwWrite"
  by (auto elim!: rw_stepE simp: rw_ops split: if_splits)

section \<open>Properties\<close>


definition rw_idle :: "nat rw_threads" where
  "rw_idle = \<lparr>shared = RwLock_new 7, pc = (\<lambda>_. RwIdle)\<rparr>"


text \<open>\<open>downgrade_to_upgradeable\<close> stores the word instead of changing its flags.  A reader that is counted but
  has not yet taken its count back is forgotten; when it does, the word wraps below zero.  After the
  upgradeable guard is dropped too, nobody has a guard, yet no writer and no upgradeable reader can ever
  get the lock and every reader panics.\<close>

lemma downgrade_to_upgradeable_race:
  fixes d :: 'a
  defines "m1 \<equiv> snd (try_write_internal False True (RwLock_new d))"
  defines "m2 \<equiv> fst (try_read_step m1)"
  defines "m3 \<equiv> release_reader (downgrade_to_upgradeable m2)"
  defines "m4 \<equiv> UpgradableGuard_drop m3"
  shows "fst (try_write_internal False True (RwLock_new d))" "snd (try_read_step m1) = RwUndo"
    "\<not> fst (try_write_internal False True m4)" "snd (try_read_step m4) = RwOver"
  by (simp_all add: m1_def m2_def m3_def m4_def rw_ops RwLock_new_def downgrade_to_upgradeable_def WRITER_def UPGRADED_def
      READER_def MAX_READERS_def)

end
