(* ===== verification/Spin_Once.thy ===== *)
theory Spin_Once
  imports Atomics
begin

text \<open>
  \<^verbatim>\<open>spin/src/once.rs\<close>: a cell that is initialised once.  The cell is a status and a possibly uninitialised
  value; the threads run \<open>call_once\<close>, \<open>try_call_once\<close>, \<open>wait\<close>, \<open>poll\<close> and \<open>get\<close>.  The closure of a caller
  may return a value, return an error or panic, as it likes.
\<close>

section \<open>The operations\<close>

datatype Status = Incomplete | Running | Complete | Panicked

record 'a Once =
  once_status :: Status
  once_data :: "'a option" \<comment> \<open>\<open>None\<close> is uninitialised memory\<close>

definition Once_new :: "'a Once" where
  "Once_new = \<lparr>once_status = Incomplete, once_data = None\<rparr>"

definition Once_initialized :: "'a \<Rightarrow> 'a Once" where
  "Once_initialized d = \<lparr>once_status = Complete, once_data = Some d\<rparr>"

text \<open>Reading the value without looking at the status; \<open>None\<close> stands for reading uninitialised memory.\<close>

definition force_get :: "'a Once \<Rightarrow> 'a option" where
  "force_get m = once_data m"

definition Once_get :: "'a Once \<Rightarrow> 'a option option" where
  "Once_get m = (case once_status m of Complete \<Rightarrow> Some (force_get m) | _ \<Rightarrow> None)"

definition Once_is_completed :: "'a Once \<Rightarrow> bool" where
  "Once_is_completed m \<longleftrightarrow> once_status m = Complete"

definition Once_try_into_inner :: "'a Once \<Rightarrow> 'a option option" where
  "Once_try_into_inner m = (case once_status m of Complete \<Rightarrow> Some (force_get m) | _ \<Rightarrow> None)"

definition Once_drop :: "'a Once \<Rightarrow> bool" \<comment> \<open>whether the value is dropped in place\<close> where
  "Once_drop m \<longleftrightarrow> once_status m = Complete"

definition Finish_drop :: "'a Once \<Rightarrow> 'a Once" where
  "Finish_drop m = m\<lparr>once_status := Panicked\<rparr>"

text \<open>What the closure does.\<close>

datatype 'a outcome = Value 'a | Failure | Unwinds

text \<open>Where a thread is: outside; in \<open>try_call_once\<close> before its first look; before the exchange of the slow
  path; in \<open>poll\<close> of the slow path or of \<open>wait\<close>; running the closure; with the value written; with the error or
  the panic of the closure not yet recorded; returned with a value, an error or a panic.\<close>

datatype 'a once_pc = OnceIdle | OnceLook | OnceExchange | OncePoll | OnceWait | OnceRun | OnceWritten | OnceFailed
  | OnceUnwind | OnceReturn "'a option" | OnceError | OncePanic

definition try_call_once :: "'a Once \<Rightarrow> 'a Once \<times> 'a once_pc" where
  "try_call_once m = (m, case Once_get m of Some v \<Rightarrow> OnceReturn v | None \<Rightarrow> OnceExchange)"

definition try_call_once_slow :: "'a Once \<Rightarrow> 'a Once \<times> 'a once_pc" where
  "try_call_once_slow m =
     (case compare_exchange Incomplete Running (once_status m) of
        (Inr _, s) \<Rightarrow> (m\<lparr>once_status := s\<rparr>, OnceRun)
      | (Inl Panicked, s) \<Rightarrow> (m\<lparr>once_status := s\<rparr>, OncePanic)
      | (Inl Running, s) \<Rightarrow> (m\<lparr>once_status := s\<rparr>, OncePoll)
      | (Inl Complete, s) \<Rightarrow> (m\<lparr>once_status := s\<rparr>, OnceReturn (force_get m))
      | (Inl Incomplete, s) \<Rightarrow> (m\<lparr>once_status := s\<rparr>, OnceExchange))"

text \<open>One look of \<open>poll\<close>: nothing yet, a value, a panic, or spin; the first argument is where to go when the
  cell is incomplete, the second where to go on spinning.\<close>

definition Once_poll :: "'a once_pc \<Rightarrow> 'a once_pc \<Rightarrow> 'a Once \<Rightarrow> 'a Once \<times> 'a once_pc" where
  "Once_poll none again m =
     (m, case once_status m of
           Incomplete \<Rightarrow> none
         | Running \<Rightarrow> again
         | Complete \<Rightarrow> OnceReturn (force_get m)
         | Panicked \<Rightarrow> OncePanic)"

definition run_closure :: "'a outcome \<Rightarrow> 'a Once \<Rightarrow> 'a Once \<times> 'a once_pc" where
  "run_closure r m =
     (case r of
        Value v \<Rightarrow> (m\<lparr>once_data := Some v\<rparr>, OnceWritten)
      | Failure \<Rightarrow> (m, OnceFailed)
      | Unwinds \<Rightarrow> (m, OnceUnwind))"

definition finish_call :: "'a once_pc \<Rightarrow> 'a Once \<Rightarrow> 'a Once \<times> 'a once_pc" where
  "finish_call p m =
     (case p of
        OnceWritten \<Rightarrow> (m\<lparr>once_status := Complete\<rparr>, OnceReturn (force_get (m\<lparr>once_status := Complete\<rparr>)))
      | OnceFailed \<Rightarrow> (m\<lparr>once_status := Incomplete\<rparr>, OnceError)
      | OnceUnwind \<Rightarrow> (Finish_drop m, OncePanic)
      | _ \<Rightarrow> (m, p))"

section \<open>The threads\<close>

type_synonym 'a once_threads = "('a Once, 'a once_pc) threads"

inductive once_step :: "nat \<Rightarrow> 'a once_threads \<Rightarrow> 'a once_threads \<Rightarrow> bool" where
  call: "pc c t = OnceIdle \<Longrightarrow> p \<in> {OnceLook, OnceWait} \<Longrightarrow> once_step t c (goto t (shared c, p) c)"
| look: "pc c t = OnceLook \<Longrightarrow> once_step t c (goto t (try_call_once (shared c)) c)"
| exchange: "pc c t = OnceExchange \<Longrightarrow> once_step t c (goto t (try_call_once_slow (shared c)) c)"
| poll: "pc c t = OncePoll \<Longrightarrow> once_step t c (goto t (Once_poll OnceExchange OncePoll (shared c)) c)"
| wait: "pc c t = OnceWait \<Longrightarrow> once_step t c (goto t (Once_poll OnceWait OnceWait (shared c)) c)"
| run: "pc c t = OnceRun \<Longrightarrow> once_step t c (goto t (run_closure r (shared c)) c)"
| finish: "pc c t \<in> {OnceWritten, OnceFailed, OnceUnwind} \<Longrightarrow> once_step t c (goto t (finish_call (pc c t) (shared c)) c)"
| again: "pc c t \<in> {OnceReturn v, OnceError} \<Longrightarrow> once_step t c (goto t (shared c, OnceIdle) c)"

inductive_cases once_stepE: "once_step t c d"

definition once_start :: "'a once_threads \<Rightarrow> bool" where
  "once_start c \<longleftrightarrow> shared c = Once_new \<and> (\<forall>t. pc c t = OnceIdle)"

definition initialises :: "'a once_pc \<Rightarrow> bool" where
  "initialises p \<longleftrightarrow> p \<in> {OnceRun, OnceWritten, OnceFailed, OnceUnwind}"

definition once_inv :: "'a once_threads \<Rightarrow> bool" where
  "once_inv c \<longleftrightarrow>
     (\<forall>t u. initialises (pc c t) \<and> initialises (pc c u) \<longrightarrow> t = u) \<and>
     (\<forall>t. initialises (pc c t) \<longrightarrow> once_status (shared c) = Running) \<and>
     (\<forall>t. pc c t = OnceWritten \<longrightarrow> once_data (shared c) \<noteq> None) \<and>
     (once_status (shared c) = Complete \<longrightarrow> once_data (shared c) \<noteq> None) \<and>
     (\<forall>t v. pc c t = OnceReturn v \<longrightarrow> v \<noteq> None \<and> v = once_data (shared c) \<and> once_status (shared c) = Complete)"

lemmas once_ops = try_call_once_def try_call_once_slow_def Once_poll_def run_closure_def finish_call_def Finish_drop_def
  Once_get_def force_get_def initialises_def atomic_defs

text \<open>What a step of one thread does.\<close>

lemma once_step_other: "once_step t c d \<Longrightarrow> u \<noteq> t \<Longrightarrow> pc d u = pc c u"
  by (auto elim!: once_stepE)

lemma once_step_enter:
  "once_step t c d \<Longrightarrow> initialises (pc d t) \<Longrightarrow> \<not> initialises (pc c t) \<Longrightarrow>
   once_status (shared c) = Incomplete \<and> once_status (shared d) = Running"
  by (auto elim!: once_stepE simp: once_ops split: Status.splits outcome.splits if_splits)

lemma once_step_inside:
  "once_step t c d \<Longrightarrow> initialises (pc c t) \<Longrightarrow> initialises (pc d t) \<Longrightarrow> once_status (shared d) = once_status (shared c)"
  by (auto elim!: once_stepE simp: once_ops split: Status.splits outcome.splits if_splits)

lemma once_step_status:
  "once_step t c d \<Longrightarrow> once_status (shared d) \<noteq> once_status (shared c) \<Longrightarrow>
   once_status (shared c) = Incomplete \<or> initialises (pc c t)"
  by (auto elim!: once_stepE simp: once_ops split: Status.splits outcome.splits if_splits)

lemma once_step_data:
  "once_step t c d \<Longrightarrow> once_data (shared d) \<noteq> once_data (shared c) \<Longrightarrow> pc c t = OnceRun \<and> once_data (shared d) \<noteq> None"
  by (auto elim!: once_stepE simp: once_ops split: Status.splits outcome.splits if_splits)

lemma once_step_written: "once_step t c d \<Longrightarrow> pc d t = OnceWritten \<Longrightarrow> once_data (shared d) \<noteq> None"
  by (auto elim!: once_stepE simp: once_ops split: Status.splits outcome.splits if_splits)

lemma once_step_complete:
  "once_step t c d \<Longrightarrow> once_status (shared d) = Complete \<Longrightarrow> once_status (shared c) = Complete \<or> pc c t = OnceWritten"
  by (auto elim!: once_stepE simp: once_ops split: Status.splits outcome.splits if_splits)

lemma once_step_return:
  "once_step t c d \<Longrightarrow> pc d t = OnceReturn v \<Longrightarrow>
   v = once_data (shared d) \<and> once_status (shared d) = Complete \<and> once_data (shared d) = once_data (shared c)"
  by (auto elim!: once_stepE simp: once_ops split: Status.splits outcome.splits if_splits)

lemma once_step_settled:
  assumes "once_step t c d" "\<not> initialises (pc c t)" "once_status (shared c) \<noteq> Incomplete"
  shows "once_status (shared d) = once_status (shared c) \<and> once_data (shared d) = once_data (shared c)"
  using once_step_status [OF assms(1)] once_step_data [OF assms(1)] assms(2,3) by (auto simp: initialises_def)

lemma once_inv_rules:
  assumes "once_inv c"
  shows "initialises (pc c t) \<Longrightarrow> initialises (pc c u) \<Longrightarrow> t = u"
    and "initialises (pc c t) \<Longrightarrow> once_status (shared c) = Running"
    and "pc c t = OnceWritten \<Longrightarrow> once_data (shared c) \<noteq> None"
    and "once_status (shared c) = Complete \<Longrightarrow> once_data (shared c) \<noteq> None"
    and "pc c t = OnceReturn v \<Longrightarrow> v = once_data (shared c) \<and> once_status (shared c) = Complete"
  using assms unfolding once_inv_def by blast+

lemma once_step_unsettled:
  assumes inv: "once_inv c" and step: "once_step t c d" and u: "u \<noteq> t" "initialises (pc c u)"
  shows "once_status (shared d) = Running \<and> once_data (shared d) = once_data (shared c) \<and> \<not> initialises (pc d t)"
proof -
  have r: "once_status (shared c) = Running" using once_inv_rules(2) [OF inv u(2)] .
  have n: "\<not> initialises (pc c t)" using once_inv_rules(1) [OF inv u(2)] u(1) by blast
  show ?thesis using once_step_settled [OF step n] once_step_enter [OF step] r n by auto
qed

lemma once_step_completed:
  assumes inv: "once_inv c" and step: "once_step t c d" and st: "once_status (shared c) = Complete"
  shows "once_status (shared d) = Complete \<and> once_data (shared d) = once_data (shared c)"
proof -
  have "\<not> initialises (pc c t)" using once_inv_rules(2) [OF inv] st by force
  then show ?thesis using once_step_settled [OF step] st by simp
qed

lemma once_step_inv:
  assumes inv: "once_inv c" and step: "once_step t c d"
  shows "once_inv d"
proof -
  note R = once_inv_rules [OF inv]
  note other = once_step_other [OF step]
  have A: "u = t" if "initialises (pc d t)" "initialises (pc d u)" for u
    using once_step_unsettled [OF inv step] that other by metis
  have one: "u = v" if "initialises (pc d u)" "initialises (pc d v)" for u v
    using A R(1) that other by metis
  have running: "once_status (shared d) = Running" if "initialises (pc d u)" for u
    using that other once_step_unsettled [OF inv step, of u] once_step_enter [OF step] once_step_inside [OF step] R(2)
    by metis
  have written: "once_data (shared d) \<noteq> None" if "pc d u = OnceWritten" for u
  proof (cases "u = t")
    case True
    then show ?thesis using once_step_written [OF step] that by simp
  next
    case False
    then have w: "pc c u = OnceWritten" using that other by simp
    then have "initialises (pc c u)" by (simp add: initialises_def)
    from once_step_unsettled [OF inv step False this] R(3) [OF w] show ?thesis by simp
  qed
  have complete: "once_data (shared d) \<noteq> None" if "once_status (shared d) = Complete"
    using once_step_complete [OF step that] once_step_completed [OF inv step] R(4) R(3) [of t] once_step_data [OF step] by metis
  have "v \<noteq> None \<and> v = once_data (shared d) \<and> once_status (shared d) = Complete" if "pc d u = OnceReturn v" for u v
  proof (cases "u = t")
    case True
    then show ?thesis using once_step_return [OF step] that complete by blast
  next
    case False
    then have w: "v = once_data (shared c)" "once_status (shared c) = Complete" using that other R(5) by force+
    then show ?thesis using once_step_completed [OF inv step] complete by simp
  qed
  then show ?thesis unfolding once_inv_def using one running written complete by blast
qed

interpretation once: mutex_protocol once_step once_start once_inv "\<lambda>c t. initialises (pc c t)" "\<lambda>c. once_data (shared c)"
proof
  show "once_inv c" if "once_start c" for c :: "'a once_threads"
    using that by (auto simp: once_start_def once_inv_def initialises_def Once_new_def)
  show "once_inv d" if "once_inv c" "once_step t c d" for c d :: "'a once_threads" and t
    by (rule once_step_inv [OF that])
  show "t = u" if "once_inv c" "initialises (pc c t)" "initialises (pc c u)" for c :: "'a once_threads" and t u
    using that by (auto simp: once_inv_def)
  show "initialises (pc c t)" if "once_step t c d" "once_data (shared d) \<noteq> once_data (shared c)"
    for c d :: "'a once_threads" and t
    using once_step_data [OF that] by (simp add: initialises_def)
  show "initialises (pc d u) = initialises (pc c u)" if "once_step t c d" "u \<noteq> t" for c d :: "'a once_threads" and t u
    using once_step_other [OF that] by simp
qed

lemma once_complete_forever:
  "(\<lambda>c d. \<exists>t. once_step t c d)\<^sup>*\<^sup>* c d \<Longrightarrow> once_inv c \<Longrightarrow> once_status (shared c) = Complete \<Longrightarrow>
   once_inv d \<and> once_status (shared d) = Complete \<and> once_data (shared d) = once_data (shared c)"
proof (induction rule: rtranclp_induct)
  case (step y z)
  then obtain t where "once_step t y z" "once_inv y" "once_status (shared y) = Complete" by auto
  then show ?case using once_step_completed [of y t z] once_step_inv [of y t z] step by simp
qed simp

section \<open>Properties\<close>

text \<open>C17: However many threads call call_once, try_call_once and wait on a new Once, at most one runs a closure
  at a time; every thread that is given the value is given an initialised one, the one in the cell, and
  from then on the cell is complete, get returns that same value and it never changes again.\<close>

theorem once_initialised_once:
  assumes "once_start c" "(\<lambda>c d. \<exists>t. once_step t c d)\<^sup>*\<^sup>* c d"
  shows "(\<forall>t u. initialises (pc d t) \<and> initialises (pc d u) \<longrightarrow> t = u) \<and>
    (\<forall>t v e. pc d t = OnceReturn v \<and> (\<lambda>c d. \<exists>t. once_step t c d)\<^sup>*\<^sup>* d e \<longrightarrow>
       v \<noteq> None \<and> Once_is_completed (shared e) \<and> Once_get (shared e) = Some v) \<and>
    Once_get (shared d) \<noteq> Some None \<and> Once_try_into_inner (shared d) \<noteq> Some None"
proof -
  have I: "once_inv d" using once.steps_ok [of "\<lambda>_. True" c d] once.start_ok [OF assms(1)] assms(2) by simp
  have "v \<noteq> None \<and> Once_is_completed (shared e) \<and> Once_get (shared e) = Some v"
    if "pc d t = OnceReturn v" "(\<lambda>c d. \<exists>t. once_step t c d)\<^sup>*\<^sup>* d e" for t v e
  proof -
    have v: "v = once_data (shared d)" "once_status (shared d) = Complete" using once_inv_rules(5) [OF I that(1)] by simp_all
    have "once_data (shared d) \<noteq> None" using once_inv_rules(4) [OF I v(2)] .
    with v once_complete_forever [OF that(2) I v(2)] show ?thesis
      by (simp add: Once_is_completed_def Once_get_def force_get_def)
  qed
  moreover have "Once_get (shared d) \<noteq> Some None" "Once_try_into_inner (shared d) \<noteq> Some None"
    using once_inv_rules(4) [OF I] by (auto simp: Once_get_def Once_try_into_inner_def force_get_def split: Status.splits)
  ultimately show ?thesis using once_inv_rules(1) [OF I] by blast
qed

definition once_idle :: "nat once_threads" where
  "once_idle = \<lparr>shared = Once_new, pc = (\<lambda>_. OnceIdle)\<rparr>"

definition once_ran :: "nat once_threads" where
  "once_ran = \<lparr>shared = \<lparr>once_status = Complete, once_data = Some 7\<rparr>, pc = (\<lambda>_. OnceIdle)(4 := OnceReturn (Some 7))\<rparr>"

lemma once_steps_next:
  "(\<lambda>c d. \<exists>t. once_step t c d)\<^sup>*\<^sup>* c d \<Longrightarrow> once_step t d e \<Longrightarrow> (\<lambda>c d. \<exists>t. once_step t c d)\<^sup>*\<^sup>* c e"
  by (rule rtranclp.rtrancl_into_rtrancl) auto

lemma once_ran_reached: "(\<lambda>c d. \<exists>t. once_step t c d)\<^sup>*\<^sup>* once_idle once_ran"
proof -
  define c1 where "c1 = goto 4 (shared once_idle, OnceLook) once_idle"
  define c2 where "c2 = goto 4 (try_call_once (shared c1)) c1"
  define c3 where "c3 = goto 4 (try_call_once_slow (shared c2)) c2"
  define c4 where "c4 = goto 4 (run_closure (Value 7) (shared c3)) c3"
  define c5 where "c5 = goto 4 (finish_call (pc c4 4) (shared c4)) c4"
  note d = once_idle_def Once_new_def once_ops goto_def
  have e: "c1 = once_idle\<lparr>pc := (pc once_idle)(4 := OnceLook)\<rparr>" by (simp add: c1_def d)
  have "once_step 4 once_idle c1" unfolding c1_def by (rule once_step.call) (simp_all add: d)
  from once_steps_next [OF rtranclp.rtrancl_refl this]
  have "(\<lambda>c d. \<exists>t. once_step t c d)\<^sup>*\<^sup>* once_idle c2"
    unfolding c2_def by (rule once_steps_next [OF _ once_step.look]) (simp add: e)
  then have "(\<lambda>c d. \<exists>t. once_step t c d)\<^sup>*\<^sup>* once_idle c3"
    unfolding c3_def by (rule once_steps_next [OF _ once_step.exchange]) (simp add: c2_def e d)
  then have "(\<lambda>c d. \<exists>t. once_step t c d)\<^sup>*\<^sup>* once_idle c4"
    unfolding c4_def by (rule once_steps_next [OF _ once_step.run]) (simp add: c3_def c2_def e d)
  then have "(\<lambda>c d. \<exists>t. once_step t c d)\<^sup>*\<^sup>* once_idle c5"
    unfolding c5_def by (rule once_steps_next [OF _ once_step.finish]) (simp add: c4_def c3_def c2_def e d)
  moreover have "c5 = once_ran" by (simp add: c5_def c4_def c3_def c2_def e d once_ran_def)
  ultimately show ?thesis by simp
qed

theorem once_initialised_once_witness: "Once_get (shared once_ran) = Some (Some 7)"
proof -
  have s: "once_start once_idle" by (simp add: once_start_def once_idle_def)
  have "pc once_ran 4 = OnceReturn (Some 7)" by (simp add: once_ran_def)
  then show ?thesis using once_initialised_once [OF s once_ran_reached] by blast
qed

end
