(* ===== verification/Inode.thy ===== *)
theory Inode
  imports Rust_String
begin

text \<open>
  \<^verbatim>\<open>fs/file.rs\<close> and the part of \<^verbatim>\<open>fs/vfs.rs\<close> it implements: the four kinds of inode of the kernel, regular
  files held in memory, the terminal, directory entries and pipes, with their \<open>read_at\<close> and \<open>write_at\<close>.
  The terminal talks to the firmware; what its console answers is the parameter \<open>getchar\<close>, the n-th answer.
\<close>

section \<open>Errors, times and flags\<close>

datatype FsError =
    NotSupported | NotFile | IsDir | NotDir | EntryNotFound | EntryExist | NotSameFs | InvalidParam
  | NoDeviceSpace | DirRemoved | DirNotEmpty | WrongFs | DeviceError | IOCTLError | NoDevice | Again
  | SymLoop | Busy | Interrupted

type_synonym 'a fs_result = "FsError + 'a"

record Timespec =
  ts_sec :: "64 word"
  ts_nsec :: "32 word"

definition Timespec_default :: Timespec where
  "Timespec_default = \<lparr>ts_sec = 0, ts_nsec = 0\<rparr>"

type_synonym OpenFlags = u32

definition OF_RDONLY :: OpenFlags where "OF_RDONLY = 0"
definition OF_WRONLY :: OpenFlags where "OF_WRONLY = push_bit 0 1"
definition OF_RDWR :: OpenFlags where "OF_RDWR = push_bit 1 1"
definition OF_CREATE :: OpenFlags where "OF_CREATE = push_bit 6 1"
definition OF_EXCLUSIVE :: OpenFlags where "OF_EXCLUSIVE = push_bit 7 1"
definition OF_NOCTTY :: OpenFlags where "OF_NOCTTY = push_bit 8 1"
definition OF_EXCL :: OpenFlags where "OF_EXCL = push_bit 9 1"
definition OF_NONBLOCK :: OpenFlags where "OF_NONBLOCK = push_bit 11 1"
definition OF_TEXT :: OpenFlags where "OF_TEXT = push_bit 14 1"
definition OF_BINARY :: OpenFlags where "OF_BINARY = push_bit 15 1"
definition OF_DSYNC :: OpenFlags where "OF_DSYNC = push_bit 16 1"
definition OF_NOFOLLOW :: OpenFlags where "OF_NOFOLLOW = push_bit 17 1"
definition OF_CLOEXEC :: OpenFlags where "OF_CLOEXEC = push_bit 19 1"
definition OF_DIR :: OpenFlags where "OF_DIR = push_bit 21 1"

definition OpenFlags_all :: OpenFlags where
  "OpenFlags_all = foldr (OR)
     [OF_RDONLY, OF_WRONLY, OF_RDWR, OF_CREATE, OF_EXCLUSIVE, OF_NOCTTY, OF_EXCL, OF_NONBLOCK, OF_TEXT,
      OF_BINARY, OF_DSYNC, OF_NOFOLLOW, OF_CLOEXEC, OF_DIR] 0"

lemmas OpenFlags_defs = OF_RDONLY_def OF_WRONLY_def OF_RDWR_def OF_CREATE_def OF_EXCLUSIVE_def OF_NOCTTY_def
  OF_EXCL_def OF_NONBLOCK_def OF_TEXT_def OF_BINARY_def OF_DSYNC_def OF_NOFOLLOW_def OF_CLOEXEC_def OF_DIR_def

definition OpenFlags_contains :: "OpenFlags \<Rightarrow> OpenFlags \<Rightarrow> bool" where
  "OpenFlags_contains f g \<longleftrightarrow> f AND g = g"

definition OpenFlags_readable :: "OpenFlags \<Rightarrow> bool" where
  "OpenFlags_readable f \<longleftrightarrow> OpenFlags_contains f OF_RDONLY \<or> OpenFlags_contains f OF_RDWR"

definition OpenFlags_writable :: "OpenFlags \<Rightarrow> bool" where
  "OpenFlags_writable f \<longleftrightarrow> OpenFlags_contains f OF_WRONLY \<or> OpenFlags_contains f OF_RDWR"

definition OpenFlags_new :: "u32 \<Rightarrow> OpenFlags" where
  "OpenFlags_new flags = flags AND OpenFlags_all"

text \<open>\<open>RDONLY\<close> is no bit at all, so every set of flags counts as readable.\<close>

lemma OpenFlags_readable_always: "OpenFlags_readable f"
  by (simp add: OpenFlags_readable_def OpenFlags_contains_def OF_RDONLY_def)

section \<open>The inodes\<close>

record RegFileINode =
  rf_readable :: bool
  rf_writable :: bool
  rf_dir :: rstr
  rf_name :: rstr
  rf_atime :: Timespec
  rf_mtime :: Timespec
  rf_ctime :: Timespec
  rf_flags :: OpenFlags
  rf_file :: "u8 list"

definition RegFileINode_new_from_existed :: "rstr \<Rightarrow> rstr \<Rightarrow> OpenFlags \<Rightarrow> bool \<Rightarrow> bool \<Rightarrow> u8 list \<Rightarrow> RegFileINode" where
  "RegFileINode_new_from_existed dir name flags r w content =
     \<lparr>rf_readable = r, rf_writable = w, rf_dir = dir, rf_name = name, rf_atime = Timespec_default,
      rf_mtime = Timespec_default, rf_ctime = Timespec_default, rf_flags = flags, rf_file = content\<rparr>"

definition RegFileINode_new :: "rstr \<Rightarrow> rstr \<Rightarrow> OpenFlags \<Rightarrow> bool \<Rightarrow> bool \<Rightarrow> RegFileINode" where
  "RegFileINode_new dir name flags r w =
     \<lparr>rf_readable = r, rf_writable = w, rf_dir = dir, rf_name = name, rf_atime = Timespec_default,
      rf_mtime = Timespec_default, rf_ctime = Timespec_default, rf_flags = flags, rf_file = []\<rparr>"

definition RegFileINode_read_at :: "usize \<Rightarrow> u8 list \<Rightarrow> RegFileINode \<Rightarrow> (usize fs_result \<times> u8 list) res" where
  "RegFileINode_read_at offset buf f =
     (if \<not> rf_readable f then Inr (Inl InvalidParam, buf)
      else if length (rf_file f) < unat offset then Inl OutOfBounds
      else let rest = drop (unat offset) (rf_file f);
               len = min (length buf) (length rest)
           in Inr (Inr (of_nat len), overwrite 0 (take len rest) buf))"

text \<open>The loop of \<open>write_at\<close>; \<open>pos + offset\<close> wraps.\<close>

fun reg_write_loop :: "usize \<Rightarrow> usize \<Rightarrow> u8 list \<Rightarrow> u8 list \<Rightarrow> u8 list" where
  "reg_write_loop offset pos [] content = content"
| "reg_write_loop offset pos (b # bs) content =
     reg_write_loop offset (pos + 1) bs
       (if length content \<le> unat (pos + offset) then content @ [b] else content[unat (pos + offset) := b])"

definition RegFileINode_write_at :: "usize \<Rightarrow> u8 list \<Rightarrow> RegFileINode \<Rightarrow> usize fs_result \<times> RegFileINode" where
  "RegFileINode_write_at offset buf f =
     (if \<not> rf_writable f then (Inl InvalidParam, f)
      else (Inr (of_nat (length buf)), f\<lparr>rf_file := reg_write_loop offset 0 buf (rf_file f)\<rparr>))"

record TerminalINode =
  tn_readable :: bool
  tn_writable :: bool
  tn_file :: "u8 list"

definition TerminalINode_new_stdin :: TerminalINode where
  "TerminalINode_new_stdin = \<lparr>tn_readable = True, tn_writable = False, tn_file = []\<rparr>"

definition TerminalINode_new_stdout :: TerminalINode where
  "TerminalINode_new_stdout = \<lparr>tn_readable = False, tn_writable = True, tn_file = []\<rparr>"

definition TerminalINode_new_stderr :: TerminalINode where
  "TerminalINode_new_stderr = \<lparr>tn_readable = False, tn_writable = True, tn_file = []\<rparr>"

text \<open>The console: how many characters the kernel has asked for, and the characters it has printed.\<close>

record Console =
  con_asked :: nat
  con_out :: rstr

definition console_getchar :: "(nat \<Rightarrow> usize) \<Rightarrow> (Console, usize) kernel" where
  "console_getchar getchar =
     kbind (kget (\<lambda>c. getchar (con_asked c))) (\<lambda>ch.
     kthen (kmodify (\<lambda>c. c\<lparr>con_asked := con_asked c + 1\<rparr>)) (kret ch))"

definition write_str :: "rstr \<Rightarrow> (Console, unit) kernel" where
  "write_str s = kfold (\<lambda>ch _. kmodify (\<lambda>c. c\<lparr>con_out := con_out c @ [ch]\<rparr>)) s ()"

definition terminal_read :: "(nat \<Rightarrow> usize) \<Rightarrow> u8 list \<Rightarrow> (Console, usize fs_result \<times> u8 list) kernel" where
  "terminal_read getchar buf =
     kbind (console_getchar getchar) (\<lambda>ch.
     kthen (kcheck OutOfBounds (0 < length buf)) (kret (Inr 1, buf[0 := ucast ch])))"

definition terminal_write :: "u8 list \<Rightarrow> (Console, usize fs_result) kernel" where
  "terminal_write buf =
     (case from_utf8 buf of
        None \<Rightarrow> kpanic UnwrapErr
      | Some s \<Rightarrow> kthen (write_str s) (kret (Inr (of_nat (length buf)))))"

record PipeINode =
  pi_st :: usize
  pi_buf :: "u8 list"

definition PipeINode_new_pipe :: PipeINode where
  "PipeINode_new_pipe = \<lparr>pi_st = 0, pi_buf = []\<rparr>"

definition PipeINode_read_at :: "usize \<Rightarrow> u8 list \<Rightarrow> PipeINode \<Rightarrow> usize fs_result \<times> u8 list" where
  "PipeINode_read_at offset buf p =
     (if unat offset > length (pi_buf p) then (Inr 0, buf)
      else let rest = drop (unat offset) (pi_buf p);
               len = min (length rest) (length buf)
           in (Inr (of_nat len), overwrite 0 (take len rest) buf))"

definition PipeINode_write_at :: "usize \<Rightarrow> u8 list \<Rightarrow> PipeINode \<Rightarrow> usize fs_result \<times> PipeINode" where
  "PipeINode_write_at offset buf p = (Inr (of_nat (length buf)), p\<lparr>pi_buf := pi_buf p @ buf\<rparr>)"

record DentryInode =
  di_readable :: bool
  di_writable :: bool
  di_dir :: rstr
  di_name :: rstr
  di_atime :: Timespec
  di_mtime :: Timespec
  di_ctime :: Timespec
  di_flags :: OpenFlags
  di_file :: "u8 list"

definition DentryInode_new_from_existed :: "rstr \<Rightarrow> rstr \<Rightarrow> OpenFlags \<Rightarrow> bool \<Rightarrow> bool \<Rightarrow> u8 list \<Rightarrow> DentryInode" where
  "DentryInode_new_from_existed dir name flags r w content =
     \<lparr>di_readable = r, di_writable = w, di_dir = dir, di_name = name, di_atime = Timespec_default,
      di_mtime = Timespec_default, di_ctime = Timespec_default, di_flags = flags, di_file = content\<rparr>"

definition DentryInode_new :: "rstr \<Rightarrow> rstr \<Rightarrow> OpenFlags \<Rightarrow> bool \<Rightarrow> bool \<Rightarrow> DentryInode" where
  "DentryInode_new dir name flags r w =
     \<lparr>di_readable = r, di_writable = w, di_dir = dir, di_name = name, di_atime = Timespec_default,
      di_mtime = Timespec_default, di_ctime = Timespec_default, di_flags = flags, di_file = []\<rparr>"

text \<open>\<^verbatim>\<open>dyn INode\<close> is one of the four.\<close>

datatype INode = Reg RegFileINode | Terminal TerminalINode | Dentry DentryInode | Pipe PipeINode

definition TerminalINode_read_at ::
  "(nat \<Rightarrow> usize) \<Rightarrow> u8 list \<Rightarrow> TerminalINode \<Rightarrow> (Console, usize fs_result \<times> u8 list) kernel" where
  "TerminalINode_read_at getchar buf t =
     (if \<not> tn_readable t then kret (Inl InvalidParam, buf) else terminal_read getchar buf)"

definition TerminalINode_write_at :: "u8 list \<Rightarrow> TerminalINode \<Rightarrow> (Console, usize fs_result) kernel" where
  "TerminalINode_write_at buf t = (if \<not> tn_writable t then kret (Inl InvalidParam) else terminal_write buf)"

definition DentryInode_read_at :: "u8 list \<Rightarrow> usize fs_result \<times> u8 list" where
  "DentryInode_read_at buf = (Inl InvalidParam, buf)"

definition DentryInode_write_at :: "DentryInode \<Rightarrow> usize fs_result \<times> DentryInode" where
  "DentryInode_write_at d = (Inl InvalidParam, d)"

fun INode_read_at ::
  "(nat \<Rightarrow> usize) \<Rightarrow> usize \<Rightarrow> u8 list \<Rightarrow> INode \<Rightarrow> (Console, usize fs_result \<times> u8 list) kernel" where
  "INode_read_at getchar offset buf (Reg f) = kres (RegFileINode_read_at offset buf f)"
| "INode_read_at getchar offset buf (Terminal t) = TerminalINode_read_at getchar buf t"
| "INode_read_at getchar offset buf (Dentry d) = kret (DentryInode_read_at buf)"
| "INode_read_at getchar offset buf (Pipe p) = kret (PipeINode_read_at offset buf p)"

fun INode_write_at :: "usize \<Rightarrow> u8 list \<Rightarrow> INode \<Rightarrow> (Console, usize fs_result \<times> INode) kernel" where
  "INode_write_at offset buf (Reg f) = (case RegFileINode_write_at offset buf f of (r, f) \<Rightarrow> kret (r, Reg f))"
| "INode_write_at offset buf (Terminal t) = kbind (TerminalINode_write_at buf t) (\<lambda>r. kret (r, Terminal t))"
| "INode_write_at offset buf (Dentry d) = (case DentryInode_write_at d of (r, d) \<Rightarrow> kret (r, Dentry d))"
| "INode_write_at offset buf (Pipe p) = (case PipeINode_write_at offset buf p of (r, p) \<Rightarrow> kret (r, Pipe p))"

fun file_size :: "INode \<Rightarrow> usize" where
  "file_size (Reg f) = of_nat (length (rf_file f))"
| "file_size (Terminal t) = 0"
| "file_size (Dentry d) = of_nat (length (di_file d))"
| "file_size (Pipe p) = of_nat (length (pi_buf p))"

fun file_data :: "INode \<Rightarrow> u8 list" where
  "file_data (Reg f) = rf_file f"
| "file_data (Terminal t) = tn_file t"
| "file_data (Dentry d) = di_file d"
| "file_data (Pipe p) = pi_buf p"

definition str_of :: "string \<Rightarrow> rstr" where
  "str_of s = map of_char s"

fun file_name :: "INode \<Rightarrow> rstr" where
  "file_name (Reg f) = rf_name f"
| "file_name (Terminal t) = str_of ''null''"
| "file_name (Dentry d) = di_name d"
| "file_name (Pipe p) = str_of ''null''"

fun is_pipe :: "INode \<Rightarrow> bool" where
  "is_pipe (Pipe p) = True"
| "is_pipe _ = False"

fun INode_unlink :: "INode \<Rightarrow> unit fs_result \<times> INode" where
  "INode_unlink (Reg f) = (Inr (), Reg (f\<lparr>rf_name := str_of ''null''\<rparr>))"
| "INode_unlink (Dentry d) = (Inr (), Dentry (d\<lparr>di_name := str_of ''null''\<rparr>))"
| "INode_unlink i = (Inl NotSupported, i)"

text \<open>What \<^verbatim>\<open>vfs.rs\<close> provides for an inode that does not override it, as none of the four does.\<close>

definition INode_find :: "rstr \<Rightarrow> INode \<Rightarrow> nat fs_result" where
  "INode_find name i = Inl NotSupported"

section \<open>What reading and writing do\<close>

lemma overwrite_Cons: "k \<le> length c \<Longrightarrow> overwrite k (b # bs) c = overwrite (k + 1) bs (overwrite k [b] c)"
  by (simp add: overwrite_def min_def add.commute)

text \<open>Writing at or before the end overwrites and extends; writing past the end appends at the end.\<close>

lemma write_loop_eq:
  "unat pos + unat offset + length bs < 2 ^ 64 \<Longrightarrow>
   reg_write_loop offset pos bs content = overwrite (min (unat pos + unat offset) (length content)) bs content"
proof (induction bs arbitrary: pos content)
  case (Cons b bs)
  let ?k = "unat pos + unat offset"
  have k: "unat (pos + offset) = ?k" using Cons.prems by (simp add: unat_add_small)
  have p: "unat (pos + 1) = unat pos + 1" using Cons.prems by (subst unat_add_small) simp_all
  let ?c = "if length content \<le> ?k then content @ [b] else content[?k := b]"
  have c: "?c = overwrite (min ?k (length content)) [b] content"
    by (auto simp: overwrite_def min_def upd_conv_take_nth_drop not_le)
  have "min (?k + 1) (length ?c) = min ?k (length content) + 1" by auto
  then have "reg_write_loop offset (pos + 1) bs ?c = overwrite (min ?k (length content) + 1) bs ?c"
    using Cons.IH [of "pos + 1" ?c] Cons.prems p by simp
  then show ?case unfolding reg_write_loop.simps k c by (subst overwrite_Cons) simp_all
qed simp

lemma RegFileINode_write_at_eq:
  assumes "rf_writable f" "unat offset \<le> length (rf_file f)" "unat offset + length buf < 2 ^ 64"
  shows "RegFileINode_write_at offset buf f = (Inr (of_nat (length buf)), f\<lparr>rf_file := overwrite (unat offset) buf (rf_file f)\<rparr>)"
  using assms by (simp add: RegFileINode_write_at_def write_loop_eq min_def)

lemma RegFileINode_write_gap:
  assumes "rf_writable f" "length (rf_file f) \<le> unat offset" "unat offset + length buf < 2 ^ 64"
  shows "RegFileINode_write_at offset buf f = (Inr (of_nat (length buf)), f\<lparr>rf_file := rf_file f @ buf\<rparr>)"
  using assms by (simp add: RegFileINode_write_at_def write_loop_eq min_def overwrite_def)

lemma take_min_length: "take (min n (length xs)) xs = take n xs"
  by (simp add: min_def)

lemma RegFileINode_read_at_eq:
  assumes "rf_readable f" "unat offset \<le> length (rf_file f)"
  shows "RegFileINode_read_at offset buf f =
    (let d = take (length buf) (drop (unat offset) (rf_file f)) in Inr (Inr (of_nat (length d)), overwrite 0 d buf))"
  using assms unfolding RegFileINode_read_at_def Let_def take_min_length by (simp add: min.commute)

lemma wpe_console_getchar [simp]:
  "wpe (console_getchar g) Q E c = Q (g (con_asked c)) (c\<lparr>con_asked := con_asked c + 1\<rparr>)"
  by (simp add: console_getchar_def)

lemma write_str_eq: "write_str t c = Inr ((), c\<lparr>con_out := con_out c @ t\<rparr>)"
  unfolding write_str_def by (induction t arbitrary: c) (simp_all add: kdefs)

text \<open>No operation but the terminal touches the console, and a buffer keeps its length.\<close>

lemma read_at_length: "wlp (INode_read_at g off buf i) (\<lambda>(r, b) c. length b = length buf) c"
  by (cases i) (auto simp: RegFileINode_read_at_def TerminalINode_read_at_def terminal_read_def DentryInode_read_at_def
      PipeINode_read_at_def Let_def overwrite_def split: if_splits)

end
