(* ===== verification/Open_File.thy ===== *)
theory Open_File
  imports Inode Spin_Mutex User_Memory
begin

text \<open>
  The open files of \<^verbatim>\<open>task/mod.rs\<close>: \<open>OpenFile\<close>, the descriptor table \<open>FdManager\<close> and the global
  \<open>GlobalDentryCache\<close>, and \<open>File\<close> of \<^verbatim>\<open>fs/file.rs\<close>.  An \<^verbatim>\<open>Arc<Mutex<..>>\<close> is an index into a store of mutexes; the store
  only grows, since nothing observes that such an object is freed.  The kernel runs on one hart, so a
  lock is \<^const>\<open>SpinMutex_lock\<close>: taking one that is held panics.
\<close>

section \<open>The state\<close>

record OpenFile =
  of_offset :: usize
  of_status_flags :: u32
  of_readable :: bool
  of_writable :: bool
  of_inode :: nat

record FdManager =
  fd_array :: "nat list"

record file_state = mm_state +
  inodes :: "INode SpinMutex list"
  open_files :: "OpenFile SpinMutex list"
  dentry_cache :: "(rstr \<rightharpoonup> nat) SpinMutex"
  console :: Console

type_synonym ('z, 'a) fs_kernel = "('z file_state_scheme, 'a) kernel"

definition new_inode :: "INode \<Rightarrow> ('z, nat) fs_kernel" where
  "new_inode i =
     kbind (kget (\<lambda>s. length (inodes s))) (\<lambda>r.
     kthen (kmodify (\<lambda>s. s\<lparr>inodes := inodes s @ [SpinMutex_new i]\<rparr>)) (kret r))"

definition new_file :: "OpenFile \<Rightarrow> ('z, nat) fs_kernel" where
  "new_file f =
     kbind (kget (\<lambda>s. length (open_files s))) (\<lambda>r.
     kthen (kmodify (\<lambda>s. s\<lparr>open_files := open_files s @ [SpinMutex_new f]\<rparr>)) (kret r))"

text \<open>Taking a lock and dropping the guard.\<close>

definition lock_inode :: "nat \<Rightarrow> ('z, unit) fs_kernel" where
  "lock_inode r = kzoom (\<lambda>s. inodes s ! r) (\<lambda>m s. s\<lparr>inodes := (inodes s)[r := m]\<rparr>) SpinMutex_lock"

definition unlock_inode :: "nat \<Rightarrow> ('z, unit) fs_kernel" where
  "unlock_inode r = kmodify (\<lambda>s. s\<lparr>inodes := (inodes s)[r := SpinMutexGuard_drop (inodes s ! r)]\<rparr>)"

definition lock_file :: "nat \<Rightarrow> ('z, unit) fs_kernel" where
  "lock_file r = kzoom (\<lambda>s. open_files s ! r) (\<lambda>m s. s\<lparr>open_files := (open_files s)[r := m]\<rparr>) SpinMutex_lock"

definition unlock_file :: "nat \<Rightarrow> ('z, unit) fs_kernel" where
  "unlock_file r = kmodify (\<lambda>s. s\<lparr>open_files := (open_files s)[r := SpinMutexGuard_drop (open_files s ! r)]\<rparr>)"

definition lock_dentries :: "('z, unit) fs_kernel" where
  "lock_dentries = kzoom dentry_cache (\<lambda>m s. s\<lparr>dentry_cache := m\<rparr>) SpinMutex_lock"

definition unlock_dentries :: "('z, unit) fs_kernel" where
  "unlock_dentries = kmodify (\<lambda>s. s\<lparr>dentry_cache := SpinMutexGuard_drop (dentry_cache s)\<rparr>)"

text \<open>\<open>locked\<close> holds a lock while its body runs: a guard whose scope is the body.\<close>

definition locked :: "('s, unit) kernel \<Rightarrow> ('s, unit) kernel \<Rightarrow> ('s, 'a) kernel \<Rightarrow> ('s, 'a) kernel" where
  "locked take_it drop_it body = kthen take_it (kbind body (\<lambda>a. kthen drop_it (kret a)))"

definition the_inode :: "nat \<Rightarrow> 'z file_state_scheme \<Rightarrow> INode" where
  "the_inode r s = sm_data (inodes s ! r)"

definition the_file :: "nat \<Rightarrow> 'z file_state_scheme \<Rightarrow> OpenFile" where
  "the_file r s = sm_data (open_files s ! r)"

definition set_inode :: "nat \<Rightarrow> INode \<Rightarrow> ('z, unit) fs_kernel" where
  "set_inode r i = kmodify (\<lambda>s. s\<lparr>inodes := (inodes s)[r := SpinMutexGuard_deref_mut (\<lambda>_. i) (inodes s ! r)]\<rparr>)"

definition modify_file :: "nat \<Rightarrow> (OpenFile \<Rightarrow> OpenFile) \<Rightarrow> ('z, unit) fs_kernel" where
  "modify_file r f = kmodify (\<lambda>s. s\<lparr>open_files := (open_files s)[r := SpinMutexGuard_deref_mut f (open_files s ! r)]\<rparr>)"

text \<open>\<^verbatim>\<open>inode.lock().read_at(..)\<close> and \<^verbatim>\<open>inode.lock().write_at(..)\<close>.\<close>

definition inode_read :: "(nat \<Rightarrow> usize) \<Rightarrow> nat \<Rightarrow> usize \<Rightarrow> u8 list \<Rightarrow> ('z, usize fs_result \<times> u8 list) fs_kernel" where
  "inode_read getchar r offset buf =
     locked (lock_inode r) (unlock_inode r)
       (kbind (kget (the_inode r)) (\<lambda>i.
        kzoom console (\<lambda>c s. s\<lparr>console := c\<rparr>) (INode_read_at getchar offset buf i)))"

definition inode_write :: "nat \<Rightarrow> usize \<Rightarrow> u8 list \<Rightarrow> ('z, usize fs_result) fs_kernel" where
  "inode_write r offset buf =
     locked (lock_inode r) (unlock_inode r)
       (kbind (kget (the_inode r)) (\<lambda>i.
        kbind (kzoom console (\<lambda>c s. s\<lparr>console := c\<rparr>) (INode_write_at offset buf i)) (\<lambda>(res, i).
        kthen (set_inode r i) (kret res))))"

definition inode_size :: "nat \<Rightarrow> ('z, usize) fs_kernel" where
  "inode_size r = locked (lock_inode r) (unlock_inode r) (kget (\<lambda>s. file_size (the_inode r s)))"

section \<open>Open files\<close>

definition OpenFile_new_from_inode :: "bool \<Rightarrow> bool \<Rightarrow> nat \<Rightarrow> OpenFile" where
  "OpenFile_new_from_inode readable writable i =
     \<lparr>of_offset = 0, of_status_flags = 0, of_readable = readable, of_writable = writable, of_inode = i\<rparr>"

definition OpenFile_new :: "('z, OpenFile) fs_kernel" where
  "OpenFile_new =
     kbind (new_inode (Reg (RegFileINode_new (str_of ''/'') (str_of ''null'') (OpenFlags_new 0) True True))) (\<lambda>i.
     kret \<lparr>of_offset = 0, of_status_flags = 0, of_readable = True, of_writable = True, of_inode = i\<rparr>)"

definition OpenFile_new_stdin :: "('z, OpenFile) fs_kernel" where
  "OpenFile_new_stdin =
     kbind (new_inode (Terminal TerminalINode_new_stdin)) (\<lambda>i.
     kret \<lparr>of_offset = 0, of_status_flags = 0, of_readable = True, of_writable = False, of_inode = i\<rparr>)"

definition OpenFile_new_stdout :: "('z, OpenFile) fs_kernel" where
  "OpenFile_new_stdout =
     kbind (new_inode (Terminal TerminalINode_new_stdout)) (\<lambda>i.
     kret \<lparr>of_offset = 0, of_status_flags = 0, of_readable = False, of_writable = True, of_inode = i\<rparr>)"

definition OpenFile_new_stderr :: "('z, OpenFile) fs_kernel" where
  "OpenFile_new_stderr =
     kbind (new_inode (Terminal TerminalINode_new_stderr)) (\<lambda>i.
     kret \<lparr>of_offset = 0, of_status_flags = 0, of_readable = False, of_writable = True, of_inode = i\<rparr>)"

definition set_close_on_exec :: "bool \<Rightarrow> OpenFile \<Rightarrow> OpenFile" where
  "set_close_on_exec flag f = (if flag then f\<lparr>of_status_flags := 1\<rparr> else f\<lparr>of_status_flags := 0\<rparr>)"

section \<open>Descriptor tables\<close>

definition FdManager_new :: "('z, FdManager) fs_kernel" where
  "FdManager_new =
     kbind (kbind OpenFile_new_stdin new_file) (\<lambda>a.
     kbind (kbind OpenFile_new_stdout new_file) (\<lambda>b.
     kbind (kbind OpenFile_new_stderr new_file) (\<lambda>c.
     kret \<lparr>fd_array = [a, b, c]\<rparr>)))"

definition FdManager_len :: "FdManager \<Rightarrow> usize" where
  "FdManager_len m = of_nat (length (fd_array m))"

text \<open>\<^verbatim>\<open>self.fd_array[fd] = ..\<close>, which panics outside of the table.\<close>

definition fd_set :: "nat \<Rightarrow> nat \<Rightarrow> FdManager \<Rightarrow> ('z, FdManager) fs_kernel" where
  "fd_set fd r m = kthen (kcheck OutOfBounds (fd < length (fd_array m))) (kret (m\<lparr>fd_array := (fd_array m)[fd := r]\<rparr>))"

definition FdManager_close :: "usize \<Rightarrow> FdManager \<Rightarrow> ('z, FdManager) fs_kernel" where
  "FdManager_close fd m = kbind (kbind OpenFile_new new_file) (\<lambda>r. fd_set (unat fd) r m)"

definition close_if_flagged :: "nat \<Rightarrow> FdManager \<Rightarrow> ('z, FdManager) fs_kernel" where
  "close_if_flagged i m =
     kbind (kindex (fd_array m) i) (\<lambda>r.
     kbind (locked (lock_file r) (unlock_file r) (kget (\<lambda>s. of_status_flags (the_file r s)))) (\<lambda>flags.
     if flags = 1 then kbind (kbind OpenFile_new new_file) (\<lambda>r. fd_set i r m) else kret m))"

definition FdManager_close_on_exec :: "FdManager \<Rightarrow> ('z, FdManager) fs_kernel" where
  "FdManager_close_on_exec m = kfold close_if_flagged [0..<length (fd_array m)] m"

definition FdManager_push :: "nat \<Rightarrow> FdManager \<Rightarrow> usize \<times> FdManager" where
  "FdManager_push r m = (let m = m\<lparr>fd_array := fd_array m @ [r]\<rparr> in (FdManager_len m - 1, m))"

definition FdManager_get :: "usize \<Rightarrow> FdManager \<Rightarrow> nat option" where
  "FdManager_get fd m = (if unat fd < length (fd_array m) then Some (fd_array m ! unat fd) else None)"

definition FdManager_remove :: "usize \<Rightarrow> FdManager \<Rightarrow> (nat \<times> FdManager) res" where
  "FdManager_remove fd m =
     (if unat fd < length (fd_array m)
      then Inr (fd_array m ! unat fd, m\<lparr>fd_array := take (unat fd) (fd_array m) @ drop (unat fd + 1) (fd_array m)\<rparr>)
      else Inl OutOfBounds)"

definition FdManager_dup :: "usize \<Rightarrow> FdManager \<Rightarrow> ('z, usize \<times> FdManager) fs_kernel" where
  "FdManager_dup fd m =
     kbind (kunwrap (FdManager_get fd m)) (\<lambda>r.
     let m = m\<lparr>fd_array := fd_array m @ [r]\<rparr> in kret (FdManager_len m - 1, m))"

definition push_new_file :: "FdManager \<Rightarrow> ('z, FdManager) fs_kernel" where
  "push_new_file m = kbind (kbind OpenFile_new new_file) (\<lambda>r. kret (m\<lparr>fd_array := fd_array m @ [r]\<rparr>))"

definition FdManager_dup3 :: "usize \<Rightarrow> usize \<Rightarrow> FdManager \<Rightarrow> ('z, usize \<times> FdManager) fs_kernel" where
  "FdManager_dup3 fd new_fd m =
     kbind (kunwrap (FdManager_get fd m)) (\<lambda>r.
     kbind (kloop (\<lambda>m. if FdManager_len m < new_fd then kbind (push_new_file m) (\<lambda>m. kret (Inl m)) else kret (Inr m)) m) (\<lambda>m.
     kbind (fd_set (unat new_fd) r m) (\<lambda>m.
     kret (new_fd, m))))"

section \<open>The directory cache\<close>

definition GlobalDentryCache_get :: "rstr \<Rightarrow> ('z, nat option) fs_kernel" where
  "GlobalDentryCache_get path = locked lock_dentries unlock_dentries (kget (\<lambda>s. sm_data (dentry_cache s) path))"

definition GlobalDentryCache_insert :: "rstr \<Rightarrow> nat \<Rightarrow> ('z, nat) fs_kernel" where
  "GlobalDentryCache_insert path r =
     locked lock_dentries unlock_dentries
       (kthen (kmodify (\<lambda>s. s\<lparr>dentry_cache := SpinMutexGuard_deref_mut (\<lambda>t. t(path \<mapsto> r)) (dentry_cache s)\<rparr>))
        (kbind (kget (\<lambda>s. sm_data (dentry_cache s) path)) kunwrap))"

definition GlobalDentryCache_remove :: "rstr \<Rightarrow> ('z, unit) fs_kernel" where
  "GlobalDentryCache_remove path =
     locked lock_dentries unlock_dentries
       (kmodify (\<lambda>s. s\<lparr>dentry_cache := SpinMutexGuard_deref_mut (\<lambda>t. t(path := None)) (dentry_cache s)\<rparr>))"

definition GlobalDentryCache_unlink :: "rstr \<Rightarrow> ('z, unit) fs_kernel" where
  "GlobalDentryCache_unlink path =
     locked lock_dentries unlock_dentries
       (kbind (kget (\<lambda>s. sm_data (dentry_cache s) path)) (\<lambda>e.
        kbind (kunwrap e) (\<lambda>r.
        locked (lock_inode r) (unlock_inode r)
          (kbind (kget (the_inode r)) (\<lambda>i. set_inode r (snd (INode_unlink i)))))))"

section \<open>\<open>File\<close> of the virtual file system\<close>

record VfsFile =
  vf_inode :: nat
  vf_offset :: usize
  vf_readable :: bool
  vf_writable :: bool

definition VfsFile_new :: "nat \<Rightarrow> bool \<Rightarrow> bool \<Rightarrow> VfsFile" where
  "VfsFile_new i readable writable = \<lparr>vf_inode = i, vf_offset = 0, vf_readable = readable, vf_writable = writable\<rparr>"

definition VfsFile_read :: "(nat \<Rightarrow> usize) \<Rightarrow> u8 list \<Rightarrow> VfsFile \<Rightarrow> ('z, usize fs_result \<times> u8 list \<times> VfsFile) fs_kernel" where
  "VfsFile_read getchar buf f =
     kthen (kassert (vf_readable f))
     (kbind (inode_read getchar (vf_inode f) (vf_offset f) buf) (\<lambda>(r, buf).
      case r of
        Inl e \<Rightarrow> kret (Inl e, buf, f)
      | Inr len \<Rightarrow> kret (Inr len, buf, f\<lparr>vf_offset := vf_offset f + len\<rparr>)))"

definition VfsFile_write :: "u8 list \<Rightarrow> VfsFile \<Rightarrow> ('z, usize fs_result \<times> VfsFile) fs_kernel" where
  "VfsFile_write buf f =
     kthen (kassert (vf_writable f))
     (kbind (inode_write (vf_inode f) (vf_offset f) buf) (\<lambda>r.
      case r of
        Inl e \<Rightarrow> kret (Inl e, f)
      | Inr len \<Rightarrow> kret (Inr len, f\<lparr>vf_offset := vf_offset f + len\<rparr>)))"

section \<open>Rules for the locks\<close>

lemma wpe_SpinMutex_lock [simp]:
  "wpe SpinMutex_lock Q E m =
     ((sm_lock m \<longrightarrow> E (Explicit ''dead lock'')) \<and> (\<not> sm_lock m \<longrightarrow> Q () (m\<lparr>sm_lock := True\<rparr>)))"
  by (cases "sm_lock m") (simp_all add: wpe_def SpinMutex_lock_free SpinMutex_lock_taken)

lemmas lock_ops = lock_inode_def unlock_inode_def lock_file_def unlock_file_def lock_dentries_def unlock_dentries_def
  SpinMutexGuard_drop_def SpinMutexGuard_deref_mut_def SpinMutex_new_def

definition free :: "'a SpinMutex \<Rightarrow> bool" where
  "free m \<longleftrightarrow> \<not> sm_lock m"

lemma free_eq: "free m \<Longrightarrow> m = \<lparr>sm_lock = False, sm_data = sm_data m\<rparr>"
  by (simp add: free_def)

lemma drop_taken: "free m \<Longrightarrow> SpinMutexGuard_drop (m\<lparr>sm_lock := True\<rparr>) = m"
  by (simp add: free_def SpinMutexGuard_drop_def)

lemma set_while_taken: "free m \<Longrightarrow> SpinMutexGuard_drop (SpinMutexGuard_deref_mut f (m\<lparr>sm_lock := True\<rparr>)) = SpinMutex_new (f (sm_data m))"
  by (simp add: free_def SpinMutexGuard_drop_def SpinMutexGuard_deref_mut_def SpinMutex_new_def)

lemma free_new [simp]: "free (SpinMutex_new d)" "sm_data (SpinMutex_new d) = d"
  by (simp_all add: free_def SpinMutex_new_def)

lemma wpe_lock_file [simp]:
  "free (open_files s ! r) \<Longrightarrow>
   wpe (lock_file r) Q E s = Q () (s\<lparr>open_files := (open_files s)[r := (open_files s ! r)\<lparr>sm_lock := True\<rparr>]\<rparr>)"
  by (simp add: lock_file_def free_def)

lemma wpe_unlock_file [simp]:
  "wpe (unlock_file r) Q E s = Q () (s\<lparr>open_files := (open_files s)[r := SpinMutexGuard_drop (open_files s ! r)]\<rparr>)"
  by (simp add: unlock_file_def)

lemma wpe_modify_file [simp]:
  "wpe (modify_file r f) Q E s = Q () (s\<lparr>open_files := (open_files s)[r := SpinMutexGuard_deref_mut f (open_files s ! r)]\<rparr>)"
  by (simp add: modify_file_def)

lemma wpe_inode_read:
  assumes "r < length (inodes s)" "free (inodes s ! r)"
  shows "wpe (inode_read g r off buf) Q E s =
    wpe (INode_read_at g off buf (the_inode r s)) (\<lambda>x c. Q x (s\<lparr>console := c\<rparr>)) E (console s)"
proof -
  have "(inodes s)[r := inodes s ! r] = inodes s" by simp
  then show ?thesis using assms drop_taken [OF assms(2)]
    by (simp add: inode_read_def locked_def lock_inode_def unlock_inode_def free_def the_inode_def)
qed

lemma wpe_inode_write:
  assumes "r < length (inodes s)" "free (inodes s ! r)"
  shows "wpe (inode_write r off buf) Q E s =
    wpe (INode_write_at off buf (the_inode r s))
      (\<lambda>(x, i) c. Q x (s\<lparr>console := c, inodes := (inodes s)[r := SpinMutex_new i]\<rparr>)) E (console s)"
  using assms set_while_taken [OF assms(2)]
  by (simp add: inode_write_def locked_def lock_inode_def unlock_inode_def free_def the_inode_def set_inode_def
      case_prod_unfold)

lemma wpe_inode_size:
  assumes "r < length (inodes s)" "free (inodes s ! r)"
  shows "wpe (inode_size r) Q E s = Q (file_size (the_inode r s)) s"
proof -
  have "(inodes s)[r := inodes s ! r] = inodes s" by simp
  then show ?thesis using assms drop_taken [OF assms(2)]
    by (simp add: inode_size_def locked_def lock_inode_def unlock_inode_def free_def the_inode_def)
qed

lemma wpe_new_inode [simp]:
  "wpe (new_inode i) Q E s = Q (length (inodes s)) (s\<lparr>inodes := inodes s @ [SpinMutex_new i]\<rparr>)"
  by (simp add: new_inode_def)

lemma wpe_new_file [simp]:
  "wpe (new_file f) Q E s = Q (length (open_files s)) (s\<lparr>open_files := open_files s @ [SpinMutex_new f]\<rparr>)"
  by (simp add: new_file_def)

lemma wpe_dentry_get:
  assumes "free (dentry_cache s)"
  shows "wpe (GlobalDentryCache_get path) Q E s = Q (sm_data (dentry_cache s) path) s"
  using assms drop_taken [OF assms]
  by (simp add: GlobalDentryCache_get_def locked_def lock_dentries_def unlock_dentries_def free_def)

lemma wpe_dentry_insert:
  assumes "free (dentry_cache s)"
  shows "wpe (GlobalDentryCache_insert path r) Q E s =
    Q r (s\<lparr>dentry_cache := SpinMutex_new ((sm_data (dentry_cache s))(path \<mapsto> r))\<rparr>)"
  using assms set_while_taken [OF assms, of "\<lambda>t. t(path \<mapsto> r)"]
  by (simp add: GlobalDentryCache_insert_def locked_def lock_dentries_def unlock_dentries_def free_def
      SpinMutexGuard_deref_mut_def)

section \<open>The invariant of the open files\<close>

text \<open>Which inodes can be read and written at all.\<close>

fun can_read :: "INode \<Rightarrow> bool" where
  "can_read (Reg f) = rf_readable f"
| "can_read (Terminal t) = tn_readable t"
| "can_read (Dentry d) = False"
| "can_read (Pipe p) = True"

fun can_write :: "INode \<Rightarrow> bool" where
  "can_write (Reg f) = rf_writable f"
| "can_write (Terminal t) = tn_writable t"
| "can_write (Dentry d) = False"
| "can_write (Pipe p) = True"

text \<open>An open file refers to an inode that supports the accesses the file is open for.  Every lock is free,
  but for those of the open files \<open>F\<close>.\<close>

definition file_ok :: "INode SpinMutex list \<Rightarrow> OpenFile \<Rightarrow> bool" where
  "file_ok ms f \<longleftrightarrow> of_inode f < length ms \<and>
     (of_readable f \<longrightarrow> can_read (sm_data (ms ! of_inode f))) \<and>
     (of_writable f \<longrightarrow> can_write (sm_data (ms ! of_inode f)))"

definition entry_ok :: "INode SpinMutex list \<Rightarrow> nat \<Rightarrow> bool" where
  "entry_ok ms r \<longleftrightarrow> r < length ms \<and> can_read (sm_data (ms ! r)) \<and> can_write (sm_data (ms ! r))"

definition fs_ok :: "nat set \<Rightarrow> 'z file_state_scheme \<Rightarrow> bool" where
  "fs_ok F s \<longleftrightarrow> (\<forall>m\<in>set (inodes s). free m) \<and>
     (\<forall>r<length (open_files s). (r \<notin> F \<longrightarrow> free (open_files s ! r)) \<and> file_ok (inodes s) (the_file r s)) \<and>
     free (dentry_cache s) \<and> (\<forall>r\<in>ran (sm_data (dentry_cache s)). entry_ok (inodes s) r)"

definition fd_ok :: "'z file_state_scheme \<Rightarrow> FdManager \<Rightarrow> bool" where
  "fd_ok s m \<longleftrightarrow> (\<forall>r\<in>set (fd_array m). r < length (open_files s))"

text \<open>The stores only grow, and what can be read or written stays so.\<close>

definition inodes_grow :: "INode SpinMutex list \<Rightarrow> INode SpinMutex list \<Rightarrow> bool" where
  "inodes_grow ms ms' \<longleftrightarrow> length ms \<le> length ms' \<and>
     (\<forall>r<length ms. can_read (sm_data (ms' ! r)) = can_read (sm_data (ms ! r)) \<and>
        can_write (sm_data (ms' ! r)) = can_write (sm_data (ms ! r)))"

lemma inodes_grow_refl [simp]: "inodes_grow ms ms"
  by (simp add: inodes_grow_def)

lemma inodes_grow_append [simp]: "inodes_grow ms (ms @ ms')"
  by (simp add: inodes_grow_def nth_append)

lemma inodes_grow_update:
  "can_read i = can_read (sm_data (ms ! r)) \<Longrightarrow> can_write i = can_write (sm_data (ms ! r)) \<Longrightarrow>
   inodes_grow ms (ms[r := SpinMutex_new i])"
  by (cases "r < length ms") (auto simp: inodes_grow_def nth_list_update)

lemma file_ok_grow: "file_ok ms f \<Longrightarrow> inodes_grow ms ms' \<Longrightarrow> file_ok ms' f"
  by (auto simp: file_ok_def inodes_grow_def)

lemma entry_ok_grow: "entry_ok ms r \<Longrightarrow> inodes_grow ms ms' \<Longrightarrow> entry_ok ms' r"
  by (auto simp: entry_ok_def inodes_grow_def)

lemma INode_write_at_kinds:
  "wlp (INode_write_at off buf i) (\<lambda>(r, j) c. can_read j = can_read i \<and> can_write j = can_write i) c"
  by (cases i) (auto simp: RegFileINode_write_at_def DentryInode_write_at_def PipeINode_write_at_def wpe_def
      TerminalINode_write_at_def terminal_write_def kdefs write_str_eq split: if_splits sum.splits option.splits)

lemma fs_ok_file:
  "fs_ok F s \<Longrightarrow> r < length (open_files s) \<Longrightarrow> file_ok (inodes s) (the_file r s) \<and> (r \<notin> F \<longrightarrow> free (open_files s ! r))"
  by (simp add: fs_ok_def)

lemma fs_ok_inode:
  assumes "fs_ok F s" "r < length (open_files s)"
  shows "of_inode (the_file r s) < length (inodes s)" "free (inodes s ! of_inode (the_file r s))"
proof -
  show "of_inode (the_file r s) < length (inodes s)" using fs_ok_file [OF assms] by (simp add: file_ok_def)
  then show "free (inodes s ! of_inode (the_file r s))" using assms(1) by (simp add: fs_ok_def)
qed

lemma fs_ok_entry:
  assumes "fs_ok F s" "entry_ok (inodes s) r"
  shows "r < length (inodes s)" "free (inodes s ! r)"
  using assms by (auto simp: fs_ok_def entry_ok_def)

lemma fs_ok_dentry: "fs_ok F s \<Longrightarrow> sm_data (dentry_cache s) p = Some r \<Longrightarrow> entry_ok (inodes s) r"
  by (auto simp: fs_ok_def ran_def)

lemma fs_ok_dentries_free: "fs_ok F s \<Longrightarrow> free (dentry_cache s)"
  by (simp add: fs_ok_def)

lemma fs_ok_mono: "fs_ok F s \<Longrightarrow> F \<subseteq> G \<Longrightarrow> fs_ok G s"
  by (auto simp: fs_ok_def)

text \<open>How the invariant is kept: new inodes and files, changed inodes, a changed file, a new entry.\<close>

lemma fs_ok_set_inodes:
  assumes "fs_ok F s" "inodes_grow (inodes s) ms" "\<forall>m\<in>set ms. free m"
  shows "fs_ok F (s\<lparr>inodes := ms\<rparr>)"
  using assms file_ok_grow entry_ok_grow by (fastforce simp: fs_ok_def the_file_def)

lemma fs_ok_new_inode: "fs_ok F s \<Longrightarrow> fs_ok F (s\<lparr>inodes := inodes s @ [SpinMutex_new i]\<rparr>)"
  by (rule fs_ok_set_inodes) (auto simp: fs_ok_def)

lemma fs_ok_write_inode:
  assumes "fs_ok F s" "can_read i = can_read (the_inode r s)" "can_write i = can_write (the_inode r s)"
  shows "fs_ok F (s\<lparr>inodes := (inodes s)[r := SpinMutex_new i]\<rparr>)"
proof (rule fs_ok_set_inodes [OF assms(1)])
  show "inodes_grow (inodes s) ((inodes s)[r := SpinMutex_new i])"
    using assms(2,3) by (intro inodes_grow_update) (simp_all add: the_inode_def)
  show "\<forall>m\<in>set ((inodes s)[r := SpinMutex_new i]). free m"
    using assms(1) by (auto simp: fs_ok_def dest!: set_update_subset_insert [THEN subsetD])
qed

lemma fs_ok_console [simp]: "fs_ok F (s\<lparr>console := c\<rparr>) = fs_ok F s"
  by (simp add: fs_ok_def the_file_def)

lemma fs_ok_pmem [simp]: "fs_ok F (s\<lparr>pmem := m\<rparr>) = fs_ok F s"
  by (simp add: fs_ok_def the_file_def)

lemma fs_ok_new_file:
  "fs_ok F s \<Longrightarrow> file_ok (inodes s) f \<Longrightarrow> fs_ok F (s\<lparr>open_files := open_files s @ [SpinMutex_new f]\<rparr>)"
  by (auto simp: fs_ok_def the_file_def nth_append)

lemma fs_ok_new_entry:
  "fs_ok F s \<Longrightarrow> entry_ok (inodes s) r \<Longrightarrow>
   fs_ok F (s\<lparr>dentry_cache := SpinMutex_new ((sm_data (dentry_cache s))(p \<mapsto> r))\<rparr>)"
  by (auto simp: fs_ok_def ran_def the_file_def split: if_splits)

lemma nth_update: "xs[i := x] ! j = (if i = j \<and> i < length xs then x else xs ! j)"
  by (cases "i < length xs") (simp_all add: list_update_beyond not_less)

lemma fs_ok_take:
  "fs_ok F s \<Longrightarrow> fs_ok (insert r F) (s\<lparr>open_files := (open_files s)[r := (open_files s ! r)\<lparr>sm_lock := b\<rparr>]\<rparr>)"
  by (auto simp: fs_ok_def the_file_def nth_update)

lemma fs_ok_drop:
  "fs_ok F s \<Longrightarrow> fs_ok (F - {r}) (s\<lparr>open_files := (open_files s)[r := SpinMutexGuard_drop (open_files s ! r)]\<rparr>)"
  by (auto simp: fs_ok_def the_file_def nth_update SpinMutexGuard_drop_def free_def)

lemma fs_ok_modify:
  "fs_ok F s \<Longrightarrow> (\<And>g. file_ok (inodes s) g \<Longrightarrow> file_ok (inodes s) (f g)) \<Longrightarrow>
   fs_ok F (s\<lparr>open_files := (open_files s)[r := SpinMutexGuard_deref_mut f (open_files s ! r)]\<rparr>)"
  by (auto simp: fs_ok_def the_file_def nth_update SpinMutexGuard_deref_mut_def free_def)

end
