(* ===== verification/Spec2Isabelle.thy ===== *)
theory Spec2Isabelle
  imports Address Frame_Allocator Address_Space Block_Cache Fat_Volume Virtio_Blk Spin_Mutex Ticket_Mutex Fair_Mutex Rw_Lock Spin_Once Open_File
begin

text \<open>
  \<^bold>\<open>A verification library for the MoOS kernel.\<close>

  MoOS is a RISC-V (SV39) kernel in Rust.  Sources are named relative to \<^verbatim>\<open>src/os/kernel\<close>: the kernel
  itself is \<^verbatim>\<open>src\<close>, the crates it carries with it are \<^verbatim>\<open>dependencies\<close>.

  \<^bold>\<open>The parts and how they interact.\<close>  Memory management (\<^verbatim>\<open>mm\<close>) hands out physical frames, builds page
  tables in them and groups pages into address spaces; the kernel reads and writes user memory through the
  page table of the process.  The disk is reached through a virtqueue (\<^verbatim>\<open>virtio-drivers\<close>) whose buffers are
  frames of the same allocator; the FAT32 library (\<^verbatim>\<open>fat32\<close>) reads and writes sectors of that disk, and
  \<^verbatim>\<open>fs/dev\<close> offers bytes and a cache over any block device.  User programs see inodes (\<^verbatim>\<open>fs/file.rs\<close>) through
  open files and descriptor tables (\<^verbatim>\<open>task/mod.rs\<close>).  Every shared object of the kernel is behind a lock of
  the crate \<^verbatim>\<open>spin\<close>.

  \<^bold>\<open>Conventions of the model\<close> (theory \<open>Prelude\<close>).  A \<^verbatim>\<open>usize\<close> is a \<^typ>\<open>usize\<close>, a 64-bit word; the kernel is
  built in release mode, so arithmetic wraps.  Code that may panic is a function
  \<open>'s \<Rightarrow> panic + ('a \<times> 's)\<close> built from \<open>kret\<close>, \<open>kbind\<close>, \<open>kcheck\<close>, \<open>kunwrap\<close>, \<open>kindex\<close> and \<open>kfold\<close>; each
  \<^verbatim>\<open>unwrap\<close>, \<^verbatim>\<open>assert\<close>, index and slice of the source is one of its branches.  Loops with a bound in sight are
  structural recursions or folds.  The others are \<open>partial_function\<close>s, in which a loop that never ends is
  the value \<open>Hang\<close>, so that a theorem that states a result also states that the loop ends; no fuel is used
  anywhere.  The collection \<open>wp_rules\<close> holds the weakest-precondition rules with which the proofs go through
  the code.

  \<^bold>\<open>Memory\<close> (\<^verbatim>\<open>src/mm\<close>, \<^verbatim>\<open>src/config.rs\<close>).
  \<^item> \<open>Address\<close> (\<^verbatim>\<open>mm/address.rs\<close>, \<^verbatim>\<open>config.rs\<close>): the four address types, conversions, rounding and
    \<^verbatim>\<open>SimpleRange\<close>; the locale \<open>step_by_one\<close> is the trait \<^verbatim>\<open>StepByOne\<close>, interpreted for both page numbers, and
    gives that a range loop ends and visits each page once.
  \<^item> \<open>Frame_Allocator\<close> (\<^verbatim>\<open>mm/frame_allocator.rs\<close>): physical memory as one array of bytes (\<open>mm_state\<close>) and the
    stack allocator.  The locale \<open>frame_allocator\<close> is the contract of the trait \<^verbatim>\<open>FrameAllocator\<close>.  Frames handed
    out are fresh and zeroed, and every history after boot keeps the invariant.
  \<^item> \<open>Page_Table\<close> and \<open>User_Memory\<close> (\<^verbatim>\<open>mm/page_table.rs\<close>): entries as bit fields, the walk of the three levels
    in physical memory, \<^verbatim>\<open>map\<close> and \<^verbatim>\<open>unmap\<close> as updates of the partial map \<open>pt_view\<close>, and the copies between
    kernel and user memory, whose loops end and touch exactly the bytes of the user buffer.
  \<^item> \<open>Memory_Set\<close> has the operations of \<^verbatim>\<open>mm/memory_set.rs\<close>; \<open>Address_Space\<close> has the invariant \<open>ms_ok\<close> and the
    theorems about mapping, shrinking, copying for \<^verbatim>\<open>fork\<close> and dropping a space.

  \<^bold>\<open>Block devices\<close> (\<^verbatim>\<open>src/fs/util.rs\<close>, \<^verbatim>\<open>src/fs/dev\<close>).
  \<^item> \<open>Block_Range\<close>: the iterator that cuts a byte range at block borders.
  \<^item> \<open>Block_Device\<close>: byte access over any block device; the locale \<open>block_device\<close> is what a device promises,
    with the test device of the source as one instance.
  \<^item> \<open>Lru\<close> and \<open>Block_Cache\<close>: the recency list refines a move-to-front list, and a cached device is again a
    \<open>block_device\<close> (a \<open>sublocale\<close>), so the byte theorems hold for it as well.

  \<^bold>\<open>FAT32\<close> (\<^verbatim>\<open>dependencies/fat32\<close>).
  \<^item> \<open>Rust_String\<close>, \<open>Fat_Item\<close>: strings and UTF-8; short and long directory items with their round trips.
  \<^item> \<open>Sector_Device\<close>: the locale of what the library needs of the disk.
  \<^item> \<open>Fat_Table\<close> (\<^verbatim>\<open>bpb.rs\<close>, \<^verbatim>\<open>fat.rs\<close>, \<^verbatim>\<open>volume.rs\<close>), \<open>Fat_Dir\<close> (\<^verbatim>\<open>dir.rs\<close>), \<open>Fat_File\<close> (\<^verbatim>\<open>file.rs\<close>): every
    operation; \<open>Fat_Volume\<close> has the theorems about opening, finding, creating and reading, and the locale
    \<open>sector_device\<close> applied to the virtio disk.

  \<^bold>\<open>Disk driver\<close> (\<^verbatim>\<open>dependencies/virtio-drivers\<close>, \<^verbatim>\<open>src/fs/block_dev\<close>).
  \<^item> \<open>Virtio_Header\<close>: the register block; \<open>Virtio_Queue\<close>: the split virtqueue with its 16-bit indices and the
    protocol between driver and device as a reachability relation.
  \<^item> \<open>Virtio_Blk\<close>: block requests and the kernel's wrapper.  The locale \<open>virtio_disk\<close> says what a disk does; its
    \<open>sublocale\<close> is the refinement to \<open>sector_device\<close>.

  \<^bold>\<open>Locks\<close> (\<^verbatim>\<open>dependencies/spin\<close>).  \<open>Atomics\<close> has the atomic operations and the locale \<open>mutex_protocol\<close>; then
  \<open>Spin_Mutex\<close>, \<open>Ticket_Mutex\<close>, \<open>Fair_Mutex\<close>, \<open>Rw_Lock\<close> and \<open>Spin_Once\<close> model one file each as threads that
  interleave atomic actions in any order.  They show mutual exclusion, first-in first-out service under a
  fair scheduler, and that a cell is initialised once.  Actions interleave one at a time: the memory orderings
  given to the atomic operations are not modelled.

  \<^bold>\<open>Files of a process\<close> (\<^verbatim>\<open>src/fs/file.rs\<close>, \<^verbatim>\<open>src/fs/vfs.rs\<close>, \<^verbatim>\<open>src/task/mod.rs\<close>, \<^verbatim>\<open>src/console.rs\<close>).
  \<^item> \<open>Inode\<close>: regular files, terminals, directory entries and pipes.
  \<^item> \<open>Open_File\<close>: open files, descriptor tables and the cache of directory entries.  An \<^verbatim>\<open>Arc<Mutex<..>>\<close> is an
    index into a list of locked objects, so that aliasing is visible; the invariant \<open>fs_ok\<close> says that every
    reference is valid and every lock free between operations.

  \<^bold>\<open>Parameters.\<close>  The answers of the firmware console, the addresses of the linker script, the result of the
  ELF parser \<^verbatim>\<open>xmas-elf\<close>, uninitialised buffers and the device side of every register are arguments of the
  definitions that use them.

  \<^bold>\<open>Not modelled.\<close>  The system calls, processes, scheduler and trap handling (\<^verbatim>\<open>src/syscall\<close>, \<^verbatim>\<open>src/task\<close> beyond
  open files, \<^verbatim>\<open>src/trap\<close>, \<^verbatim>\<open>src/main.rs\<close>); the assembly files and control registers; the executor
  \<^verbatim>\<open>async-task\<close>; the virtio drivers for screens, networks, keyboards and consoles, which the kernel does not
  start; \<^verbatim>\<open>spin\<close>'s barrier and lazy cell; formatting of debug output; and the vendored crates.
\<close>

end
